(* ===== verification/Redis_Prelude.thy ===== *)
theory Redis_Prelude
  imports Main "HOL-Library.Word" "HOL-Library.Monad_Syntax"
begin

text \<open>
  The prelude of the development: the C types the components share, raw memory as a list of
  bytes, the little endian layout of integers in it, and the generic lemmas on lists, options
  and words that carry the component proofs.

  A C function that reads or writes raw memory is modelled in the option monad:
  \<open>None\<close> stands for a run that leaves the defined behaviour of C (an access
  outside the allocation) or that stops in a failed \<open>assert\<close>. A theorem that such a
  function returns \<open>Some\<close> is therefore also a memory safety statement.
\<close>

unbundle bit_operations_syntax

section \<open>Types\<close>

type_synonym byte = "8 word"
type_synonym bytes = "byte list"
type_synonym u16 = "16 word"
type_synonym u32 = "32 word"
type_synonym u64 = "64 word"

text \<open>
  The collections of the development: \<open>mem_simps\<close> holds the equations that evaluate
  memory accesses, \<open>le_simps\<close> those of the integer layout.
\<close>

named_theorems mem_simps \<open>evaluation of accesses to raw memory\<close>
named_theorems le_simps \<open>little endian integer layout\<close>

section \<open>Integer ranges of C\<close>

definition in_sbits :: "nat \<Rightarrow> int \<Rightarrow> bool" where
  "in_sbits w v \<longleftrightarrow> - (2 ^ (w - 1)) \<le> v \<and> v < 2 ^ (w - 1)"

abbreviation (input) INT16_MIN :: int where "INT16_MIN \<equiv> - 32768"
abbreviation (input) INT16_MAX :: int where "INT16_MAX \<equiv> 32767"
abbreviation (input) INT32_MIN :: int where "INT32_MIN \<equiv> - 2147483648"
abbreviation (input) INT32_MAX :: int where "INT32_MAX \<equiv> 2147483647"
abbreviation (input) LLONG_MIN :: int where "LLONG_MIN \<equiv> - 9223372036854775808"
abbreviation (input) LLONG_MAX :: int where "LLONG_MAX \<equiv> 9223372036854775807"
abbreviation (input) ULLONG_MAX :: int where "ULLONG_MAX \<equiv> 18446744073709551615"
abbreviation (input) INT64_MIN :: int where "INT64_MIN \<equiv> LLONG_MIN"
abbreviation (input) INT64_MAX :: int where "INT64_MAX \<equiv> LLONG_MAX"

section \<open>Raw memory\<close>

text \<open>
  A heap block is the list of its bytes. \<open>mem_get m off n\<close> reads \<open>n\<close> bytes,
  \<open>mem_put m off xs\<close> writes \<open>xs\<close>, \<open>mem_move m dst src n\<close> is
  \<open>memmove\<close>; each fails outside the block. \<open>mem_realloc junk m n\<close> is
  \<open>zrealloc\<close>: the bytes it adds hold whatever the allocator left there, which
  \<open>junk\<close> gives by offset.
\<close>

definition mem_get :: "bytes \<Rightarrow> nat \<Rightarrow> nat \<Rightarrow> bytes option" where
  "mem_get m off n = (if off + n \<le> length m then Some (take n (drop off m)) else None)"

definition mem_put :: "bytes \<Rightarrow> nat \<Rightarrow> bytes \<Rightarrow> bytes option" where
  "mem_put m off xs =
     (if off + length xs \<le> length m then Some (take off m @ xs @ drop (off + length xs) m)
      else None)"

definition mem_move :: "bytes \<Rightarrow> nat \<Rightarrow> nat \<Rightarrow> nat \<Rightarrow> bytes option" where
  "mem_move m dst src n = do { xs \<leftarrow> mem_get m src n; mem_put m dst xs }"

definition mem_realloc :: "(nat \<Rightarrow> byte) \<Rightarrow> bytes \<Rightarrow> nat \<Rightarrow> bytes" where
  "mem_realloc junk m n = take n m @ map junk [length m..<n]"

definition mem_byte :: "bytes \<Rightarrow> nat \<Rightarrow> byte option" where
  "mem_byte m off = (if off < length m then Some (m ! off) else None)"

text \<open>
  The element of an array of typed cells, and a C \<open>assert\<close>.
\<close>

definition nth_opt :: "'a list \<Rightarrow> nat \<Rightarrow> 'a option" where
  "nth_opt xs i = (if i < length xs then Some (xs ! i) else None)"

definition c_assert :: "bool \<Rightarrow> unit option" where
  "c_assert b = (if b then Some () else None)"

section \<open>Little endian integers\<close>

text \<open>
  \<open>le_enc n v\<close> is the memory of an \<open>n\<close>-byte integer holding \<open>v\<close>
  (reduced modulo \<open>256 ^ n\<close>, as a C conversion to that width does) on a little endian
  host; \<open>le_dec\<close> reads it as unsigned, \<open>le_sdec\<close> as two's complement.
\<close>

fun le_enc :: "nat \<Rightarrow> int \<Rightarrow> bytes" where
  "le_enc 0 v = []"
| "le_enc (Suc n) v = word_of_int v # le_enc n (v div 256)"

fun le_dec :: "bytes \<Rightarrow> int" where
  "le_dec [] = 0"
| "le_dec (b # bs) = uint b + 256 * le_dec bs"

definition le_sdec :: "bytes \<Rightarrow> int" where
  "le_sdec bs =
     (let v = le_dec bs in if 2 * v < 256 ^ length bs then v else v - 256 ^ length bs)"

section \<open>Options\<close>

lemma bind_SomeE:
  assumes "Option.bind m f = Some y"
  obtains x where "m = Some x" and "f x = Some y"
  using assms by (cases m) auto

lemma c_assert_True [simp]: "c_assert True = Some ()"
  by (simp add: c_assert_def)

lemma c_assert_Some [simp]: "c_assert b = Some u \<longleftrightarrow> b"
  by (simp add: c_assert_def)

lemma nth_opt_Some [mem_simps]: "i < length xs \<Longrightarrow> nth_opt xs i = Some (xs ! i)"
  by (simp add: nth_opt_def)

section \<open>Lists\<close>

lemma length_concat_map_const:
  assumes "\<And>x. x \<in> set xs \<Longrightarrow> length (f x) = w"
  shows "length (concat (map f xs)) = length xs * w"
  using assms by (induction xs) auto

lemma take_concat_map_const:
  assumes "\<And>x. length (f x) = w" and "i \<le> length xs"
  shows "take (i * w) (concat (map f xs)) = concat (map f (take i xs))"
  using assms(2)
proof (induction xs arbitrary: i)
  case Nil
  then show ?case by simp
next
  case (Cons x xs)
  then show ?case by (cases i) (simp_all add: assms(1))
qed

lemma drop_concat_map_const:
  assumes "\<And>x. length (f x) = w" and "i \<le> length xs"
  shows "drop (i * w) (concat (map f xs)) = concat (map f (drop i xs))"
  using assms(2)
proof (induction xs arbitrary: i)
  case Nil
  then show ?case by simp
next
  case (Cons x xs)
  then show ?case by (cases i) (simp_all add: assms(1))
qed

lemma sorted_wrt_less_nth:
  assumes "sorted_wrt (<) (xs :: 'a :: linorder list)" "i < length xs" "j < length xs"
  shows "xs ! i < xs ! j \<longleftrightarrow> i < j"
  by (metis assms linorder_less_linear order_less_asym sorted_wrt_nth_less)

section \<open>Lemmas on raw memory\<close>

lemma mem_get_Some [mem_simps]:
  "off + n \<le> length m \<Longrightarrow> mem_get m off n = Some (take n (drop off m))"
  by (simp add: mem_get_def)

lemma mem_put_Some [mem_simps]:
  "off + length xs \<le> length m \<Longrightarrow>
     mem_put m off xs = Some (take off m @ xs @ drop (off + length xs) m)"
  by (simp add: mem_put_def)

lemma mem_byte_Some [mem_simps]: "off < length m \<Longrightarrow> mem_byte m off = Some (m ! off)"
  by (simp add: mem_byte_def)

lemma mem_move_Some [mem_simps]:
  assumes "src + n \<le> length m" "dst + n \<le> length m"
  shows "mem_move m dst src n =
    Some (take dst m @ take n (drop src m) @ drop (dst + n) m)"
  using assms by (simp add: mem_move_def mem_get_def mem_put_def min_absorb2)

lemma mem_put_length: "mem_put m off xs = Some m' \<Longrightarrow> length m' = length m"
  by (auto simp: mem_put_def split: if_splits)

lemma mem_move_length: "mem_move m dst src n = Some m' \<Longrightarrow> length m' = length m"
  by (auto simp: mem_move_def elim!: bind_SomeE dest: mem_put_length)

lemma mem_move_zero [mem_simps]:
  "src \<le> length m \<Longrightarrow> dst \<le> length m \<Longrightarrow> mem_move m dst src 0 = Some m"
  by (simp add: mem_move_Some)

lemma length_mem_realloc [simp]: "length (mem_realloc junk m n) = n"
  by (simp add: mem_realloc_def)

lemma mem_realloc_grow:
  "length m \<le> n \<Longrightarrow> mem_realloc junk m n = m @ map junk [length m..<n]"
  by (simp add: mem_realloc_def)

lemma mem_realloc_shrink: "n \<le> length m \<Longrightarrow> mem_realloc junk m n = take n m"
  by (simp add: mem_realloc_def)

section \<open>Lemmas on little endian integers\<close>

lemma length_le_enc [simp]: "length (le_enc n v) = n"
  by (induction n arbitrary: v) auto

lemma le_enc_numeral:
  "le_enc (numeral k) v = word_of_int v # le_enc (pred_numeral k) (v div 256)"
  by (simp add: numeral_eq_Suc)

lemma le_dec_nonneg: "0 \<le> le_dec bs"
  by (induction bs) auto

lemma le_dec_bound: "le_dec bs < 256 ^ length bs"
proof (induction bs)
  case Nil
  then show ?case by simp
next
  case (Cons b bs)
  have "uint b < 256" using uint_lt2p[of b] by simp
  with Cons show ?case by simp
qed

lemma le_dec_enc [le_simps]: "le_dec (le_enc n v) = v mod 256 ^ n"
proof (induction n arbitrary: v)
  case 0
  then show ?case by simp
next
  case (Suc n)
  have "uint (word_of_int v :: byte) = v mod 256"
    by (simp add: uint_word_of_int)
  moreover have "v mod (256 * 256 ^ n) = v mod 256 + 256 * (v div 256 mod 256 ^ n)"
    by (subst zmod_zmult2_eq) auto
  ultimately show ?case by (simp add: Suc)
qed

lemma le_enc_dec [le_simps]: "length bs = n \<Longrightarrow> le_enc n (le_dec bs) = bs"
proof (induction bs arbitrary: n)
  case Nil
  then show ?case by simp
next
  case (Cons b bs)
  have lt: "uint b < 256" using uint_lt2p[of b] by simp
  have "uint (word_of_int (uint b + 256 * le_dec bs) :: byte) = uint b"
    unfolding uint_word_of_int using lt by simp
  then have "(word_of_int (uint b + 256 * le_dec bs) :: byte) = b"
    by (rule word_uint_eqI)
  moreover have "(uint b + 256 * le_dec bs) div 256 = le_dec bs"
    using lt by simp
  ultimately show ?case using Cons by auto
qed

lemma le_enc_mod [le_simps]: "le_enc n (v mod 256 ^ n) = le_enc n v"
  using le_enc_dec[of "le_enc n v" n] by (simp add: le_dec_enc)

lemma le_sdec_enc [le_simps]:
  assumes "0 < n" "in_sbits (8 * n) v"
  shows "le_sdec (le_enc n v) = v"
proof -
  obtain m where n: "n = Suc m" using assms(1) by (cases n) auto
  have p: "(256::int) ^ n = 2 * 2 ^ (8 * n - 1)"
  proof -
    have "(256::int) ^ n = 2 ^ (8 * n)" by (simp add: power_mult)
    also have "\<dots> = 2 ^ Suc (8 * n - 1)" using n by simp
    finally show ?thesis by simp
  qed
  show ?thesis
  proof (cases "0 \<le> v")
    case True
    then have "v mod 256 ^ n = v" using assms(2) p by (intro mod_pos_pos_trivial) (auto simp: in_sbits_def)
    then show ?thesis using assms(2) p by (simp add: le_sdec_def le_dec_enc in_sbits_def)
  next
    case False
    have "v mod 256 ^ n = (v + 256 ^ n) mod 256 ^ n" by simp
    also have "\<dots> = v + 256 ^ n"
      using False assms(2) p by (intro mod_pos_pos_trivial) (auto simp: in_sbits_def)
    finally show ?thesis using False assms(2) p by (auto simp: le_sdec_def le_dec_enc in_sbits_def)
  qed
qed

lemma le_sdec_range: "bs \<noteq> [] \<Longrightarrow> in_sbits (8 * length bs) (le_sdec bs)"
proof -
  assume "bs \<noteq> []"
  then obtain m where m: "length bs = Suc m" by (cases bs) auto
  have p: "(256::int) ^ length bs = 2 * 2 ^ (8 * length bs - 1)"
  proof -
    have "(256::int) ^ length bs = 2 ^ (8 * length bs)" by (simp add: power_mult)
    also have "\<dots> = 2 ^ Suc (8 * length bs - 1)" using m by simp
    finally show ?thesis by simp
  qed
  show ?thesis
    using le_dec_bound[of bs] le_dec_nonneg[of bs] p
    by (auto simp: le_sdec_def in_sbits_def Let_def)
qed

section \<open>Lemmas on words\<close>

lemma sint_u32_small:
  assumes "uint (w :: u32) < 2147483648"
  shows "sint w = uint w"
proof -
  have "- (2 ^ 31) \<le> uint w" by (rule order_trans [OF _ uint_ge_0]) simp
  moreover have "uint w < 2 ^ 31" using assms by simp
  ultimately have "signed_take_bit 31 (uint w) = uint w"
    by (rule signed_take_bit_int_eq_self)
  then show ?thesis by (simp add: sint_uint)
qed

lemma unat_u32_pred: "w \<noteq> 0 \<Longrightarrow> unat (w - 1 :: u32) = unat w - 1"
  by (simp add: unat_minus_one)

lemma sint_u32_pred:
  assumes "0 < unat (w :: u32)" "unat w < 2147483648"
  shows "sint (w - 1) = int (unat w) - 1"
proof -
  have "w \<noteq> 0" using assms(1) by auto
  then have "int (unat (w - 1)) = int (unat w) - 1"
    using assms(1) unat_u32_pred[of w] by linarith
  then have u: "uint (w - 1) = int (unat w) - 1" by (simp only: of_nat_unat)
  have "int (unat w) - 1 < 2147483648" using assms(2) by linarith
  then show ?thesis using u by (simp only: sint_u32_small)
qed

lemma unat_u32_lt: "unat (w :: u32) < 4294967296"
  using unsigned_less[of w] by simp

lemma u32_of_nat_eqI: "unat (w :: u32) = n \<Longrightarrow> w = of_nat n"
  by auto

lemma unat_u32_of_nat: "n < 2 ^ 32 \<Longrightarrow> unat (of_nat n :: u32) = n"
  by (simp add: unat_of_nat)

lemma unat_u32_mult: "unat (a :: u32) * unat b < 2 ^ 32 \<Longrightarrow> unat (a * b) = unat a * unat b"
  by (simp add: unat_mult_lem [THEN iffD1])

lemma unat_u32_Suc: "unat (a :: u32) + 1 < 2 ^ 32 \<Longrightarrow> unat (a + 1) = unat a + 1"
  by (simp add: unat_add_lem [THEN iffD1])

end
