(* ===== verification/Intset.thy ===== *)
theory Intset
  imports Redis_Prelude
begin

text \<open>
  The integer set of \<open>intset.c\<close>: a sorted array of 16, 32 or 64 bit integers stored in
  one raw block, with the operations of the file. \<open>is_contents\<close> is the memory after the
  header. The header fields stay 32 bit words. A trailing \<open>success\<close> pointer is a component
  of the result. The endianness macros \<open>memrev*ifbe\<close> are the identity on the little endian
  hosts the model is about.

  The lemmas show that the block always holds the strictly sorted list of the members, that
  search, insertion (with or without a change of encoding) and removal stay inside the block and
  compute the set operations, and where the 32 bit byte count of the tail move wraps around.
\<close>

section \<open>Definitions\<close>

abbreviation (input) INTSET_ENC_INT16 :: u32 where "INTSET_ENC_INT16 \<equiv> 2"
abbreviation (input) INTSET_ENC_INT32 :: u32 where "INTSET_ENC_INT32 \<equiv> 4"
abbreviation (input) INTSET_ENC_INT64 :: u32 where "INTSET_ENC_INT64 \<equiv> 8"

text \<open>\<open>sizeof(intset)\<close>: the two header words.\<close>

abbreviation (input) SIZEOF_INTSET :: nat where "SIZEOF_INTSET \<equiv> 8"

record intset =
  is_encoding :: u32
  is_length :: u32
  is_contents :: bytes

definition u_intsetValueEncoding :: "int \<Rightarrow> u32" where
  "u_intsetValueEncoding v =
     (if v < INT32_MIN \<or> v > INT32_MAX then INTSET_ENC_INT64
      else if v < INT16_MIN \<or> v > INT16_MAX then INTSET_ENC_INT32
      else INTSET_ENC_INT16)"

text \<open>An element access at a signed index into an array of \<open>w\<close>-byte integers.\<close>

definition arr_get :: "nat \<Rightarrow> bytes \<Rightarrow> int \<Rightarrow> int option" where
  "arr_get w m pos = (if pos < 0 then None else map_option le_sdec (mem_get m (nat pos * w) w))"

definition arr_set :: "nat \<Rightarrow> bytes \<Rightarrow> int \<Rightarrow> int \<Rightarrow> bytes option" where
  "arr_set w m pos v = (if pos < 0 then None else mem_put m (nat pos * w) (le_enc w v))"

definition u_intsetGetEncoded :: "intset \<Rightarrow> int \<Rightarrow> byte \<Rightarrow> int option" where
  "u_intsetGetEncoded s pos enc =
     (if ucast enc = INTSET_ENC_INT64 then arr_get 8 (is_contents s) pos
      else if ucast enc = INTSET_ENC_INT32 then arr_get 4 (is_contents s) pos
      else arr_get 2 (is_contents s) pos)"

definition u_intsetGet :: "intset \<Rightarrow> int \<Rightarrow> int option" where
  "u_intsetGet s pos = u_intsetGetEncoded s pos (ucast (is_encoding s))"

definition u_intsetSet :: "intset \<Rightarrow> int \<Rightarrow> int \<Rightarrow> intset option" where
  "u_intsetSet s pos value =
     (if is_encoding s = INTSET_ENC_INT64 then
        map_option (\<lambda>m. s\<lparr>is_contents := m\<rparr>) (arr_set 8 (is_contents s) pos value)
      else if is_encoding s = INTSET_ENC_INT32 then
        map_option (\<lambda>m. s\<lparr>is_contents := m\<rparr>) (arr_set 4 (is_contents s) pos value)
      else
        map_option (\<lambda>m. s\<lparr>is_contents := m\<rparr>) (arr_set 2 (is_contents s) pos value))"

definition intsetNew :: intset where
  "intsetNew = \<lparr>is_encoding = INTSET_ENC_INT16, is_length = 0, is_contents = []\<rparr>"

definition intsetResize :: "(nat \<Rightarrow> byte) \<Rightarrow> intset \<Rightarrow> u32 \<Rightarrow> intset option" where
  "intsetResize junk s len =
     (let sz = unat (ucast len * ucast (is_encoding s) :: u64)
      in if sz \<le> 2 ^ 64 - 1 - SIZEOF_INTSET
         then Some (s\<lparr>is_contents := mem_realloc junk (is_contents s) sz\<rparr>)
         else None)"

text \<open>
  The binary search loop; \<open>mid\<close> is computed in unsigned arithmetic. Whether it returns is
  part of what is proved about it.
\<close>

partial_function (option) intsetSearch_loop ::
  "intset \<Rightarrow> int \<Rightarrow> int \<Rightarrow> int \<Rightarrow> int \<Rightarrow> int \<Rightarrow> (int \<times> int \<times> int) option" where
  "intsetSearch_loop s value mn mx mid cur =
     (if mx \<ge> mn then do {
        let mid = sint (drop_bit 1 ((word_of_int mn :: u32) + word_of_int mx));
        cur \<leftarrow> u_intsetGet s mid;
        if value > cur then intsetSearch_loop s value (mid + 1) mx mid cur
        else if value < cur then intsetSearch_loop s value mn (mid - 1) mid cur
        else Some (mn, mid, cur)
      } else Some (mn, mid, cur))"

definition intsetSearch :: "intset \<Rightarrow> int \<Rightarrow> (bool \<times> u32) option" where
  "intsetSearch s value =
     (let mx = sint (is_length s - 1)
      in if is_length s = 0 then Some (False, 0)
         else do {
           lst \<leftarrow> u_intsetGet s mx;
           if value > lst then Some (False, is_length s)
           else do {
             fst0 \<leftarrow> u_intsetGet s 0;
             if value < fst0 then Some (False, 0)
             else do {
               (mn, mid, cur) \<leftarrow> intsetSearch_loop s value 0 mx (-1) (-1);
               if value = cur then Some (True, word_of_int mid)
               else Some (False, word_of_int mn)
             }
           }
         })"

text \<open>The loop \<open>while(length--)\<close> of the upgrade, from the last element down.\<close>

primrec intsetUpgrade_loop :: "byte \<Rightarrow> int \<Rightarrow> intset \<Rightarrow> nat \<Rightarrow> intset option" where
  "intsetUpgrade_loop curenc prepend s 0 = Some s"
| "intsetUpgrade_loop curenc prepend s (Suc l) = do {
     v \<leftarrow> u_intsetGetEncoded s (int l) curenc;
     s' \<leftarrow> u_intsetSet s (int l + prepend) v;
     intsetUpgrade_loop curenc prepend s' l
   }"

text \<open>
  \<open>int length\<close> is the header's length read as a signed integer; a negative one would
  count down to a signed overflow.
\<close>

definition intsetUpgradeAndAdd :: "(nat \<Rightarrow> byte) \<Rightarrow> intset \<Rightarrow> int \<Rightarrow> intset option" where
  "intsetUpgradeAndAdd junk s value =
     (let curenc = ucast (is_encoding s);
          newenc = u_intsetValueEncoding value;
          len = sint (is_length s);
          prepend = (if value < 0 then 1 else 0)
      in if len < 0 then None
         else do {
           s1 \<leftarrow> intsetResize junk (s\<lparr>is_encoding := newenc\<rparr>) (is_length s + 1);
           s2 \<leftarrow> intsetUpgrade_loop curenc prepend s1 (nat len);
           s3 \<leftarrow> (if prepend = 1 then u_intsetSet s2 0 value
                  else u_intsetSet s2 (sint (is_length s2)) value);
           Some (s3\<lparr>is_length := is_length s3 + 1\<rparr>)
         })"

text \<open>\<open>bytes\<close> is a \<open>uint32_t\<close>: the element count times the width wraps at 32 bits.\<close>

definition intsetMoveTail :: "intset \<Rightarrow> u32 \<Rightarrow> u32 \<Rightarrow> intset option" where
  "intsetMoveTail s from to =
     (let count = is_length s - from;
          w = (if is_encoding s = INTSET_ENC_INT64 then 8
               else if is_encoding s = INTSET_ENC_INT32 then 4 else (2 :: u32));
          src = unat from * unat w;
          dst = unat to * unat w;
          nbytes = count * w
      in map_option (\<lambda>m. s\<lparr>is_contents := m\<rparr>)
           (mem_move (is_contents s) dst src (unat nbytes)))"

definition intsetAdd :: "(nat \<Rightarrow> byte) \<Rightarrow> intset \<Rightarrow> int \<Rightarrow> (intset \<times> bool) option" where
  "intsetAdd junk s value =
     (let valenc = u_intsetValueEncoding value
      in if valenc > is_encoding s
         then do { s' \<leftarrow> intsetUpgradeAndAdd junk s value; Some (s', True) }
         else do {
           (found, pos) \<leftarrow> intsetSearch s value;
           if found then Some (s, False)
           else do {
             s1 \<leftarrow> intsetResize junk s (is_length s + 1);
             s2 \<leftarrow> (if pos < is_length s1 then intsetMoveTail s1 pos (pos + 1) else Some s1);
             s3 \<leftarrow> u_intsetSet s2 (sint pos) value;
             Some (s3\<lparr>is_length := is_length s3 + 1\<rparr>, True)
           }
         })"

definition intsetRemove :: "(nat \<Rightarrow> byte) \<Rightarrow> intset \<Rightarrow> int \<Rightarrow> (intset \<times> bool) option" where
  "intsetRemove junk s value =
     (let valenc = u_intsetValueEncoding value
      in if valenc \<le> is_encoding s
         then do {
           (found, pos) \<leftarrow> intsetSearch s value;
           if found then do {
             let len = is_length s;
             s1 \<leftarrow> (if pos < len - 1 then intsetMoveTail s (pos + 1) pos else Some s);
             s2 \<leftarrow> intsetResize junk s1 (len - 1);
             Some (s2\<lparr>is_length := len - 1\<rparr>, True)
           }
           else Some (s, False)
         }
         else Some (s, False))"

definition intsetFind :: "intset \<Rightarrow> int \<Rightarrow> bool option" where
  "intsetFind s value =
     (if u_intsetValueEncoding value \<le> is_encoding s
      then map_option fst (intsetSearch s value) else Some False)"

text \<open>\<open>r\<close> is the value \<open>rand()\<close> returns.\<close>

definition intsetRandom :: "nat \<Rightarrow> intset \<Rightarrow> int option" where
  "intsetRandom r s =
     (if is_length s = 0 then None
      else u_intsetGet s (sint (of_nat (r mod unat (is_length s)) :: u32)))"

definition intsetMax :: "intset \<Rightarrow> int option" where
  "intsetMax s = u_intsetGet s (sint (is_length s - 1))"

definition intsetMin :: "intset \<Rightarrow> int option" where
  "intsetMin s = u_intsetGet s 0"

text \<open>The outer option is the access, the inner one the return value 1 (with \<open>*value\<close>) or 0.\<close>

definition intsetGet :: "intset \<Rightarrow> u32 \<Rightarrow> int option option" where
  "intsetGet s pos =
     (if pos < is_length s then map_option Some (u_intsetGet s (sint pos)) else Some None)"

definition intsetLen :: "intset \<Rightarrow> u32" where
  "intsetLen s = is_length s"

definition intsetBlobLen :: "intset \<Rightarrow> nat" where
  "intsetBlobLen s = SIZEOF_INTSET + unat (is_length s) * unat (is_encoding s)"

text \<open>
  The integrity check reads a raw blob: the cast of the pointer gives the header words and the
  contents after them.
\<close>

definition intset_of_blob :: "bytes \<Rightarrow> intset option" where
  "intset_of_blob p = do {
     e \<leftarrow> mem_get p 0 4;
     l \<leftarrow> mem_get p 4 4;
     Some \<lparr>is_encoding = word_of_int (le_dec e), is_length = word_of_int (le_dec l),
           is_contents = drop SIZEOF_INTSET p\<rparr>
   }"

text \<open>The index of the loop is a \<open>uint32_t\<close>, read as an \<open>int\<close> by \<open>_intsetGet\<close>.\<close>

primrec intsetValidate_loop :: "intset \<Rightarrow> u32 \<Rightarrow> int \<Rightarrow> nat \<Rightarrow> bool option" where
  "intsetValidate_loop s i prev 0 = Some True"
| "intsetValidate_loop s i prev (Suc n) = do {
     cur \<leftarrow> u_intsetGet s (sint i);
     if cur \<le> prev then Some False else intsetValidate_loop s (i + 1) cur n
   }"

definition intsetValidateIntegrity :: "bytes \<Rightarrow> nat \<Rightarrow> bool \<Rightarrow> bool option" where
  "intsetValidateIntegrity p sz deep =
     (if sz < SIZEOF_INTSET then Some False
      else do {
        s \<leftarrow> intset_of_blob p;
        if is_encoding s \<noteq> INTSET_ENC_INT64 \<and> is_encoding s \<noteq> INTSET_ENC_INT32
           \<and> is_encoding s \<noteq> INTSET_ENC_INT16 then Some False
        else if SIZEOF_INTSET + unat (is_length s) * unat (is_encoding s) \<noteq> sz then Some False
        else if is_length s = 0 then Some False
        else if \<not> deep then Some True
        else do {
          prev \<leftarrow> u_intsetGet s 0;
          intsetValidate_loop s 1 prev (unat (is_length s) - 1)
        }
      })"


section \<open>The abstraction\<close>

text \<open>
  \<open>intset_rep s xs\<close>: the block of \<open>s\<close> is the array of \<open>xs\<close>, which
  is strictly sorted and fits the encoding. \<open>intset_list\<close> reads the array back, and
  \<open>intset_inv\<close> is the invariant of the structure.
\<close>

definition enc_ok :: "u32 \<Rightarrow> bool" where
  "enc_ok e \<longleftrightarrow> e = INTSET_ENC_INT16 \<or> e = INTSET_ENC_INT32 \<or> e = INTSET_ENC_INT64"

definition intset_rep :: "intset \<Rightarrow> int list \<Rightarrow> bool" where
  "intset_rep s xs \<longleftrightarrow>
     enc_ok (is_encoding s) \<and> unat (is_length s) = length xs \<and>
     is_contents s = concat (map (le_enc (unat (is_encoding s))) xs) \<and>
     (\<forall>x \<in> set xs. in_sbits (8 * unat (is_encoding s)) x) \<and> sorted_wrt (<) xs"

definition intset_list :: "intset \<Rightarrow> int list" where
  "intset_list s =
     map (\<lambda>i. le_sdec (take (unat (is_encoding s)) (drop (i * unat (is_encoding s)) (is_contents s))))
       [0..<unat (is_length s)]"

definition intset_inv :: "intset \<Rightarrow> bool" where
  "intset_inv s \<longleftrightarrow> intset_rep s (intset_list s)"

text \<open>One more element, at the largest width, keeps every byte count below 32 bits.\<close>

definition intset_room :: "intset \<Rightarrow> bool" where
  "intset_room s \<longleftrightarrow> unat (is_length s) + 1 < 2 ^ 29"

text \<open>The position \<open>intsetSearch\<close> reports: the number of smaller members.\<close>

definition rank :: "int list \<Rightarrow> int \<Rightarrow> nat" where
  "rank xs v = length (takeWhile (\<lambda>x. x < v) xs)"

section \<open>Positions in sorted lists\<close>

lemma rank_eqI:
  assumes "k \<le> length xs" "\<And>i. i < k \<Longrightarrow> xs ! i < v" "k < length xs \<Longrightarrow> v \<le> xs ! k"
  shows "rank xs v = k"
proof -
  have "take k xs = takeWhile (\<lambda>x. x < v) xs"
    using assms by (intro takeWhile_eq_take_P_nth [symmetric]) auto
  then show ?thesis using assms(1) by (metis rank_def length_take min.absorb2)
qed

lemma rank_le: "rank xs v \<le> length xs"
  by (simp add: rank_def length_takeWhile_le)

lemma rank_less_nth: "i < rank xs v \<Longrightarrow> xs ! i < v"
  unfolding rank_def by (metis nth_mem set_takeWhileD takeWhile_nth)

lemma rank_ge_nth:
  assumes "sorted_wrt (<) xs" "rank xs v \<le> i" "i < length xs"
  shows "v \<le> xs ! i"
proof -
  have "\<not> xs ! rank xs v < v"
    using assms nth_length_takeWhile[of "\<lambda>x. x < v" xs] by (simp add: rank_def)
  moreover have "xs ! rank xs v \<le> xs ! i"
    using assms sorted_wrt_less_nth[of xs i "rank xs v"] by force
  ultimately show ?thesis by linarith
qed

lemma rank_nth: "sorted_wrt (<) xs \<Longrightarrow> i < length xs \<Longrightarrow> rank xs (xs ! i) = i"
  by (rule rank_eqI) (auto simp: sorted_wrt_less_nth)

lemma take_rank: "take (rank xs v) xs = takeWhile (\<lambda>x. x < v) xs"
  by (simp add: rank_def takeWhile_eq_take [symmetric])

lemma drop_rank: "drop (rank xs v) xs = dropWhile (\<lambda>x. x < v) xs"
  by (simp add: rank_def dropWhile_eq_drop)

lemma mem_rank_iff:
  "sorted_wrt (<) xs \<Longrightarrow> v \<in> set xs \<longleftrightarrow> rank xs v < length xs \<and> xs ! rank xs v = v"
  by (metis in_set_conv_nth rank_nth)

lemma sorted_insert_at_rank:
  assumes "sorted_wrt (<) xs" "v \<notin> set xs"
  shows "sorted_wrt (<) (take (rank xs v) xs @ v # drop (rank xs v) xs)"
proof -
  let ?r = "rank xs v"
  have lo: "\<forall>x \<in> set (take ?r xs). x < v"
    unfolding take_rank by (auto dest: set_takeWhileD)
  have hi: "\<forall>y \<in> set (drop ?r xs). v < y"
  proof
    fix y assume "y \<in> set (drop ?r xs)"
    then obtain k where k: "k < length xs - ?r" "y = xs ! (?r + k)"
      by (auto simp: in_set_conv_nth)
    then have "v \<le> y" using rank_ge_nth[OF assms(1), of v "?r + k"] by simp
    moreover have "y \<in> set xs" using k by simp
    then have "v \<noteq> y" using assms(2) by blast
    ultimately show "v < y" by simp
  qed
  have "sorted_wrt (<) (take ?r xs @ drop ?r xs)" using assms(1) by simp
  then show ?thesis
    using lo hi by (auto simp: sorted_wrt_append simp del: append_take_drop_id)
qed

lemma sorted_remove_at:
  assumes "sorted_wrt (<) (xs :: int list)"
  shows "sorted_wrt (<) (take i xs @ drop (Suc i) xs)"
proof (cases "i < length xs")
  case True
  have "sorted_wrt (<) (take i xs @ xs ! i # drop (Suc i) xs)"
    using assms by (simp only: id_take_nth_drop [OF True, symmetric])
  then show ?thesis by (auto simp: sorted_wrt_append)
qed (use assms in simp)

lemma set_remove_at_rank:
  assumes "sorted_wrt (<) xs" "v \<in> set xs"
  shows "set (take (rank xs v) xs @ drop (Suc (rank xs v)) xs) = set xs - {v}"
proof -
  let ?r = "rank xs v"
  have r: "?r < length xs" "xs ! ?r = v" using assms mem_rank_iff by auto
  have d: "distinct xs" using assms(1) strict_sorted_iff by blast
  have eq: "take ?r xs @ v # drop (Suc ?r) xs = xs" using id_take_nth_drop[OF r(1)] r(2) by simp
  have "distinct (take ?r xs @ v # drop (Suc ?r) xs)" using d by (simp only: eq)
  moreover have "set xs = set (take ?r xs @ v # drop (Suc ?r) xs)" by (simp only: eq)
  ultimately show ?thesis by auto
qed


section \<open>Array accesses\<close>

lemma enc_ok_pos: "enc_ok e \<Longrightarrow> 0 < unat e \<and> unat e \<le> 8"
  by (auto simp: enc_ok_def)

lemma arr_get_concat:
  assumes "i < length xs" "0 < w" "in_sbits (8 * w) (xs ! i)"
    and "take (length xs * w) m = concat (map (le_enc w) xs)" "length xs * w \<le> length m"
  shows "arr_get w m (int i) = Some (xs ! i)"
proof -
  have le: "Suc i * w \<le> length xs * w" using assms(1) by (intro mult_le_mono1) simp
  have "take w (drop (i * w) m) = take w (drop (i * w) (take (length xs * w) m))"
    using le by (simp add: drop_take min_absorb1)
  also have "\<dots> = take w (concat (map (le_enc w) (drop i xs)))"
    using assms(1,4) by (simp add: drop_concat_map_const)
  also have "\<dots> = le_enc w (xs ! i)"
    using assms(1) by (simp add: Cons_nth_drop_Suc [symmetric])
  finally have "take w (drop (i * w) m) = le_enc w (xs ! i)" .
  moreover have "i * w + w \<le> length m" using le assms(5) by simp
  ultimately show ?thesis
    using assms(2,3) by (simp add: arr_get_def mem_get_Some le_sdec_enc)
qed

lemma arr_set_Some:
  "nat pos * w + w \<le> length m \<Longrightarrow> 0 \<le> pos \<Longrightarrow>
     arr_set w m pos v =
       Some (take (nat pos * w) m @ le_enc w v @ drop (nat pos * w + w) m)"
  by (simp add: arr_set_def mem_put_Some)

lemma sint_u32_nat: "n < 2 ^ 31 \<Longrightarrow> sint (of_nat n :: u32) = int n"
  by (subst sint_u32_small) (simp_all add: unsigned_of_nat take_bit_nat_eq_self)

lemma u_intsetGetEncoded_enc:
  "enc_ok e \<Longrightarrow> u_intsetGetEncoded s pos (ucast e) = arr_get (unat e) (is_contents s) pos"
  by (auto simp: u_intsetGetEncoded_def enc_ok_def)

lemma u_intsetSet_enc:
  "enc_ok (is_encoding s) \<Longrightarrow>
     u_intsetSet s pos v =
       map_option (\<lambda>m. s\<lparr>is_contents := m\<rparr>) (arr_set (unat (is_encoding s)) (is_contents s) pos v)"
  by (auto simp: u_intsetSet_def enc_ok_def)

lemma intset_rep_length:
  "intset_rep s xs \<Longrightarrow> length (is_contents s) = length xs * unat (is_encoding s)"
  by (simp add: intset_rep_def length_concat_map_const)

lemma u_intsetGet_rep:
  assumes "intset_rep s xs" "i < length xs"
  shows "u_intsetGet s (int i) = Some (xs ! i)"
proof -
  have "arr_get (unat (is_encoding s)) (is_contents s) (int i) = Some (xs ! i)"
    using assms enc_ok_pos[of "is_encoding s"] intset_rep_length[OF assms(1)]
    by (intro arr_get_concat) (auto simp: intset_rep_def length_concat_map_const)
  then show ?thesis
    using assms by (simp add: u_intsetGet_def u_intsetGetEncoded_enc intset_rep_def)
qed

lemma intset_list_rep: "intset_rep s xs \<Longrightarrow> intset_list s = xs"
proof (rule nth_equalityI)
  assume r: "intset_rep s xs"
  then show len: "length (intset_list s) = length xs"
    by (simp add: intset_list_def intset_rep_def)
  fix i assume i: "i < length (intset_list s)"
  let ?e = "unat (is_encoding s)"
  from i len have i': "i < length xs" by simp
  have "u_intsetGet s (int i) = Some (xs ! i)" using r i' by (rule u_intsetGet_rep)
  then have "arr_get ?e (is_contents s) (int i) = Some (xs ! i)"
    using r by (simp add: u_intsetGet_def u_intsetGetEncoded_enc intset_rep_def)
  then have "le_sdec (take ?e (drop (i * ?e) (is_contents s))) = xs ! i"
    by (auto simp: arr_get_def mem_get_def split: if_splits)
  then show "intset_list s ! i = xs ! i"
    using i by (simp add: intset_list_def)
qed

lemma intset_inv_iff: "intset_inv s \<longleftrightarrow> (\<exists>xs. intset_rep s xs)"
  using intset_list_rep by (auto simp: intset_inv_def)

lemma intset_rep_list: "intset_inv s \<Longrightarrow> intset_rep s (intset_list s)"
  by (simp add: intset_inv_def)

section \<open>Search\<close>

lemma mid_unsigned:
  assumes "0 \<le> mn" "mn \<le> mx" "mx < 2 ^ 31 - 1"
  shows "sint (drop_bit 1 ((word_of_int mn :: u32) + word_of_int mx)) = (mn + mx) div 2"
proof -
  have u: "uint (drop_bit 1 ((word_of_int mn :: u32) + word_of_int mx)) = (mn + mx) div 2"
    using assms
    by (simp only: wi_hom_add unsigned_drop_bit_eq uint_word_of_int)
      (simp add: drop_bit_eq_div take_bit_int_eq_self del: One_nat_def)
  have "(mn + mx) div 2 < 2 ^ 31" using assms by simp
  then show ?thesis
    using assms by (simp add: sint_uint u signed_take_bit_int_eq_self del: One_nat_def)
qed

lemma intsetSearch_loop_correct:
  assumes "intset_rep s xs" "length xs < 2 ^ 31 - 1"
    and "0 \<le> mn" "mn \<le> mx + 1" "mx < int (length xs)"
    and "\<And>i. int i < mn \<Longrightarrow> xs ! i < value"
    and "\<And>i. mx < int i \<Longrightarrow> i < length xs \<Longrightarrow> value < xs ! i"
    and "mx < mn \<Longrightarrow> cur \<noteq> value"
  shows "\<exists>mn' mid' cur'. intsetSearch_loop s value mn mx mid cur = Some (mn', mid', cur') \<and>
    (if cur' = value then 0 \<le> mid' \<and> mid' < int (length xs) \<and> xs ! nat mid' = value
     else value \<notin> set xs \<and> mn' = int (rank xs value))"
  using assms(3-8)
proof (induction "nat (mx - mn + 1)" arbitrary: mn mx mid cur rule: less_induct)
  case less
  have sorted: "sorted_wrt (<) xs" using assms(1) by (simp add: intset_rep_def)
  show ?case
  proof (cases "mn \<le> mx")
    case False
    with less.prems have mx: "mx = mn - 1" by simp
    have r: "rank xs value = nat mn"
      using less.prems mx by (intro rank_eqI) (auto simp: less_imp_le)
    have "value \<notin> set xs"
    proof
      assume "value \<in> set xs"
      then have "nat mn < length xs \<and> xs ! nat mn = value"
        using mem_rank_iff[OF sorted] r by simp
      then show False using less.prems(5)[of "nat mn"] mx less.prems(1) by simp
    qed
    then show ?thesis
      using False r less.prems(1,6) by (simp add: intsetSearch_loop.simps)
  next
    case True
    define m where "m = (mn + mx) div 2"
    have m: "mn \<le> m" "m \<le> mx" using True by (auto simp: m_def)
    have mid: "sint (drop_bit 1 ((word_of_int mn :: u32) + word_of_int mx)) = m"
      unfolding m_def by (rule mid_unsigned) (use less.prems True assms(2) in auto)
    have im: "nat m < length xs" "int (nat m) = m" using m less.prems by auto
    have get: "u_intsetGet s m = Some (xs ! nat m)"
      using u_intsetGet_rep[OF assms(1) im(1)] im(2) by simp
    have lt: "\<And>i. i < nat m \<Longrightarrow> xs ! i < xs ! nat m"
      using sorted im by (simp add: sorted_wrt_less_nth)
    have gt: "\<And>i. nat m < i \<Longrightarrow> i < length xs \<Longrightarrow> xs ! nat m < xs ! i"
      using sorted im by (simp add: sorted_wrt_less_nth)
    have step: "intsetSearch_loop s value mn mx mid cur =
      (if xs ! nat m < value then intsetSearch_loop s value (m + 1) mx m (xs ! nat m)
       else if value < xs ! nat m then intsetSearch_loop s value mn (m - 1) m (xs ! nat m)
       else Some (mn, m, xs ! nat m))"
      using True mid get
      by (subst intsetSearch_loop.simps) (simp add: Let_def del: One_nat_def)
    consider "xs ! nat m < value" | "value < xs ! nat m" | "value = xs ! nat m" by linarith
    then show ?thesis
    proof cases
      case 1
      have below: "xs ! i < value" if "int i < m + 1" for i
      proof (cases "i = nat m")
        case False
        with that have "i < nat m" by linarith
        then show ?thesis using lt[of i] 1 by linarith
      qed (use 1 in simp)
      have "\<exists>mn' mid' cur'. intsetSearch_loop s value (m + 1) mx m (xs ! nat m) = Some (mn', mid', cur') \<and>
        (if cur' = value then 0 \<le> mid' \<and> mid' < int (length xs) \<and> xs ! nat mid' = value
         else value \<notin> set xs \<and> mn' = int (rank xs value))"
      proof (rule less.hyps)
        show "\<And>i. int i < m + 1 \<Longrightarrow> xs ! i < value" by (rule below)
        show "\<And>i. mx < int i \<Longrightarrow> i < length xs \<Longrightarrow> value < xs ! i" by (rule less.prems(5))
        show "mx < m + 1 \<Longrightarrow> xs ! nat m \<noteq> value" using 1 by simp
      qed (use less.prems(1-3) m in linarith)+
      then show ?thesis unfolding step using 1 by (simp only: if_True)
    next
      case 2
      have above: "value < xs ! i" if "m - 1 < int i" "i < length xs" for i
      proof (cases "i = nat m")
        case False
        with that im(2) have "nat m < i" by linarith
        then show ?thesis using gt[of i] that 2 by linarith
      qed (use 2 in simp)
      have "\<exists>mn' mid' cur'. intsetSearch_loop s value mn (m - 1) m (xs ! nat m) = Some (mn', mid', cur') \<and>
        (if cur' = value then 0 \<le> mid' \<and> mid' < int (length xs) \<and> xs ! nat mid' = value
         else value \<notin> set xs \<and> mn' = int (rank xs value))"
      proof (rule less.hyps)
        show "\<And>i. int i < mn \<Longrightarrow> xs ! i < value" by (rule less.prems(4))
        show "\<And>i. m - 1 < int i \<Longrightarrow> i < length xs \<Longrightarrow> value < xs ! i" by (rule above)
        show "m - 1 < mn \<Longrightarrow> xs ! nat m \<noteq> value" using 2 by simp
      qed (use less.prems(1-3) m in linarith)+
      then show ?thesis
        using 2 by (simp only: step if_True if_False less_not_sym not_less_iff_gr_or_eq simp_thms)
    next
      case 3
      then show ?thesis unfolding step using im m less.prems(1,3) by simp
    qed
  qed
qed


lemma intsetSearch_rep:
  assumes rep: "intset_rep s xs" and len: "length xs < 2 ^ 31 - 1"
  shows "intsetSearch s v = Some (v \<in> set xs, of_nat (rank xs v))"
proof (cases "xs = []")
  case True
  then have "is_length s = 0" using rep by (simp add: intset_rep_def unat_eq_zero)
  then show ?thesis using True by (simp add: intsetSearch_def rank_def)
next
  case False
  let ?n = "length xs"
  have n: "unat (is_length s) = ?n" "is_length s \<noteq> 0"
    using rep False by (auto simp: intset_rep_def)
  have sorted: "sorted_wrt (<) xs" using rep by (simp add: intset_rep_def)
  have mx: "sint (is_length s - 1) = int (?n - 1)"
    using sint_u32_pred[of "is_length s"] n False len by (simp add: of_nat_diff Suc_leI)
  have last: "u_intsetGet s (int (?n - 1)) = Some (xs ! (?n - 1))"
    and first: "u_intsetGet s 0 = Some (xs ! 0)"
    using u_intsetGet_rep[OF rep, of "?n - 1"] u_intsetGet_rep[OF rep, of 0] False by auto
  consider (above) "xs ! (?n - 1) < v" | (below) "v < xs ! 0" "\<not> xs ! (?n - 1) < v"
    | (inside) "xs ! 0 \<le> v" "v \<le> xs ! (?n - 1)" by linarith
  then show ?thesis
  proof cases
    case above
    have le: "xs ! i < v" if "i < ?n" for i
      using that above sorted_wrt_less_nth[OF sorted, of "?n - 1" i] by fastforce
    then have "rank xs v = ?n" "v \<notin> set xs" by (auto intro!: rank_eqI simp: in_set_conv_nth)
    moreover have "is_length s = of_nat ?n" using n(1) by (rule u32_of_nat_eqI)
    ultimately show ?thesis
      using above n mx last by (simp add: intsetSearch_def)
  next
    case below
    have gt: "v < xs ! i" if "i < ?n" for i
      using that below sorted_wrt_less_nth[OF sorted, of i 0] by fastforce
    then have "rank xs v = 0" "v \<notin> set xs"
      using False by (auto intro!: rank_eqI simp: in_set_conv_nth less_imp_le)
    then show ?thesis using below n mx last first by (simp add: intsetSearch_def)
  next
    case inside
    have "\<exists>mn' mid' cur'. intsetSearch_loop s v 0 (int (?n - 1)) (-1) (-1) = Some (mn', mid', cur') \<and>
      (if cur' = v then 0 \<le> mid' \<and> mid' < int ?n \<and> xs ! nat mid' = v
       else v \<notin> set xs \<and> mn' = int (rank xs v))"
      by (rule intsetSearch_loop_correct[OF rep len]) (use False in auto)
    then obtain mn' mid' cur' where loop:
      "intsetSearch_loop s v 0 (int (?n - 1)) (-1) (-1) = Some (mn', mid', cur')"
      and res: "if cur' = v then 0 \<le> mid' \<and> mid' < int ?n \<and> xs ! nat mid' = v
        else v \<notin> set xs \<and> mn' = int (rank xs v)" by blast
    have run: "intsetSearch s v =
      (if v = cur' then Some (True, word_of_int mid') else Some (False, word_of_int mn'))"
      using inside n mx last first loop by (simp add: intsetSearch_def)
    show ?thesis
    proof (cases "cur' = v")
      case True
      with res have m: "nat mid' < ?n" "xs ! nat mid' = v" "0 \<le> mid'" by auto
      then have "rank xs v = nat mid'" "v \<in> set xs" using rank_nth[OF sorted m(1)] by auto
      then show ?thesis using run True m(3) by simp
    qed (use run res in simp)
  qed
qed

section \<open>Moving the tail, inserting and removing\<close>

lemma intsetMoveTail_Some:
  assumes "enc_ok (is_encoding s)" "from \<le> is_length s"
    and "(unat (is_length s) - unat from) * unat (is_encoding s) < 2 ^ 32"
    and "unat (is_length s) * unat (is_encoding s) \<le> length (is_contents s)"
    and "(unat to + (unat (is_length s) - unat from)) * unat (is_encoding s) \<le> length (is_contents s)"
  shows "intsetMoveTail s from to = Some (s\<lparr>is_contents :=
    take (unat to * unat (is_encoding s)) (is_contents s) @
    take ((unat (is_length s) - unat from) * unat (is_encoding s))
      (drop (unat from * unat (is_encoding s)) (is_contents s)) @
    drop ((unat to + (unat (is_length s) - unat from)) * unat (is_encoding s)) (is_contents s)\<rparr>)"
proof -
  let ?w = "unat (is_encoding s)"
  let ?k = "unat (is_length s) - unat from"
  have k: "unat (is_length s - from) = ?k" using assms(2) by (simp add: unat_sub)
  have w: "(if is_encoding s = INTSET_ENC_INT64 then 8
      else if is_encoding s = INTSET_ENC_INT32 then 4 else (2 :: u32)) = is_encoding s"
    using assms(1) by (auto simp: enc_ok_def)
  have bytes: "unat ((is_length s - from) * is_encoding s) = ?k * ?w"
    using assms(3) k by (simp add: unat_u32_mult)
  have le: "unat from \<le> unat (is_length s)" using assms(2) by (simp add: word_le_nat_alt)
  then have "unat from * ?w + ?k * ?w = unat (is_length s) * ?w"
    by (metis add_mult_distrib le_add_diff_inverse)
  then have "mem_move (is_contents s) (unat to * ?w) (unat from * ?w) (?k * ?w) =
      Some (take (unat to * ?w) (is_contents s) @
        take (?k * ?w) (drop (unat from * ?w) (is_contents s)) @
        drop (unat to * ?w + ?k * ?w) (is_contents s))"
    using assms(4,5) by (intro mem_move_Some) (simp_all add: add_mult_distrib)
  then show ?thesis
    unfolding intsetMoveTail_def Let_def w bytes by (simp add: add_mult_distrib)
qed


lemma enc_ok_bytes:
  assumes "enc_ok e"
  shows "unat (len :: u32) * unat e \<le> 34359738368"
proof -
  have "unat len \<le> 4294967296" using unat_u32_lt[of len] by simp
  then have "unat len * unat e \<le> 4294967296 * 8"
    using enc_ok_pos[OF assms] by (intro mult_le_mono) auto
  then show ?thesis by simp
qed

lemma enc_ok_size:
  assumes "enc_ok e"
  shows "unat (ucast (len :: u32) * ucast e :: u64) = unat len * unat e"
proof -
  have u: "unat (ucast (x :: u32) :: u64) = unat x" for x
    using unat_u32_lt[of x]
    by (simp add: unsigned_ucast_eq take_bit_nat_eq_self)
  have "unat (ucast len :: u64) * unat (ucast e :: u64) < 2 ^ LENGTH(64)"
    unfolding u using enc_ok_bytes[OF assms, of len] by simp
  then have "unat (ucast len * ucast e :: u64) = unat (ucast len :: u64) * unat (ucast e :: u64)"
    by (simp only: unat_mult_lem)
  then show ?thesis by (simp only: u)
qed

lemma intsetResize_Some:
  assumes "enc_ok (is_encoding s)"
  shows "intsetResize junk s len =
    Some (s\<lparr>is_contents := mem_realloc junk (is_contents s) (unat len * unat (is_encoding s))\<rparr>)"
proof -
  have "unat len * unat (is_encoding s) \<le> 2 ^ 64 - 1 - SIZEOF_INTSET"
    using enc_ok_bytes[OF assms, of len] by simp
  then show ?thesis by (simp only: intsetResize_def enc_ok_size[OF assms] Let_def if_True)
qed

lemma u_intsetSet_Some:
  assumes "enc_ok (is_encoding s)" "(i + 1) * unat (is_encoding s) \<le> length (is_contents s)"
  shows "u_intsetSet s (int i) v = Some (s\<lparr>is_contents :=
    take (i * unat (is_encoding s)) (is_contents s) @ le_enc (unat (is_encoding s)) v @
    drop ((i + 1) * unat (is_encoding s)) (is_contents s)\<rparr>)"
  using assms by (simp add: u_intsetSet_enc arr_set_Some add.commute)

lemma intset_rep_insert:
  assumes "intset_rep s xs" "v \<notin> set xs" "in_sbits (8 * unat (is_encoding s)) v"
    and "length xs + 1 < 2 ^ 32"
  shows "intset_rep (s\<lparr>is_length := is_length s + 1, is_contents :=
      concat (map (le_enc (unat (is_encoding s))) (take (rank xs v) xs @ v # drop (rank xs v) xs))\<rparr>)
    (take (rank xs v) xs @ v # drop (rank xs v) xs)"
proof -
  have "unat (is_length s + 1) = length xs + 1"
    using assms(1,4) by (simp add: intset_rep_def unat_u32_Suc)
  then show ?thesis
    using assms rank_le[of xs v] sorted_insert_at_rank[of xs v]
    by (auto simp: intset_rep_def dest: in_set_takeD in_set_dropD)
qed

lemma intsetAdd_room_bytes:
  assumes "unat e \<le> 8" "n + 1 < 2 ^ 29" "k \<le> n + 1"
  shows "k * unat (e :: u32) < 2 ^ 32"
proof -
  have "k * unat e \<le> (n + 1) * 8" using assms by (intro mult_le_mono) auto
  also have "\<dots> < 2 ^ 32" using assms by simp
  finally show ?thesis .
qed

text \<open>Opening a gap at \<open>r\<close> in an array that has one slot of slack, and filling it.\<close>

lemma insert_gap:
  fixes xs :: "int list"
  assumes "r \<le> length xs" "length j = w"
  defines "C \<equiv> \<lambda>ys. concat (map (le_enc w) ys)"
  defines "m \<equiv> C xs @ j"
  defines "m1 \<equiv> take ((r + 1) * w) m @ take ((length xs - r) * w) (drop (r * w) m) @
    drop ((r + 1 + (length xs - r)) * w) m"
  shows "take (r * w) m1 @ le_enc w v @ drop ((r + 1) * w) m1 = C (take r xs @ v # drop r xs)"
    and "take (length xs * w) m @ le_enc w v @ drop ((length xs + 1) * w) m = C (xs @ [v])"
    and "length m1 = (length xs + 1) * w"
proof -
  have lC: "length (C ys) = length ys * w" for ys
    by (simp add: C_def length_concat_map_const)
  have tk: "take (r * w) (C xs) = C (take r xs)" and dr: "drop (r * w) (C xs) = C (drop r xs)"
    using assms(1) by (simp_all add: C_def take_concat_map_const drop_concat_map_const)
  have rle: "r * w \<le> length xs * w" using assms(1) by (rule mult_le_mono1)
  have lm: "length m = (length xs + 1) * w" using assms(2) lC by (simp add: m_def)
  have r1le: "(r + 1) * w \<le> length m" unfolding lm using assms(1) by (intro mult_le_mono1) simp
  have ll: "(length xs - r) * w = length (C (drop r xs))" by (simp add: lC)
  have "drop (r * w) m = C (drop r xs) @ j"
    using rle by (simp add: m_def dr lC)
  then have mid: "take ((length xs - r) * w) (drop (r * w) m) = C (drop r xs)"
    by (simp only: ll append_eq_conv_conj [THEN iffD1]) simp
  have last: "drop ((r + 1 + (length xs - r)) * w) m = []"
    using assms(1) lm by simp
  have m1: "m1 = take ((r + 1) * w) m @ C (drop r xs)"
    by (simp only: m1_def mid last append_Nil2)
  have "take (r * w) m1 = take (r * w) m"
    using r1le by (simp add: m1 min_absorb1)
  also have "\<dots> = C (take r xs)" using rle by (simp add: m_def tk lC)
  finally have t: "take (r * w) m1 = C (take r xs)" .
  have d: "drop ((r + 1) * w) m1 = C (drop r xs)"
    using r1le by (simp add: m1)
  show "take (r * w) m1 @ le_enc w v @ drop ((r + 1) * w) m1 = C (take r xs @ v # drop r xs)"
    unfolding t d by (simp add: C_def)
  show "take (length xs * w) m @ le_enc w v @ drop ((length xs + 1) * w) m = C (xs @ [v])"
    using lm by (simp add: m_def lC) (simp add: C_def)
  show "length m1 = (length xs + 1) * w"
    using r1le lC assms(1) by (simp add: m1 min_absorb2 add_mult_distrib diff_mult_distrib)
qed


lemma value_enc_ok: "enc_ok (u_intsetValueEncoding v)"
  by (simp add: u_intsetValueEncoding_def enc_ok_def)

lemma value_enc_le_iff:
  assumes "enc_ok e" "in_sbits 64 v"
  shows "u_intsetValueEncoding v \<le> e \<longleftrightarrow> in_sbits (8 * unat e) v"
  using assms by (auto simp: enc_ok_def u_intsetValueEncoding_def in_sbits_def)

lemma intset_open_slot:
  assumes ok: "enc_ok (is_encoding s)" and len: "unat (is_length s) = length xs"
    and room: "length xs + 1 < 2 ^ 29" and r: "r \<le> length xs"
    and cont: "is_contents s = concat (map (le_enc (unat (is_encoding s))) xs) @ j"
    and lj: "length j = unat (is_encoding s)"
  shows "\<exists>m. (if (of_nat r :: u32) < is_length s
      then intsetMoveTail s (of_nat r) (of_nat r + 1) else Some s) = Some (s\<lparr>is_contents := m\<rparr>) \<and>
    length m = (length xs + 1) * unat (is_encoding s) \<and>
    take (r * unat (is_encoding s)) m @ le_enc (unat (is_encoding s)) v @
      drop ((r + 1) * unat (is_encoding s)) m =
    concat (map (le_enc (unat (is_encoding s))) (take r xs @ v # drop r xs))"
proof -
  let ?w = "unat (is_encoding s)" and ?n = "length xs"
  note gap = insert_gap(1,2)[of r xs j ?w v, OF r lj] insert_gap(3)[of r xs j ?w, OF r lj]
  have ur: "unat (of_nat r :: u32) = r" using r room by (intro unat_u32_of_nat) simp
  have lt: "(of_nat r :: u32) < is_length s \<longleftrightarrow> r < ?n"
    by (simp only: word_less_nat_alt ur len)
  have lm: "length (is_contents s) = (?n + 1) * ?w"
    by (simp add: cont lj length_concat_map_const)
  show ?thesis
  proof (cases "r < ?n")
    case True
    have u1: "unat (of_nat r + 1 :: u32) = r + 1"
      using ur True room by (simp add: unat_u32_Suc)
    have "intsetMoveTail s (of_nat r) (of_nat r + 1) = Some (s\<lparr>is_contents :=
      take (unat (of_nat r + 1 :: u32) * ?w) (is_contents s) @
      take ((unat (is_length s) - unat (of_nat r :: u32)) * ?w)
        (drop (unat (of_nat r :: u32) * ?w) (is_contents s)) @
      drop ((unat (of_nat r + 1 :: u32) + (unat (is_length s) - unat (of_nat r :: u32))) * ?w)
        (is_contents s)\<rparr>)"
    proof (rule intsetMoveTail_Some[OF ok])
      show "(of_nat r :: u32) \<le> is_length s" using r by (simp only: word_le_nat_alt ur len)
      show "(unat (is_length s) - unat (of_nat r :: u32)) * ?w < 2 ^ 32"
        unfolding ur len using enc_ok_pos[OF ok] room by (intro intsetAdd_room_bytes[of _ ?n]) auto
      show "unat (is_length s) * ?w \<le> length (is_contents s)" unfolding len lm by simp
      show "(unat (of_nat r + 1 :: u32) + (unat (is_length s) - unat (of_nat r :: u32))) * ?w
        \<le> length (is_contents s)" unfolding u1 ur len lm using True by (intro mult_le_mono1) simp
    qed
    then show ?thesis
      unfolding u1 ur len lt using True gap(1,3) unfolding cont [symmetric]
      by (intro exI conjI) (simp_all only: if_True)
  next
    case False
    then have "r = ?n" using r by simp
    then show ?thesis
      unfolding lt using gap(2) lm unfolding cont [symmetric]
      by (intro exI[of _ "is_contents s"]) simp
  qed
qed

lemma intsetAdd_insert:
  assumes rep: "intset_rep s xs" and room: "length xs + 1 < 2 ^ 29"
    and v: "in_sbits 64 v" "u_intsetValueEncoding v \<le> is_encoding s" "v \<notin> set xs"
  shows "\<exists>s'. intsetAdd junk s v = Some (s', True) \<and>
    intset_rep s' (take (rank xs v) xs @ v # drop (rank xs v) xs)"
proof -
  let ?w = "unat (is_encoding s)" and ?r = "rank xs v" and ?n = "length xs"
  let ?C = "\<lambda>ys. concat (map (le_enc ?w) ys)"
  have ok: "enc_ok (is_encoding s)" and len: "unat (is_length s) = ?n"
    and cont: "is_contents s = ?C xs"
    using rep by (auto simp: intset_rep_def)
  define j where "j = map junk [?n * ?w..<(?n + 1) * ?w]"
  define s1 where "s1 = s\<lparr>is_contents := ?C xs @ j\<rparr>"
  have lj: "length j = ?w" by (simp add: j_def)
  have rle: "?r \<le> ?n" by (rule rank_le)
  have n1: "unat (is_length s + 1) = ?n + 1" using len room by (simp add: unat_u32_Suc)
  have resize: "intsetResize junk s (is_length s + 1) = Some s1"
    using ok by (simp add: intsetResize_Some n1 cont mem_realloc_grow length_concat_map_const j_def s1_def)
  have search: "intsetSearch s v = Some (False, of_nat ?r)"
    using intsetSearch_rep[OF rep] room v(3) by simp
  have "\<exists>m. (if (of_nat ?r :: u32) < is_length s1
      then intsetMoveTail s1 (of_nat ?r) (of_nat ?r + 1) else Some s1) = Some (s1\<lparr>is_contents := m\<rparr>) \<and>
    length m = (?n + 1) * unat (is_encoding s1) \<and>
    take (?r * unat (is_encoding s1)) m @ le_enc (unat (is_encoding s1)) v @
      drop ((?r + 1) * unat (is_encoding s1)) m =
    concat (map (le_enc (unat (is_encoding s1))) (take ?r xs @ v # drop ?r xs))"
    by (rule intset_open_slot[where j = j]) (use ok len room rle lj in \<open>simp_all add: s1_def\<close>)
  then obtain m where slot: "(if (of_nat ?r :: u32) < is_length s1
      then intsetMoveTail s1 (of_nat ?r) (of_nat ?r + 1) else Some s1) = Some (s1\<lparr>is_contents := m\<rparr>)"
    and m: "length m = (?n + 1) * ?w"
      "take (?r * ?w) m @ le_enc ?w v @ drop ((?r + 1) * ?w) m = ?C (take ?r xs @ v # drop ?r xs)"
    by (auto simp: s1_def)
  have ur: "sint (of_nat ?r :: u32) = int ?r"
    using rle room by (intro sint_u32_nat) simp
  have "(?r + 1) * ?w \<le> length m" unfolding m using rle by (intro mult_le_mono1) simp
  then have set: "u_intsetSet (s1\<lparr>is_contents := m\<rparr>) (int ?r) v =
      Some (s1\<lparr>is_contents := ?C (take ?r xs @ v # drop ?r xs)\<rparr>)"
    using u_intsetSet_Some[of "s1\<lparr>is_contents := m\<rparr>" ?r v] ok m(2) by (simp add: s1_def)
  have "intsetAdd junk s v = Some (s\<lparr>is_length := is_length s + 1,
      is_contents := ?C (take ?r xs @ v # drop ?r xs)\<rparr>, True)"
    using leD[OF v(2)] search resize slot set ur by (simp add: intsetAdd_def) (simp add: s1_def)
  moreover have "in_sbits (8 * ?w) v" using v ok by (simp add: value_enc_le_iff)
  ultimately show ?thesis
    using intset_rep_insert[OF rep v(3)] room by simp
qed

text \<open>The copy of the upgrade, back to front: after it, element \<open>i\<close> stands at \<open>i + prepend\<close>.\<close>

lemma intsetUpgrade_loop_correct:
  fixes xs :: "int list"
  assumes cur: "enc_ok cur" and ok: "enc_ok (is_encoding s)" and lt: "unat cur < unat (is_encoding s)"
    and xs: "\<forall>x \<in> set xs. in_sbits (8 * unat cur) x" and k: "k \<le> length xs"
    and old: "take (k * unat cur) (is_contents s) = concat (map (le_enc (unat cur)) (take k xs))"
    and new: "(length xs + p) * unat (is_encoding s) \<le> length (is_contents s)"
  shows "intsetUpgrade_loop (ucast cur) (int p) s k = Some (s\<lparr>is_contents :=
    take (p * unat (is_encoding s)) (is_contents s) @
    concat (map (le_enc (unat (is_encoding s))) (take k xs)) @
    drop ((k + p) * unat (is_encoding s)) (is_contents s)\<rparr>)"
  using k old new ok lt
proof (induction k arbitrary: s)
  case 0
  then show ?case by simp
next
  case (Suc k)
  let ?c = "unat cur" and ?w = "unat (is_encoding s)" and ?m = "is_contents s"
  have "Suc k * ?c \<le> (length xs + p) * ?w"
    using Suc.prems by (intro mult_le_mono) auto
  then have fits: "Suc k * ?c \<le> length ?m" using Suc.prems(3) by linarith
  have "arr_get ?c ?m (int k) = Some (take (Suc k) xs ! k)"
    using Suc.prems xs enc_ok_pos[OF cur] fits by (intro arr_get_concat) (auto simp: min_absorb2)
  then have get: "u_intsetGetEncoded s (int k) (ucast cur) = Some (xs ! k)"
    using u_intsetGetEncoded_enc[OF cur] by simp
  have fitw: "(k + p + 1) * ?w \<le> length ?m"
    using Suc.prems by (intro order_trans [OF mult_le_mono1 Suc.prems(3)]) simp
  define m' where "m' = take ((k + p) * ?w) ?m @ le_enc ?w (xs ! k) @ drop ((k + p + 1) * ?w) ?m"
  have set: "u_intsetSet s (int k + int p) (xs ! k) = Some (s\<lparr>is_contents := m'\<rparr>)"
    using u_intsetSet_Some[of s "k + p" "xs ! k"] Suc.prems(4) fitw by (simp add: m'_def)
  have lm': "length m' = length ?m" using fitw by (simp add: m'_def add_mult_distrib)
  have kw: "(k + p) * ?w \<le> length ?m" using fitw by (simp add: add_mult_distrib)
  have "k * ?c \<le> (k + p) * ?w" using Suc.prems(5) by (intro mult_le_mono) auto
  then have "take (k * ?c) m' = take (k * ?c) ?m" using kw by (simp add: m'_def min_absorb1)
  also have "\<dots> = take (k * ?c) (take (Suc k * ?c) ?m)" by (simp add: min_absorb1)
  also have "\<dots> = concat (map (le_enc ?c) (take k xs))"
    using Suc.prems(1) by (simp only: Suc.prems(2)) (simp add: take_concat_map_const min_absorb1)
  finally have old': "take (k * ?c) m' = concat (map (le_enc ?c) (take k xs))" .
  have rec: "intsetUpgrade_loop (ucast cur) (int p) (s\<lparr>is_contents := m'\<rparr>) k = Some (s\<lparr>is_contents :=
    take (p * ?w) m' @ concat (map (le_enc ?w) (take k xs)) @ drop ((k + p) * ?w) m'\<rparr>)"
    using Suc.IH[of "s\<lparr>is_contents := m'\<rparr>"] Suc.prems old' lm' by simp
  have t: "take (p * ?w) m' = take (p * ?w) ?m"
    using kw by (simp add: m'_def min_absorb1 add_mult_distrib)
  have d: "drop ((k + p) * ?w) m' = le_enc ?w (xs ! k) @ drop ((Suc k + p) * ?w) ?m"
    using kw by (simp add: m'_def)
  have "take (Suc k) xs = take k xs @ [xs ! k]"
    using Suc.prems(1) by (simp add: take_Suc_conv_app_nth)
  then show ?case using get set rec t d by simp
qed

lemma intsetUpgrade_append:
  assumes rep: "intset_rep s xs" and v: "in_sbits 64 v" "is_encoding s < u_intsetValueEncoding v"
    and room: "length xs + 1 < 2 ^ 29"
  shows "\<exists>s'. intsetUpgradeAndAdd junk s v = Some s' \<and>
    intset_rep s' (if v < 0 then v # xs else xs @ [v])"
proof -
  let ?e = "u_intsetValueEncoding v"
  let ?w = "unat ?e" and ?c = "unat (is_encoding s)" and ?n = "length xs"
  let ?C = "\<lambda>ys. concat (map (le_enc ?w) ys)"
  define p :: nat where "p = (if v < 0 then 1 else 0)"
  have ok: "enc_ok (is_encoding s)" and len: "unat (is_length s) = ?n"
    and cont: "is_contents s = concat (map (le_enc ?c) xs)"
    and bits: "\<forall>x \<in> set xs. in_sbits (8 * ?c) x" and sorted: "sorted_wrt (<) xs"
    using rep by (auto simp: intset_rep_def)
  have ok': "enc_ok ?e" by (rule value_enc_ok)
  have lt: "?c < ?w" using v(2) by (simp add: word_less_nat_alt)
  have n1: "unat (is_length s + 1) = ?n + 1" using len room by (simp add: unat_u32_Suc)
  define m where "m = mem_realloc junk (is_contents s) ((?n + 1) * ?w)"
  define s1 where "s1 = s\<lparr>is_encoding := ?e, is_contents := m\<rparr>"
  have resize: "intsetResize junk (s\<lparr>is_encoding := ?e\<rparr>) (is_length s + 1) = Some s1"
    using ok' by (simp add: intsetResize_Some n1 m_def s1_def)
  have lm: "length m = (?n + 1) * ?w" by (simp add: m_def)
  have lc: "length (is_contents s) = ?n * ?c" by (simp add: cont length_concat_map_const)
  have "?n * ?c \<le> (?n + 1) * ?w" using lt by (intro mult_le_mono) auto
  then have "take (?n * ?c) m = is_contents s"
    by (simp add: m_def mem_realloc_def lc min_absorb1)
  then have old: "take (?n * ?c) m = concat (map (le_enc ?c) (take ?n xs))"
    by (simp add: cont)
  have loop: "intsetUpgrade_loop (ucast (is_encoding s)) (int p) s1 ?n = Some (s1\<lparr>is_contents :=
      take (p * ?w) m @ ?C xs @ drop ((?n + p) * ?w) m\<rparr>)"
    using intsetUpgrade_loop_correct[of "is_encoding s" s1 xs ?n p] ok ok' lt bits old lm
    by (simp add: s1_def p_def)
  have n31: "sint (is_length s) = int ?n"
  proof -
    have "uint (is_length s) = int ?n" using len by (metis of_nat_unat)
    then show ?thesis using room by (subst sint_u32_small) auto
  qed
  have ext: "in_sbits (8 * ?w) x" if "in_sbits (8 * ?c) x" for x
    using that lt ok ok' by (auto simp: enc_ok_def in_sbits_def)
  have vw: "in_sbits (8 * ?w) v" using v(1) ok' value_enc_le_iff[of ?e v] by simp
  have out: "\<not> in_sbits (8 * ?c) v" using value_enc_le_iff[OF ok v(1)] leD[of "u_intsetValueEncoding v" "is_encoding s"] v(2) by blast
  have ulen: "uint (is_length s) = int ?n" using len by (metis of_nat_unat)
  show ?thesis
  proof (cases "v < 0")
    case True
    then have p: "p = 1" by (simp add: p_def)
    have "?w \<le> length (take ?w m @ ?C xs @ drop ((?n + 1) * ?w) m)"
      using lm by simp
    then have set: "u_intsetSet (s1\<lparr>is_contents := take ?w m @ ?C xs @ drop ((?n + 1) * ?w) m\<rparr>) 0 v =
      Some (s1\<lparr>is_contents := ?C (v # xs)\<rparr>)"
      using u_intsetSet_Some[of "s1\<lparr>is_contents := take ?w m @ ?C xs @ drop ((?n + 1) * ?w) m\<rparr>" 0 v] ok' lm
      by (simp add: s1_def)
    have run: "intsetUpgradeAndAdd junk s v =
      Some (s1\<lparr>is_length := is_length s + 1, is_contents := ?C (v # xs)\<rparr>)"
      using True n31 resize loop set by (simp add: intsetUpgradeAndAdd_def p) (simp add: s1_def)
    have "\<forall>x \<in> set xs. v < x"
      using True out bits ok by (auto simp: in_sbits_def enc_ok_def)
    then show ?thesis
      using run True ok' n1 vw bits ext sorted by (simp add: intset_rep_def s1_def)
  next
    case False
    then have p: "p = 0" by (simp add: p_def)
    have lC: "length (?C xs) = ?n * ?w" by (simp add: length_concat_map_const)
    have set: "u_intsetSet (s1\<lparr>is_contents := ?C xs @ drop (?n * ?w) m\<rparr>) (int ?n) v =
      Some (s1\<lparr>is_contents := ?C (xs @ [v])\<rparr>)"
      using u_intsetSet_Some[of "s1\<lparr>is_contents := ?C xs @ drop (?n * ?w) m\<rparr>" ?n v] ok' lm lC
      by (simp add: s1_def)
    have run: "intsetUpgradeAndAdd junk s v =
      Some (s1\<lparr>is_length := is_length s + 1, is_contents := ?C (xs @ [v])\<rparr>)"
      using False n31 resize loop set by (simp add: intsetUpgradeAndAdd_def p s1_def)
    have "\<forall>x \<in> set xs. x < v"
      using False out bits ok by (auto simp: in_sbits_def enc_ok_def)
    then show ?thesis
      using run False ok' n1 vw bits ext sorted by (auto simp: intset_rep_def s1_def sorted_wrt_append)
  qed
qed

lemma intset_upgrade_notin:
  assumes "intset_rep s xs" "in_sbits 64 v" "is_encoding s < u_intsetValueEncoding v"
  shows "v \<notin> set xs"
  using assms value_enc_le_iff[of "is_encoding s" v] by (auto simp: intset_rep_def not_le)

lemma intsetAdd_correct:
  assumes rep: "intset_rep s xs" and room: "length xs + 1 < 2 ^ 29" and v: "in_sbits 64 v"
  shows "\<exists>s' ys. intsetAdd junk s v = Some (s', v \<notin> set xs) \<and> intset_rep s' ys \<and>
    set ys = insert v (set xs)"
proof (cases "is_encoding s < u_intsetValueEncoding v")
  case True
  then obtain s' where "intsetUpgradeAndAdd junk s v = Some s'"
    "intset_rep s' (if v < 0 then v # xs else xs @ [v])"
    using intsetUpgrade_append[OF rep v True room] by blast
  moreover have "set (if v < 0 then v # xs else xs @ [v]) = insert v (set xs)" by auto
  ultimately show ?thesis
    using True intset_upgrade_notin[OF rep v True] by (auto simp: intsetAdd_def simp del: set_append)
next
  case le: False
  show ?thesis
  proof (cases "v \<in> set xs")
    case True
    then show ?thesis
      using le intsetSearch_rep[OF rep, of v] room rep by (auto simp: intsetAdd_def)
  next
    case False
    then obtain s' where "intsetAdd junk s v = Some (s', v \<notin> set xs)"
      "intset_rep s' (take (rank xs v) xs @ v # drop (rank xs v) xs)"
      using intsetAdd_insert[OF rep room v _ False] le by (auto simp: not_less)
    moreover have "set (take (rank xs v) xs @ v # drop (rank xs v) xs) = insert v (set xs)"
      by (metis Un_insert_right append_take_drop_id list.simps(15) set_append)
    ultimately show ?thesis by blast
  qed
qed

lemma intsetFind_correct:
  assumes "intset_rep s xs" "length xs < 2 ^ 29" "in_sbits 64 v"
  shows "intsetFind s v = Some (v \<in> set xs)"
  using assms intset_upgrade_notin[OF assms(1,3)] intsetSearch_rep[OF assms(1), of v]
  by (auto simp: intsetFind_def not_le)

lemma intset_rep_remove:
  assumes rep: "intset_rep s xs" and i: "i < length xs"
  shows "intset_rep (s\<lparr>is_length := is_length s - 1, is_contents :=
      concat (map (le_enc (unat (is_encoding s))) (take i xs @ drop (Suc i) xs))\<rparr>)
    (take i xs @ drop (Suc i) xs)"
proof -
  have "is_length s \<noteq> 0" using rep i by (auto simp: intset_rep_def)
  then have "unat (is_length s - 1) = length xs - 1"
    using rep by (simp add: intset_rep_def unat_u32_pred)
  then show ?thesis
    using rep i sorted_remove_at[of xs i]
    by (auto simp: intset_rep_def dest: in_set_takeD in_set_dropD)
qed

lemma remove_gap:
  fixes xs :: "int list" and w :: nat
  assumes "r < length xs"
  defines "C \<equiv> \<lambda>ys. concat (map (le_enc w) ys)"
  defines "m \<equiv> take (r * w) (C xs) @ take ((length xs - (r + 1)) * w) (drop ((r + 1) * w) (C xs)) @
    drop ((r + (length xs - (r + 1))) * w) (C xs)"
  shows "take ((length xs - 1) * w) m = C (take r xs @ drop (Suc r) xs)"
    and "length m = length xs * w"
proof -
  have lC: "length (C ys) = length ys * w" for ys
    by (simp add: C_def length_concat_map_const)
  have t: "take (r * w) (C xs) = C (take r xs)" and d: "drop ((r + 1) * w) (C xs) = C (drop (Suc r) xs)"
    using assms(1) by (simp_all add: C_def take_concat_map_const drop_concat_map_const del: mult_Suc)
  have t2: "take ((length xs - (r + 1)) * w) (C (drop (Suc r) xs)) = C (drop (Suc r) xs)"
    by (simp add: lC)
  have l: "length (C (take r xs) @ C (drop (Suc r) xs)) = (length xs - 1) * w"
    using assms(1) by (simp add: lC add_mult_distrib [symmetric])
  have m: "m = (C (take r xs) @ C (drop (Suc r) xs)) @ drop ((length xs - 1) * w) (C xs)"
    using assms(1) unfolding m_def t d t2 by simp
  show "take ((length xs - 1) * w) m = C (take r xs @ drop (Suc r) xs)"
    unfolding m using l by (simp add: C_def)
  have "(length xs - 1) * w \<le> length xs * w" by simp
  then show "length m = length xs * w"
    unfolding m length_append [of _ "drop _ _"] l by (simp add: lC)
qed

lemma intset_close_slot:
  assumes rep: "intset_rep s xs" and room: "length xs < 2 ^ 29" and r: "r < length xs"
  shows "\<exists>m. (if (of_nat r :: u32) < is_length s - 1
      then intsetMoveTail s (of_nat r + 1) (of_nat r) else Some s) = Some (s\<lparr>is_contents := m\<rparr>) \<and>
    take ((length xs - 1) * unat (is_encoding s)) m =
      concat (map (le_enc (unat (is_encoding s))) (take r xs @ drop (Suc r) xs)) \<and>
    length m = length xs * unat (is_encoding s)"
proof -
  let ?w = "unat (is_encoding s)" and ?n = "length xs"
  have ok: "enc_ok (is_encoding s)" and len: "unat (is_length s) = ?n"
    and cont: "is_contents s = concat (map (le_enc ?w) xs)"
    using rep by (auto simp: intset_rep_def)
  have ur: "unat (of_nat r :: u32) = r" using r room by (intro unat_u32_of_nat) simp
  have "is_length s \<noteq> 0" using len r by auto
  then have n1: "unat (is_length s - 1) = ?n - 1" by (simp add: unat_u32_pred len)
  have lt: "(of_nat r :: u32) < is_length s - 1 \<longleftrightarrow> r < ?n - 1"
    by (simp only: word_less_nat_alt ur n1)
  have lc: "length (is_contents s) = ?n * ?w" by (rule intset_rep_length[OF rep])
  show ?thesis
  proof (cases "r < ?n - 1")
    case True
    have u1: "unat (of_nat r + 1 :: u32) = r + 1" using ur r room by (simp add: unat_u32_Suc)
    have "intsetMoveTail s (of_nat r + 1) (of_nat r) = Some (s\<lparr>is_contents :=
      take (unat (of_nat r :: u32) * ?w) (is_contents s) @
      take ((unat (is_length s) - unat (of_nat r + 1 :: u32)) * ?w)
        (drop (unat (of_nat r + 1 :: u32) * ?w) (is_contents s)) @
      drop ((unat (of_nat r :: u32) + (unat (is_length s) - unat (of_nat r + 1 :: u32))) * ?w)
        (is_contents s)\<rparr>)"
    proof (rule intsetMoveTail_Some[OF ok])
      show "(of_nat r + 1 :: u32) \<le> is_length s" using r by (simp only: word_le_nat_alt u1 len)
      show "(unat (is_length s) - unat (of_nat r + 1 :: u32)) * ?w < 2 ^ 32"
        unfolding u1 len using enc_ok_pos[OF ok] room r
        by (intro intsetAdd_room_bytes[of _ "?n - 1"]) auto
      show "unat (is_length s) * ?w \<le> length (is_contents s)" unfolding len lc by simp
      show "(unat (of_nat r :: u32) + (unat (is_length s) - unat (of_nat r + 1 :: u32))) * ?w
        \<le> length (is_contents s)" unfolding u1 ur len lc using r by (intro mult_le_mono1) simp
    qed
    then show ?thesis
      unfolding lt u1 ur len using True remove_gap[OF r, of ?w] unfolding cont [symmetric]
      by (intro exI conjI) (simp_all only: if_True)
  next
    case False
    then have eq: "r = ?n - 1" using r by simp
    have "take ((?n - 1) * ?w) (is_contents s) = concat (map (le_enc ?w) (take (?n - 1) xs))"
      by (simp add: take_concat_map_const cont)
    then show ?thesis
      unfolding lt using False r lc eq by (intro exI[of _ "is_contents s"]) simp
  qed
qed

lemma intsetRemove_found:
  assumes rep: "intset_rep s xs" and room: "length xs < 2 ^ 29" and v: "in_sbits 64 v" "v \<in> set xs"
  shows "\<exists>s'. intsetRemove junk s v = Some (s', True) \<and>
    intset_rep s' (take (rank xs v) xs @ drop (Suc (rank xs v)) xs)"
proof -
  let ?w = "unat (is_encoding s)" and ?r = "rank xs v" and ?n = "length xs"
  let ?C = "\<lambda>ys. concat (map (le_enc ?w) ys)"
  have ok: "enc_ok (is_encoding s)" and len: "unat (is_length s) = ?n" and bits: "in_sbits (8 * ?w) v"
    and r: "?r < ?n"
    using rep v(2) mem_rank_iff[of xs v] by (auto simp: intset_rep_def)
  have ve: "u_intsetValueEncoding v \<le> is_encoding s" using value_enc_le_iff[OF ok v(1)] bits by simp
  have search: "intsetSearch s v = Some (True, of_nat ?r)"
    using intsetSearch_rep[OF rep] room v(2) by simp
  have "is_length s \<noteq> 0" using len r by auto
  then have n1: "unat (is_length s - 1) = ?n - 1" by (simp add: unat_u32_pred len)
  obtain m where mv: "(if (of_nat ?r :: u32) < is_length s - 1
      then intsetMoveTail s (of_nat ?r + 1) (of_nat ?r) else Some s) = Some (s\<lparr>is_contents := m\<rparr>)"
    and m: "take ((?n - 1) * ?w) m = ?C (take ?r xs @ drop (Suc ?r) xs)" "length m = ?n * ?w"
    using intset_close_slot[OF rep room r] by blast
  have "intsetResize junk (s\<lparr>is_contents := m\<rparr>) (is_length s - 1) =
    Some (s\<lparr>is_contents := ?C (take ?r xs @ drop (Suc ?r) xs)\<rparr>)"
    using ok m r by (simp add: intsetResize_Some n1 mem_realloc_shrink)
  then have "intsetRemove junk s v = Some (s\<lparr>is_length := is_length s - 1,
      is_contents := ?C (take ?r xs @ drop (Suc ?r) xs)\<rparr>, True)"
    using ve search mv by (simp add: intsetRemove_def)
  then show ?thesis using intset_rep_remove[OF rep r] by simp
qed

lemma intsetRemove_correct:
  assumes rep: "intset_rep s xs" and room: "length xs < 2 ^ 29" and v: "in_sbits 64 v"
  shows "\<exists>s' ys. intsetRemove junk s v = Some (s', v \<in> set xs) \<and> intset_rep s' ys \<and>
    set ys = set xs - {v}"
proof (cases "v \<in> set xs")
  case True
  have "sorted_wrt (<) xs" using rep by (simp add: intset_rep_def)
  note * = set_remove_at_rank[OF this True]
  from intsetRemove_found[OF rep room v True] obtain s' where
    "intsetRemove junk s v = Some (s', v \<in> set xs)"
    "intset_rep s' (take (rank xs v) xs @ drop (Suc (rank xs v)) xs)" using True by auto
  then show ?thesis using * by blast
next
  case False
  have "intsetRemove junk s v = Some (s, False)"
    using False intsetSearch_rep[OF rep, of v] room by (auto simp: intsetRemove_def)
  then show ?thesis using rep False by auto
qed

section \<open>Validation\<close>

lemma intsetValidate_loop_rep:
  assumes get: "\<And>i. i < length xs \<Longrightarrow> u_intsetGet s (int i) = Some (xs ! i)"
    and n: "Suc i + n = length xs" and small: "length xs \<le> 2 ^ 31"
  shows "intsetValidate_loop s (of_nat (Suc i)) (xs ! i) n = Some (sorted_wrt (<) (drop i xs))"
  using n
proof (induction n arbitrary: i)
  case 0
  then have "drop i xs = [xs ! i]" by (simp add: Cons_nth_drop_Suc [symmetric])
  then show ?case by simp
next
  case (Suc n)
  have si: "Suc i < length xs" and i: "i < length xs" using Suc.prems by auto
  have split: "drop i xs = xs ! i # drop (Suc i) xs" using i by (simp add: Cons_nth_drop_Suc)
  have hd: "drop (Suc i) xs = xs ! Suc i # drop (Suc (Suc i)) xs" using si by (simp add: Cons_nth_drop_Suc)
  have so: "sorted_wrt (<) (drop i xs) \<longleftrightarrow> xs ! i < xs ! Suc i \<and> sorted_wrt (<) (drop (Suc i) xs)"
    unfolding split unfolding hd by auto
  have "sint (of_nat (Suc i) :: u32) = int (Suc i)" using si small by (intro sint_u32_nat) simp
  moreover have "(of_nat (Suc i) :: u32) + 1 = of_nat (Suc (Suc i))" by simp
  ultimately show ?case
    using get[OF si] Suc.IH[of "Suc i"] Suc.prems so by (simp del: of_nat_Suc)
qed

text \<open>Beyond \<open>2^31\<close> members the index becomes negative.\<close>

lemma intsetValidate_loop_before:
  assumes get: "\<And>i. i < length xs \<Longrightarrow> u_intsetGet s (int i) = Some (xs ! i)"
    and so: "sorted_wrt (<) xs" and big: "2 ^ 31 < length xs"
    and d: "Suc i + d = 2 ^ 31" "Suc i + n = length xs"
  shows "intsetValidate_loop s (of_nat (Suc i)) (xs ! i) n = None"
  using d
proof (induction d arbitrary: i n)
  case 0
  obtain n' where n': "n = Suc n'" using 0 big by (cases n) auto
  have "(of_nat (Suc i) :: u32) = of_nat (2 ^ 31)" using 0(1) by simp
  then have "sint (of_nat (Suc i) :: u32) < 0" by simp
  then have "u_intsetGet s (sint (of_nat (Suc i) :: u32)) = None"
    by (simp add: u_intsetGet_def u_intsetGetEncoded_def arr_get_def)
  then show ?case by (simp add: n' del: of_nat_Suc)
next
  case (Suc d)
  obtain n' where n': "n = Suc n'" using Suc.prems big by (cases n) auto
  have si: "Suc i < length xs" using Suc.prems n' by simp
  have "sint (of_nat (Suc i) :: u32) = int (Suc i)" using Suc.prems by (intro sint_u32_nat) simp
  moreover have "(of_nat (Suc i) :: u32) + 1 = of_nat (Suc (Suc i))" by simp
  moreover have "xs ! i < xs ! Suc i" using so si by (simp add: sorted_wrt_iff_nth_less)
  ultimately show ?case
    using get[OF si] Suc.IH[of "Suc i" n'] Suc.prems n' by (simp del: of_nat_Suc)
qed

lemma le_enc_sdec: "length bs = n \<Longrightarrow> le_enc n (le_sdec bs) = bs"
  using le_enc_dec[of bs n] le_enc_mod[of n "le_dec bs - 256 ^ n"] le_enc_mod[of n "le_dec bs"]
  by (auto simp: le_sdec_def Let_def)

lemma concat_chunks:
  "length m = n * w \<Longrightarrow> concat (map (\<lambda>i. take w (drop (i * w) m)) [0..<n]) = m"
proof (induction n arbitrary: m)
  case 0
  then show ?case by simp
next
  case (Suc n)
  have "concat (map (\<lambda>i. take w (drop (i * w) m)) [0..<n]) =
      concat (map (\<lambda>i. take w (drop (i * w) (take (n * w) m))) [0..<n])"
  proof (rule arg_cong[where f = concat], rule map_cong)
    fix i assume "i \<in> set [0..<n]"
    then have "(i + 1) * w \<le> n * w" by (intro mult_le_mono1) simp
    then show "take w (drop (i * w) m) = take w (drop (i * w) (take (n * w) m))"
      by (simp add: drop_take min_absorb1)
  qed simp
  also have "\<dots> = take (n * w) m" using Suc.prems by (intro Suc.IH) simp
  finally show ?case using Suc.prems by simp
qed

lemma intset_list_blob:
  assumes ok: "enc_ok (is_encoding s)"
    and len: "length (is_contents s) = unat (is_length s) * unat (is_encoding s)"
  shows "\<And>i. i < unat (is_length s) \<Longrightarrow> u_intsetGet s (int i) = Some (intset_list s ! i)"
    and "intset_rep s (intset_list s) \<longleftrightarrow> sorted_wrt (<) (intset_list s)"
proof -
  let ?w = "unat (is_encoding s)" and ?m = "is_contents s" and ?n = "unat (is_length s)"
  have w: "0 < ?w" using enc_ok_pos[OF ok] by simp
  have fit: "i * ?w + ?w \<le> length ?m" if "i < ?n" for i
  proof -
    have "(i + 1) * ?w \<le> ?n * ?w" using that by (intro mult_le_mono1) simp
    then show ?thesis using len by simp
  qed
  show "u_intsetGet s (int i) = Some (intset_list s ! i)" if "i < ?n" for i
    using that fit[OF that] ok
    by (simp add: u_intsetGet_def u_intsetGetEncoded_enc arr_get_def mem_get_Some intset_list_def)
  have l: "length (take ?w (drop (i * ?w) ?m)) = ?w" if "i < ?n" for i
    using fit[OF that] by simp
  have "le_enc ?w (le_sdec (take ?w (drop (i * ?w) ?m))) = take ?w (drop (i * ?w) ?m)"
    if "i < ?n" for i using l[OF that] by (rule le_enc_sdec)
  then have "map (le_enc ?w) (intset_list s) = map (\<lambda>i. take ?w (drop (i * ?w) ?m)) [0..<?n]"
    by (simp add: intset_list_def)
  then have c: "?m = concat (map (le_enc ?w) (intset_list s))"
    using concat_chunks[OF len] by simp
  have "in_sbits (8 * ?w) x" if "x \<in> set (intset_list s)" for x
  proof -
    from that obtain i where i: "i < ?n" "x = le_sdec (take ?w (drop (i * ?w) ?m))"
      by (auto simp: intset_list_def)
    have "take ?w (drop (i * ?w) ?m) \<noteq> []" using l[OF i(1)] w by (metis length_greater_0_conv)
    then show ?thesis using le_sdec_range l[OF i(1)] i(2) by metis
  qed
  moreover have "unat (is_length s) = length (intset_list s)" by (simp add: intset_list_def)
  ultimately show "intset_rep s (intset_list s) \<longleftrightarrow> sorted_wrt (<) (intset_list s)"
    unfolding intset_rep_def using ok c by blast
qed

section \<open>Properties\<close>

lemma rank_filter: "sorted_wrt (<) xs \<Longrightarrow> rank xs v = length (filter (\<lambda>x. x < v) xs)"
  by (induction xs) (force simp: rank_def filter_empty_conv)+

text \<open>A set with three members, for the witnesses.\<close>

definition intset_ex :: intset where
  "intset_ex = \<lparr>is_encoding = 2, is_length = 3, is_contents = [251, 255, 3, 0, 44, 1]\<rparr>"

lemma intset_ex_rep: "intset_rep intset_ex [-5, 3, 300]"
  by (simp add: intset_rep_def intset_ex_def enc_ok_def in_sbits_def le_enc_numeral)

lemma intset_ex_facts: "intset_list intset_ex = [-5, 3, 300]" "intset_inv intset_ex" "intset_room intset_ex"
  using intset_ex_rep intset_list_rep[OF intset_ex_rep]
  by (auto simp: intset_inv_iff intset_room_def intset_ex_def)

text \<open>
  (C11) On a well-formed intset the binary search stays inside the block, terminates, answers
  whether the value is a member, and reports as position the number of smaller members, which is
  where the value stands or has to be inserted.
\<close>

theorem intset_search_correct:
  assumes "intset_inv s" "intset_room s"
  shows "intsetSearch s v =
    Some (v \<in> set (intset_list s), of_nat (length (filter (\<lambda>x. x < v) (intset_list s))))"
proof -
  have rep: "intset_rep s (intset_list s)" using assms(1) by (rule intset_rep_list)
  then have "length (intset_list s) < 2 ^ 31 - 1"
    using assms(2) by (simp add: intset_rep_def intset_room_def)
  then show ?thesis
    using intsetSearch_rep[OF rep, of v] rank_filter[of "intset_list s" v] rep
    by (simp add: intset_rep_def)
qed

theorem intset_search_correct_witness:
  "intsetSearch intset_ex 3 = Some (True, 1) \<and> intsetSearch intset_ex 4 = Some (False, 2)"
  using intset_search_correct[OF intset_ex_facts(2,3), of 3]
    intset_search_correct[OF intset_ex_facts(2,3), of 4]
  by (simp add: intset_ex_facts(1))

text \<open>
  (C10) Insertion, with or without a change of encoding and whatever the fresh memory holds,
  returns a well-formed intset whose members are the old ones and the value, and reports whether
  the value was new.
\<close>

theorem intset_add_refines_insert:
  assumes "intset_inv s" "intset_room s" "in_sbits 64 v"
  shows "\<exists>s'. intsetAdd junk s v = Some (s', v \<notin> set (intset_list s)) \<and> intset_inv s' \<and>
    set (intset_list s') = insert v (set (intset_list s))"
proof -
  have rep: "intset_rep s (intset_list s)" using assms(1) by (rule intset_rep_list)
  then have "length (intset_list s) + 1 < 2 ^ 29"
    using assms(2) by (simp add: intset_rep_def intset_room_def)
  from intsetAdd_correct[OF rep this assms(3), of junk] obtain s' ys where
    "intsetAdd junk s v = Some (s', v \<notin> set (intset_list s))" and r: "intset_rep s' ys"
    and "set ys = insert v (set (intset_list s))" by blast
  then show ?thesis using intset_list_rep[OF r] by (auto simp: intset_inv_iff)
qed

theorem intset_add_refines_insert_witness:
  "\<exists>s'. intsetAdd (\<lambda>_. 170) intset_ex 70000 = Some (s', True) \<and> intset_inv s' \<and>
    set (intset_list s') = {70000, -5, 3, 300}"
  using intset_add_refines_insert[OF intset_ex_facts(2,3), of 70000 "\<lambda>_. 170"]
  by (simp add: intset_ex_facts(1) in_sbits_def)

text \<open>
  (C12) Removal returns a well-formed intset without the value and reports whether it was there;
  afterwards \<open>intsetFind\<close> agrees with membership for every 64 bit value.
\<close>

theorem intset_remove_refines_delete:
  assumes "intset_inv s" "intset_room s" "in_sbits 64 v" "in_sbits 64 x"
  shows "\<exists>s'. intsetRemove junk s v = Some (s', v \<in> set (intset_list s)) \<and> intset_inv s' \<and>
    set (intset_list s') = set (intset_list s) - {v} \<and>
    intsetFind s' x = Some (x \<in> set (intset_list s) \<and> x \<noteq> v)"
proof -
  have rep: "intset_rep s (intset_list s)" using assms(1) by (rule intset_rep_list)
  then have len: "length (intset_list s) < 2 ^ 29"
    using assms(2) by (simp add: intset_rep_def intset_room_def)
  from intsetRemove_correct[OF rep len assms(3), of junk] obtain s' ys where
    rm: "intsetRemove junk s v = Some (s', v \<in> set (intset_list s))" and r: "intset_rep s' ys"
    and ys: "set ys = set (intset_list s) - {v}" by blast
  have "distinct ys" "distinct (intset_list s)"
    using r rep strict_sorted_iff by (auto simp: intset_rep_def)
  then have "length ys \<le> length (intset_list s)"
    using ys by (metis card_Diff1_le distinct_card)
  then have "intsetFind s' x = Some (x \<in> set ys)"
    using intsetFind_correct[OF r _ assms(4)] len by simp
  then show ?thesis using rm r ys intset_list_rep[OF r] by (auto simp: intset_inv_iff)
qed

theorem intset_remove_refines_delete_witness:
  "\<exists>s'. intsetRemove (\<lambda>_. 0) intset_ex 3 = Some (s', True) \<and> intset_inv s' \<and>
    set (intset_list s') = {-5, 300} \<and> intsetFind s' 3 = Some False"
  using intset_remove_refines_delete[OF intset_ex_facts(2,3), of 3 3 "\<lambda>_. 0"]
  by (auto simp: intset_ex_facts(1) in_sbits_def)

lemma validate_head:
  assumes "\<not> length p < SIZEOF_INTSET" "intset_of_blob p = Some s"
  shows "intsetValidateIntegrity p (length p) True =
    (if \<not> enc_ok (is_encoding s) \<or> SIZEOF_INTSET + unat (is_length s) * unat (is_encoding s) \<noteq> length p \<or>
        is_length s = 0 then Some False
     else do { prev \<leftarrow> u_intsetGet s 0; intsetValidate_loop s 1 prev (unat (is_length s) - 1) })"
  using assms by (auto simp: intsetValidateIntegrity_def enc_ok_def)

lemma intset_blob_size:
  assumes "\<not> length p < SIZEOF_INTSET" "intset_of_blob p = Some s" "intset_inv s"
  shows "SIZEOF_INTSET + unat (is_length s) * unat (is_encoding s) = length p"
proof -
  have "length (is_contents s) = unat (is_length s) * unat (is_encoding s)"
    using intset_rep_length[OF intset_rep_list[OF assms(3)]] by (simp add: intset_list_def)
  moreover have "is_contents s = drop SIZEOF_INTSET p"
    using assms(2) by (auto simp: intset_of_blob_def elim!: bind_SomeE)
  ultimately show ?thesis using assms(1) by simp
qed

text \<open>
  (C13) The deep integrity check of a raw blob of less than 4 GB never reads outside it, and accepts
  exactly the blobs that hold a well-formed, non-empty intset.
\<close>

theorem intset_validate_deep_iff:
  assumes "length p < 2 ^ 32"
  shows "intsetValidateIntegrity p (length p) True =
     Some (case intset_of_blob p of None \<Rightarrow> False | Some s \<Rightarrow> is_length s \<noteq> 0 \<and> intset_inv s)"
proof (cases "length p < SIZEOF_INTSET")
  case True
  then show ?thesis
    by (auto simp: intsetValidateIntegrity_def intset_of_blob_def mem_get_def)
next
  case F: False
  then obtain s where s: "intset_of_blob p = Some s" and c: "is_contents s = drop SIZEOF_INTSET p"
    by (auto simp: intset_of_blob_def mem_get_Some)
  let ?n = "unat (is_length s)"
  note head = validate_head[OF F s]
  show ?thesis
  proof (cases "enc_ok (is_encoding s) \<and> SIZEOF_INTSET + ?n * unat (is_encoding s) = length p \<and> is_length s \<noteq> 0")
    case True
    then have len: "length (is_contents s) = ?n * unat (is_encoding s)"
      by (metis c add_diff_cancel_left' length_drop)
    note get = intset_list_blob(1)[OF _ len] and rep = intset_list_blob(2)[OF _ len]
    have n: "length (intset_list s) = ?n" by (simp add: intset_list_def)
    have pos: "0 < ?n" using True by (simp add: unat_gt_0)
    have "?n * 2 \<le> ?n * unat (is_encoding s)" using True by (intro mult_le_mono2) (auto simp: enc_ok_def)
    moreover have "?n * unat (is_encoding s) < 2 ^ 32" using True assms by linarith
    ultimately have "?n * 2 < 2 ^ 32" by (rule le_less_trans)
    then have small: "?n \<le> 2 ^ 31" by simp
    have "intsetValidate_loop s (of_nat (Suc 0)) (intset_list s ! 0) (?n - 1) =
      Some (sorted_wrt (<) (drop 0 (intset_list s)))"
      using get True n pos small by (intro intsetValidate_loop_rep) auto
    then show ?thesis
      using head True get[of 0] pos s rep by (simp add: intset_inv_def)
  next
    case False
    then have "\<not> (is_length s \<noteq> 0 \<and> intset_inv s)"
      using intset_blob_size[OF F s] by (auto simp: intset_inv_def intset_rep_def)
    then show ?thesis using head False s by auto
  qed
qed

theorem intset_validate_deep_iff_witness:
  "intsetValidateIntegrity [2, 0, 0, 0, 3, 0, 0, 0, 251, 255, 3, 0, 44, 1] 14 True = Some True"
proof -
  define p :: bytes where "p = [2, 0, 0, 0, 3, 0, 0, 0, 251, 255, 3, 0, 44, 1]"
  have len: "length p = 14" by (simp add: p_def)
  have "intset_of_blob p = Some intset_ex"
    by (simp add: intset_of_blob_def mem_get_def intset_ex_def p_def)
  moreover have "is_length intset_ex \<noteq> 0" by (simp add: intset_ex_def)
  ultimately show ?thesis
    using intset_validate_deep_iff[of p] intset_ex_facts(2) unfolding len p_def[symmetric] by simp
qed

text \<open>
  (C14) Above that size it does not stay inside: for a well-formed intset of more than \<open>2^31\<close> members
  the loop index, a \<open>uint32_t\<close> passed as an \<open>int\<close>, becomes negative, and the check reads
  before the contents.
\<close>

theorem intset_validate_reads_before:
  assumes blob: "intset_of_blob p = Some s" and inv: "intset_inv s" and big: "2 ^ 31 < unat (is_length s)"
  shows "intsetValidateIntegrity p (length p) True = None"
proof -
  have F: "\<not> length p < SIZEOF_INTSET" using blob by (auto simp: intset_of_blob_def mem_get_def elim!: bind_SomeE split: if_splits)
  have rep: "intset_rep s (intset_list s)" using inv by (rule intset_rep_list)
  let ?xs = "intset_list s"
  have n: "length ?xs = unat (is_length s)" by (simp add: intset_list_def)
  have get: "u_intsetGet s (int i) = Some (?xs ! i)" if "i < length ?xs" for i
    using rep that by (rule u_intsetGet_rep)
  have "intsetValidate_loop s (of_nat (Suc 0)) (?xs ! 0) (unat (is_length s) - 1) = None"
    by (rule intsetValidate_loop_before[of ?xs s 0 "2 ^ 31 - 1"]) (use get rep big n in \<open>auto simp: intset_rep_def\<close>)
  moreover have "u_intsetGet s 0 = Some (?xs ! 0)" using get[of 0] big n by simp
  moreover have "is_length s \<noteq> 0" using big by auto
  ultimately show ?thesis
    using validate_head[OF F blob] intset_blob_size[OF F blob inv] rep by (simp add: intset_rep_def)
qed

text \<open>
  (C15) Where the 32 bit byte count wraps: in a well-formed set of \<open>2^29\<close> members of 64 bits
  (which \<open>intsetMaxEntries\<close> of \<open>t_set.c\<close> allows, its limit being \<open>2^30\<close>),
  inserting a new smallest value moves no byte, and the old smallest member is overwritten.
\<close>

theorem intset_add_wraps:
  assumes rep: "intset_rep s xs" and e: "is_encoding s = INTSET_ENC_INT64" and n: "length xs = 2 ^ 29"
    and v: "v < xs ! 0" "in_sbits 64 v"
  shows "\<exists>s'. intsetAdd junk s v = Some (s', True) \<and>
    u_intsetGet s' 0 = Some v \<and> u_intsetGet s' 1 = Some (xs ! 1)"
proof -
  let ?C = "\<lambda>ys. concat (map (le_enc 8) ys)"
  have len: "unat (is_length s) = 2 ^ 29" and cont: "is_contents s = ?C xs"
    and bits: "\<forall>x \<in> set xs. in_sbits 64 x" and sorted: "sorted_wrt (<) xs"
    using rep e n by (auto simp: intset_rep_def)
  have "2 \<le> length xs" using n by simp
  then obtain x y zs where xs: "xs = x # y # zs" by (cases xs; cases "tl xs") auto
  have notin: "v \<notin> set xs" and r0: "rank xs v = 0"
    using v(1) sorted xs by (auto simp: rank_def)
  have n1: "unat (is_length s + 1) = 2 ^ 29 + 1" using len by (simp add: unat_u32_Suc)
  define j where "j = map junk [2 ^ 29 * 8..<(2 ^ 29 + 1) * 8]"
  have lj: "length j = 8" by (simp add: j_def)
  have lC: "length (?C xs) = 2 ^ 29 * 8" using n by (simp add: length_concat_map_const)
  have ok: "enc_ok (is_encoding s)" using e by (simp add: enc_ok_def)
  have resize: "intsetResize junk s (is_length s + 1) = Some (s\<lparr>is_contents := ?C xs @ j\<rparr>)"
    using intsetResize_Some[OF ok, of junk] n1 e lC by (simp add: cont mem_realloc_grow j_def)
  have search: "intsetSearch s v = Some (False, 0)"
    using intsetSearch_rep[OF rep, of v] n notin r0 by simp
  have wrap: "is_length s * 8 = 0"
  proof -
    have "is_length s = of_nat (2 ^ 29)" using len by (rule u32_of_nat_eqI)
    then show ?thesis by simp
  qed
  have move: "intsetMoveTail (s\<lparr>is_contents := ?C xs @ j\<rparr>) 0 1 = Some (s\<lparr>is_contents := ?C xs @ j\<rparr>)"
    using wrap lC lj by (simp add: intsetMoveTail_def e mem_move_zero)
  have lt0: "0 < is_length s" using len by (simp add: word_less_nat_alt)
  have set: "u_intsetSet (s\<lparr>is_contents := ?C xs @ j\<rparr>) 0 v =
      Some (s\<lparr>is_contents := ?C (v # y # zs) @ j\<rparr>)"
    using u_intsetSet_Some[of "s\<lparr>is_contents := ?C xs @ j\<rparr>" 0 v] ok e lC lj by (simp add: xs)
  have "u_intsetValueEncoding v \<le> is_encoding s"
    using value_enc_le_iff[OF ok v(2)] v(2) e by simp
  then have "intsetAdd junk s v =
      Some (s\<lparr>is_length := is_length s + 1, is_contents := ?C (v # y # zs) @ j\<rparr>, True)" (is "_ = Some (?s', True)")
    using search resize move set lt0 by (simp add: intsetAdd_def leD)
  moreover have "u_intsetGet ?s' (int i) = Some ((v # y # zs) ! i)" if "i < 2" for i
  proof -
    have "in_sbits (8 * 8) ((v # y # zs) ! i)" using that bits v(2) xs by (cases i) auto
    then have "arr_get 8 (?C (v # y # zs) @ j) (int i) = Some ((v # y # zs) ! i)"
      using that by (intro arr_get_concat) (auto simp: length_concat_map_const)
    then show ?thesis using e by (simp add: u_intsetGet_def u_intsetGetEncoded_def)
  qed
  note this[of 0] this[of 1]
  ultimately show ?thesis using xs by simp
qed

definition intset_iota :: "nat \<Rightarrow> intset" where
  "intset_iota n = \<lparr>is_encoding = INTSET_ENC_INT64, is_length = of_nat n,
     is_contents = concat (map (le_enc 8) (map int [0..<n]))\<rparr>"

lemma intset_iota_rep: "n < 2 ^ 32 \<Longrightarrow> intset_rep (intset_iota n) (map int [0..<n])"
  by (auto simp: intset_rep_def intset_iota_def enc_ok_def in_sbits_def unat_u32_of_nat
      sorted_wrt_map intro: sorted_wrt_mono_rel[of _ "(<)"])

theorem intset_add_wraps_witness:
  "\<exists>s'. intsetAdd (\<lambda>_. 0) (intset_iota (2 ^ 29)) (-1) = Some (s', True) \<and>
    u_intsetGet s' 0 = Some (-1) \<and> u_intsetGet s' 1 = Some 1"
proof -
  define n :: nat where "n = 2 ^ 29"
  have rep: "intset_rep (intset_iota n) (map int [0..<n])"
    by (rule intset_iota_rep) (simp add: n_def)
  have len: "length (map int [0..<n]) = 2 ^ 29" by (simp add: n_def)
  have n: "1 < n" by (simp add: n_def)
  have "\<exists>s'. intsetAdd (\<lambda>_. 0) (intset_iota n) (-1) = Some (s', True) \<and>
      u_intsetGet s' 0 = Some (-1) \<and> u_intsetGet s' 1 = Some (map int [0..<n] ! 1)"
    by (rule intset_add_wraps[OF rep _ len])
      (use n in \<open>simp_all add: in_sbits_def, simp_all add: intset_iota_def\<close>)
  moreover have "map int [0..<n] ! 1 = 1" using n by simp
  ultimately show ?thesis by (simp only: n_def)
qed

definition iota_blob :: "nat \<Rightarrow> bytes" where
  "iota_blob n = le_enc 4 8 @ le_enc 4 (int n) @ is_contents (intset_iota n)"

theorem intset_validate_reads_before_witness:
  "intset_inv (intset_iota (2 ^ 31 + 1)) \<and>
    intsetValidateIntegrity (iota_blob (2 ^ 31 + 1)) (length (iota_blob (2 ^ 31 + 1))) True = None"
proof -
  define n :: nat where "n = 2 ^ 31 + 1"
  have n32: "n < 2 ^ 32" by (simp add: n_def)
  have rep: "intset_rep (intset_iota n) (map int [0..<n])" using n32 by (rule intset_iota_rep)
  then have inv: "intset_inv (intset_iota n)" by (auto simp: intset_inv_iff)
  have "le_dec (le_enc 4 8) = 8" "le_dec (le_enc 4 (int n)) = int n" using n32 by (simp_all add: le_dec_enc)
  then have "intset_of_blob (iota_blob n) = Some (intset_iota n)"
    by (simp add: intset_of_blob_def iota_blob_def mem_get_def intset_iota_def)
  moreover have "2 ^ 31 < unat (is_length (intset_iota n))"
    using n32 by (simp add: intset_iota_def unat_u32_of_nat) (simp add: n_def)
  ultimately have "intsetValidateIntegrity (iota_blob n) (length (iota_blob n)) True = None"
    using intset_validate_reads_before[OF _ inv] by blast
  then show ?thesis using inv unfolding n_def by blast
qed

end
