(* ===== verification/Util_Numbers.thy ===== *)
theory Util_Numbers
  imports Redis_Prelude
begin

text \<open>
  The integer/string conversions of \<open>util.c\<close>: \<open>digits10\<close>, \<open>sdigits10\<close>,
  \<open>ull2string\<close>, \<open>ll2string\<close>, \<open>string2ll\<close>, \<open>string2l\<close>,
  \<open>string2ull\<close> and \<open>memtoull\<close>. Unsigned 64 bit values are natural numbers with the
  bounds of the code's own checks; the output buffer is raw memory, and the destination pointer is
  an offset into it. A C string is the list of its bytes.

  The lemmas give the functions a reference semantics: the canonical decimal representation
  \<open>dec_int\<close>. Printing produces it (or reports that the buffer is too small), parsing
  accepts exactly the representations of 64 bit integers, so the two are inverse.
\<close>

section \<open>Definitions\<close>

text \<open>A store of one byte through a signed offset.\<close>

definition poke :: "bytes \<Rightarrow> int \<Rightarrow> byte \<Rightarrow> bytes option" where
  "poke m i b = (if 0 \<le> i \<and> i < int (length m) then Some (m[nat i := b]) else None)"

fun digits10 :: "nat \<Rightarrow> nat" where
  "digits10 v =
     (if v < 10 then 1
      else if v < 100 then 2
      else if v < 1000 then 3
      else if v < 1000000000000 then
        (if v < 100000000 then
           (if v < 1000000 then
              (if v < 10000 then 4 else 5 + of_bool (v \<ge> 100000))
            else 7 + of_bool (v \<ge> 10000000))
         else if v < 10000000000 then 9 + of_bool (v \<ge> 1000000000)
         else 11 + of_bool (v \<ge> 100000000000))
      else 12 + digits10 (v div 1000000000000))"

declare digits10.simps [simp del]

definition sdigits10 :: "int \<Rightarrow> nat" where
  "sdigits10 v =
     (if v < 0 then
        (let uv = (if v \<noteq> LLONG_MIN then nat (- v) else nat LLONG_MAX + 1)
         in digits10 uv + 1)
      else digits10 (nat v))"

definition digits_table :: bytes where
  "digits_table = map of_char
     (''0001020304050607080910111213141516171819'' @
      ''2021222324252627282930313233343536373839'' @
      ''4041424344454647484950515253545556575859'' @
      ''6061626364656667686970717273747576777879'' @
      ''8081828384858687888990919293949596979899'')"

text \<open>
  The loop that writes two digits at a time from the end; \<open>next\<close> is the offset of the
  next digit to write, relative to \<open>dst\<close> (the value never wraps: see
  \<open>ull2string_loop_correct\<close>).
\<close>

function ull2string_loop :: "bytes \<Rightarrow> int \<Rightarrow> nat \<Rightarrow> int \<Rightarrow> (bytes \<times> nat \<times> int) option" where
  "ull2string_loop m dst v nxt =
     (if v \<ge> 100 then do {
        let i = (v mod 100) * 2;
        m1 \<leftarrow> poke m (dst + nxt) (digits_table ! (i + 1));
        m2 \<leftarrow> poke m1 (dst + nxt - 1) (digits_table ! i);
        ull2string_loop m2 dst (v div 100) (nxt - 2)
      } else Some (m, v, nxt))"
  by pat_completeness auto
termination
  by (relation "measure (\<lambda>(m, dst, v, nxt). v)") auto

declare ull2string_loop.simps [simp del]

definition ull2string :: "bytes \<Rightarrow> int \<Rightarrow> nat \<Rightarrow> nat \<Rightarrow> (bytes \<times> nat) option" where
  "ull2string m dst dstlen v =
     (let len = digits10 v
      in if len \<ge> dstlen then do {
           m' \<leftarrow> (if dstlen > 0 then poke m dst 0 else Some m);
           Some (m', 0)
         }
         else do {
           let nxt = int len - 1;
           m1 \<leftarrow> poke m (dst + nxt + 1) 0;
           (m2, v', nxt') \<leftarrow> ull2string_loop m1 dst v nxt;
           m3 \<leftarrow> (if v' < 10 then poke m2 (dst + nxt') (48 + of_nat v')
                  else do {
                    let i = v' * 2;
                    m3 \<leftarrow> poke m2 (dst + nxt') (digits_table ! (i + 1));
                    poke m3 (dst + nxt' - 1) (digits_table ! i)
                  });
           Some (m3, len)
         })"

definition ll2string :: "bytes \<Rightarrow> int \<Rightarrow> nat \<Rightarrow> int \<Rightarrow> (bytes \<times> nat) option" where
  "ll2string m dst dstlen svalue =
     (if svalue < 0 then
        (let v = (if svalue \<noteq> LLONG_MIN then nat (- svalue) else nat LLONG_MAX + 1)
         in if dstlen < 2 then do {
              m' \<leftarrow> (if dstlen > 0 then poke m dst 0 else Some m);
              Some (m', 0)
            }
            else do {
              m1 \<leftarrow> poke m dst 45;
              (m2, len) \<leftarrow> ull2string m1 (dst + 1) (dstlen - 1) v;
              if len = 0 then Some (m2, 0) else Some (m2, len + 1)
            })
      else do {
        (m2, len) \<leftarrow> ull2string m dst dstlen (nat svalue);
        if len = 0 then Some (m2, 0) else Some (m2, len)
      })"

text \<open>\<open>LONG_STR_SIZE\<close> of \<open>util.h\<close>.\<close>

abbreviation (input) LONG_STR_SIZE :: nat where "LONG_STR_SIZE \<equiv> 21"

abbreviation (input) ULLMAX :: nat where "ULLMAX \<equiv> 18446744073709551615"

text \<open>
  \<open>string2ll\<close> on the string \<open>s\<close>: \<open>None\<close> is the return value 0,
  \<open>Some v\<close> the return value 1 with \<open>*value = v\<close>.
\<close>

fun string2ll_loop :: "nat \<Rightarrow> bytes \<Rightarrow> (nat \<times> bytes) option" where
  "string2ll_loop v [] = Some (v, [])"
| "string2ll_loop v (c # p) =
     (if c \<ge> 48 \<and> c \<le> 57 then
        (if v > ULLMAX div 10 then None
         else let v = v * 10
              in if v > ULLMAX - (unat c - 48) then None
                 else string2ll_loop (v + (unat c - 48)) p)
      else Some (v, c # p))"

definition string2ll :: "bytes \<Rightarrow> int option" where
  "string2ll s =
     (if length s = 0 \<or> length s \<ge> LONG_STR_SIZE then None
      else if length s = 1 \<and> hd s = 48 then Some 0
      else
        let negative = (hd s = 45);
            p = (if negative then tl s else s)
        in if p = [] then None
           else if hd p \<ge> 49 \<and> hd p \<le> 57 then
             (case string2ll_loop (unat (hd p) - 48) (tl p) of
                None \<Rightarrow> None
              | Some (v, rest) \<Rightarrow>
                  if rest \<noteq> [] then None
                  else if negative then
                    (if int v > - (LLONG_MIN + 1) + 1 then None else Some (- int v))
                  else if int v > LLONG_MAX then None else Some (int v))
           else None)"

text \<open>\<open>long\<close> has 64 bits on the platforms of the model, so the range test never fails.\<close>

definition string2l :: "bytes \<Rightarrow> int option" where
  "string2l s =
     (case string2ll s of None \<Rightarrow> None
      | Some v \<Rightarrow> if v < LLONG_MIN \<or> v > LLONG_MAX then None else Some v)"

text \<open>
  The part of the C library the remaining conversions use, in the \<open>"C"\<close> locale and base
  10: \<open>isspace\<close>, \<open>isdigit\<close>, \<open>tolower\<close>, \<open>strcasecmp\<close> (as the
  test for equality) and \<open>strtoull\<close>, which returns the value, the rest of the string
  (\<open>endptr\<close>) and whether it set \<open>errno\<close> to \<open>ERANGE\<close>.
\<close>

definition c_isspace :: "byte \<Rightarrow> bool" where
  "c_isspace c \<longleftrightarrow> c = 32 \<or> (9 \<le> c \<and> c \<le> 13)"

definition c_isdigit :: "byte \<Rightarrow> bool" where
  "c_isdigit c \<longleftrightarrow> 48 \<le> c \<and> c \<le> 57"

definition c_tolower :: "byte \<Rightarrow> byte" where
  "c_tolower c = (if 65 \<le> c \<and> c \<le> 90 then c + 32 else c)"

definition c_strcaseeq :: "bytes \<Rightarrow> bytes \<Rightarrow> bool" where
  "c_strcaseeq s t \<longleftrightarrow> map c_tolower s = map c_tolower t"

definition digits_val :: "bytes \<Rightarrow> nat" where
  "digits_val ds = foldl (\<lambda>v c. v * 10 + (unat c - 48)) 0 ds"

definition c_strtoull :: "bytes \<Rightarrow> nat \<times> bytes \<times> bool" where
  "c_strtoull s =
     (let p = dropWhile c_isspace s;
          neg = (p \<noteq> [] \<and> hd p = 45);
          q = (if p \<noteq> [] \<and> (hd p = 45 \<or> hd p = 43) then tl p else p);
          ds = takeWhile c_isdigit q;
          v = digits_val ds
      in if ds = [] then (0, s, False)
         else if v > ULLMAX then (ULLMAX, dropWhile c_isdigit q, True)
         else ((if neg then (2 ^ 64 - v) mod 2 ^ 64 else v), dropWhile c_isdigit q, False))"

definition string2ull :: "bytes \<Rightarrow> nat option" where
  "string2ull s =
     (case string2ll s of
        Some ll \<Rightarrow> if ll < 0 then None else Some (nat ll)
      | None \<Rightarrow>
          let (v, rest, erange) = c_strtoull s
          in if erange \<or> \<not> (s \<noteq> [] \<and> rest = []) then None else Some v)"

text \<open>
  \<open>memtoull\<close>: \<open>None\<close> is \<open>*err = 1\<close>. The product of the unsigned value and
  the multiplier wraps at 64 bits; \<open>ERANGE\<close> is not looked at.
\<close>

definition memtoull :: "bytes \<Rightarrow> nat option" where
  "memtoull p =
     (if p \<noteq> [] \<and> hd p = 45 then None
      else
        let u = dropWhile c_isdigit p;
            mul = (if u = [] \<or> c_strcaseeq u [98] then Some 1
                   else if c_strcaseeq u [107] then Some 1000
                   else if c_strcaseeq u [107, 98] then Some 1024
                   else if c_strcaseeq u [109] then Some (1000 * 1000)
                   else if c_strcaseeq u [109, 98] then Some (1024 * 1024)
                   else if c_strcaseeq u [103] then Some (1000 * 1000 * 1000)
                   else if c_strcaseeq u [103, 98] then Some (1024 * 1024 * 1024)
                   else None)
        in case mul of
             None \<Rightarrow> None
           | Some k \<Rightarrow>
               let digits = takeWhile c_isdigit p
               in if length digits \<ge> 128 then None
                  else let (v, rest, erange) = c_strtoull digits
                       in if rest \<noteq> [] then None else Some ((v * k) mod 2 ^ 64))"

text \<open>\<open>mempbrk\<close> returns the offset of the first byte that occurs in \<open>chars\<close>.\<close>

fun mempbrk :: "bytes \<Rightarrow> bytes \<Rightarrow> nat option" where
  "mempbrk [] chars = None"
| "mempbrk (c # s) chars = (if c \<in> set chars then Some 0 else map_option Suc (mempbrk s chars))"

fun memmapchar :: "byte \<Rightarrow> bytes \<Rightarrow> bytes \<Rightarrow> byte" where
  "memmapchar c (f # from) (t # to) = (if c = f then t else memmapchar c from to)"
| "memmapchar c _ _ = c"

definition memmapchars :: "bytes \<Rightarrow> bytes \<Rightarrow> bytes \<Rightarrow> bytes" where
  "memmapchars s from to = map (\<lambda>c. memmapchar c from to) s"

section \<open>The decimal representation\<close>

fun dec :: "nat \<Rightarrow> bytes" where
  "dec n = (if n < 10 then [48 + of_nat n] else dec (n div 10) @ [48 + of_nat (n mod 10)])"

declare dec.simps [simp del]

definition dec_int :: "int \<Rightarrow> bytes" where
  "dec_int v = (if v < 0 then 45 # dec (nat (- v)) else dec (nat v))"

lemma dec_small: "n < 10 \<Longrightarrow> dec n = [48 + of_nat n]"
  by (subst dec.simps) simp

lemma dec_big: "10 \<le> n \<Longrightarrow> dec n = dec (n div 10) @ [48 + of_nat (n mod 10)]"
  by (subst dec.simps) simp

lemma dec_nonempty [simp]: "dec n \<noteq> []"
  by (subst dec.simps) simp

lemma length_dec_div: "10 ^ k \<le> v \<Longrightarrow> length (dec v) = k + length (dec (v div 10 ^ k))"
proof (induction k)
  case 0
  then show ?case by simp
next
  case (Suc k)
  have "10 ^ k \<le> v" using Suc.prems by (meson le_trans power_increasing le_SucI le_refl one_le_numeral)
  moreover have "10 \<le> v div 10 ^ k"
    using Suc.prems by (simp add: less_eq_div_iff_mult_less_eq mult.commute)
  moreover have "v div 10 ^ k div 10 = v div 10 ^ Suc k" by (metis div_mult2_eq power_Suc2)
  ultimately show ?case using Suc.IH dec_big[of "v div 10 ^ k"] by simp
qed

lemma length_dec_exact:
  assumes "10 ^ k \<le> v" "v < 10 ^ Suc k"
  shows "length (dec v) = Suc k"
proof -
  have "v div 10 ^ k < 10" using assms(2) by (simp add: less_mult_imp_div_less mult.commute)
  then show ?thesis using length_dec_div[OF assms(1)] by (simp add: dec_small)
qed

lemma digits10_length: "digits10 v = length (dec v)"
proof (induction v rule: digits10.induct)
  case (1 v)
  show ?case
  proof (cases "v < 1000000000000")
    case True
    note len = length_dec_exact[of 1 v] length_dec_exact[of 2 v] length_dec_exact[of 3 v]
      length_dec_exact[of 4 v] length_dec_exact[of 5 v] length_dec_exact[of 6 v]
      length_dec_exact[of 7 v] length_dec_exact[of 8 v] length_dec_exact[of 9 v]
      length_dec_exact[of 10 v] length_dec_exact[of 11 v]
    show ?thesis
      using len [simplified] True by (subst digits10.simps) (auto simp: dec_small not_less not_le)
  next
    case False
    then have "length (dec v) = 12 + length (dec (v div 10 ^ 12))"
      by (intro length_dec_div) simp
    then show ?thesis using 1 False by (subst digits10.simps) simp
  qed
qed

section \<open>Printing\<close>

lemma length_two_conv: "length xs = 2 \<longleftrightarrow> (\<exists>x y. xs = [x, y])"
  by (auto simp: length_Suc_conv numeral_2_eq_2)

lemma digits_table_eq:
  "digits_table = concat (map (\<lambda>i. [48 + of_nat (i div 10), 48 + of_nat (i mod 10)]) [0..<100])"
  by (simp add: digits_table_def upt_rec)

lemma nth_concat_pairs:
  "i < length xs \<Longrightarrow>
     concat (map (\<lambda>x. [f x, g x]) xs) ! (i * 2) = f (xs ! i) \<and>
     concat (map (\<lambda>x. [f x, g x]) xs) ! (i * 2 + 1) = g (xs ! i)"
proof (induction xs arbitrary: i)
  case (Cons x xs)
  then show ?case by (cases i) auto
qed simp

lemma digits_table_nth:
  assumes "i < 100"
  shows "digits_table ! (i * 2) = 48 + of_nat (i div 10)"
    and "digits_table ! (i * 2 + 1) = 48 + of_nat (i mod 10)"
  unfolding digits_table_eq
  using assms nth_concat_pairs[of i "[0..<100]" "\<lambda>i. 48 + of_nat (i div 10) :: byte"
      "\<lambda>i. 48 + of_nat (i mod 10)"]
  by (simp_all del: upt_rec_numeral)

lemma dec_two_digits:
  assumes "100 \<le> v"
  shows "dec v = dec (v div 100) @ [digits_table ! (v mod 100 * 2), digits_table ! (v mod 100 * 2 + 1)]"
proof -
  have "v div 10 mod 10 = v mod 100 div 10" "v mod 10 = v mod 100 mod 10" "v div 10 div 10 = v div 100"
    by (simp_all add: mod_mult2_eq[of v 10 10, simplified] div_mult2_eq[of v 10 10, simplified] mod_mod_cancel)
  moreover have "10 \<le> v div 10" using assms by linarith
  ultimately show ?thesis
    using assms dec_big[of v] dec_big[of "v div 10"] digits_table_nth[of "v mod 100"] by simp
qed

lemma dec_table:
  assumes "10 \<le> v" "v < 100"
  shows "dec v = [digits_table ! (v * 2), digits_table ! (v * 2 + 1)]"
  using assms dec_big[of v] digits_table_nth[of v] by (simp add: dec_small)

lemma poke_append [mem_simps]:
  "i = int (length xs) \<Longrightarrow> poke (xs @ y # zs) i b = Some (xs @ b # zs)"
  by (simp add: poke_def list_update_append)

lemma ull2string_loop_correct:
  assumes "length B = length (dec v)"
  shows "\<exists>v' S. v' < 100 \<and> dec v = dec v' @ S \<and>
    ull2string_loop (A @ B @ C) (int (length A)) v (int (length B) - 1) =
      Some (A @ take (length (dec v')) B @ S @ C, v', int (length (dec v')) - 1)"
  using assms
proof (induction v arbitrary: B C rule: less_induct)
  case (less v)
  show ?case
  proof (cases "v < 100")
    case True
    then show ?thesis
      using less.prems by (intro exI[of _ v] exI[of _ "[]"]) (simp add: ull2string_loop.simps)
  next
    case False
    let ?d1 = "digits_table ! (v mod 100 * 2)" and ?d2 = "digits_table ! (v mod 100 * 2 + 1)"
    have dec: "dec v = dec (v div 100) @ [?d1, ?d2]" using False by (intro dec_two_digits) simp
    have lB: "length B = length (dec (v div 100)) + 2" using less.prems dec by simp
    define B0 where "B0 = take (length (dec (v div 100))) B"
    have l0: "length B0 = length (dec (v div 100))" using lB by (simp add: B0_def)
    obtain x y where B: "B = B0 @ [x, y]"
    proof -
      have "length (drop (length (dec (v div 100))) B) = 2" using lB by simp
      then obtain x y where "drop (length (dec (v div 100))) B = [x, y]"
        unfolding length_two_conv by blast
      then show ?thesis using that by (metis B0_def append_take_drop_id)
    qed
    have w1: "poke (A @ B @ C) (int (length A) + (int (length B) - 1)) ?d2 = Some ((A @ B0 @ [x]) @ ?d2 # C)"
      using poke_append[of "int (length A) + (int (length B) - 1)" "A @ B0 @ [x]" y C ?d2]
      by (simp add: B)
    have w2: "poke ((A @ B0 @ [x]) @ ?d2 # C) (int (length A) + (int (length B) - 1) - 1) ?d1 =
        Some (A @ B0 @ (?d1 # ?d2 # C))"
      using poke_append[of "int (length A) + (int (length B) - 1) - 1" "A @ B0" x "?d2 # C" ?d1]
      by (simp add: B)
    have n: "int (length B) - 1 - 2 = int (length B0) - 1" by (simp add: B)
    have ge: "100 \<le> v" using False by simp
    have step: "ull2string_loop (A @ B @ C) (int (length A)) v (int (length B) - 1) =
        ull2string_loop (A @ B0 @ (?d1 # ?d2 # C)) (int (length A)) (v div 100) (int (length B0) - 1)"
      by (subst ull2string_loop.simps)
        (simp only: if_P[OF ge] Let_def w1 w2 n Option.bind.bind_lunit)
    have "\<exists>v' S. v' < 100 \<and> dec (v div 100) = dec v' @ S \<and>
      ull2string_loop (A @ B0 @ (?d1 # ?d2 # C)) (int (length A)) (v div 100) (int (length B0) - 1) =
        Some (A @ take (length (dec v')) B0 @ S @ (?d1 # ?d2 # C), v', int (length (dec v')) - 1)"
      using False l0 by (intro less.IH) auto
    then obtain v' S where v': "v' < 100" "dec (v div 100) = dec v' @ S"
      and rec: "ull2string_loop (A @ B0 @ (?d1 # ?d2 # C)) (int (length A)) (v div 100) (int (length B0) - 1) =
        Some (A @ take (length (dec v')) B0 @ S @ (?d1 # ?d2 # C), v', int (length (dec v')) - 1)"
      by blast
    have tk: "take (length (dec v')) B = take (length (dec v')) B0" using v'(2) l0 by (simp add: B)
    show ?thesis
    proof (intro exI conjI)
      show "v' < 100" by (rule v'(1))
      show "dec v = dec v' @ (S @ [?d1, ?d2])" using dec v'(2) by simp
      show "ull2string_loop (A @ B @ C) (int (length A)) v (int (length B) - 1) =
        Some (A @ take (length (dec v')) B @ (S @ [?d1, ?d2]) @ C, v', int (length (dec v')) - 1)"
        unfolding step rec tk by simp
    qed
  qed
qed

lemma ull2string_fits:
  assumes "length B = length (dec v)" "length (dec v) < dstlen"
  shows "ull2string (A @ B @ x # C) (int (length A)) dstlen v = Some (A @ dec v @ 0 # C, length (dec v))"
proof -
  have w0: "poke (A @ B @ x # C) (int (length A) + (int (length (dec v)) - 1) + 1) 0 = Some (A @ B @ 0 # C)"
    using poke_append[of "int (length A) + (int (length (dec v)) - 1) + 1" "A @ B" x C 0] assms(1) by simp
  from ull2string_loop_correct[OF assms(1), of A "0 # C"] obtain v' S where
    v': "v' < 100" and d: "dec v = dec v' @ S" and
    loop: "ull2string_loop (A @ B @ 0 # C) (int (length A)) v (int (length B) - 1) =
      Some (A @ take (length (dec v')) B @ S @ 0 # C, v', int (length (dec v')) - 1)" by blast
  show ?thesis
  proof (cases "v' < 10")
    case True
    then have l1: "length (dec v') = 1" by (simp add: dec_small)
    obtain b B' where B: "B = b # B'" using assms(1) d l1 by (cases B) auto
    have "poke (A @ [b] @ S @ 0 # C) (int (length A)) (48 + of_nat v') = Some (A @ dec v' @ S @ 0 # C)"
      using poke_append[of "int (length A)" A b] True by (simp add: dec_small)
    then show ?thesis
      using w0 loop assms True d l1 B by (simp add: ull2string_def digits10_length Let_def)
  next
    case False
    then have dt: "dec v' = [digits_table ! (v' * 2), digits_table ! (v' * 2 + 1)]"
      using v' by (intro dec_table) auto
    then have l2: "length (dec v') = 2" by simp
    obtain b b' B' where B: "B = b # b' # B'"
      using assms(1) d l2 by (cases B; cases "tl B") auto
    have p1: "poke (A @ [b, b'] @ S @ 0 # C) (int (length A) + 1) (digits_table ! (v' * 2 + 1)) =
        Some ((A @ [b]) @ digits_table ! (v' * 2 + 1) # S @ 0 # C)"
      using poke_append[of "int (length A) + 1" "A @ [b]" b'] by simp
    have p2: "poke (A @ b # (digits_table ! (v' * 2 + 1) # S @ 0 # C)) (int (length A)) (digits_table ! (v' * 2)) =
        Some (A @ dec v' @ S @ 0 # C)"
      using poke_append[of "int (length A)" A b] dt by simp
    show ?thesis
      using w0 loop assms False d l2 B p1 p2 by (simp add: ull2string_def digits10_length Let_def)
  qed
qed

lemma poke_Some [mem_simps]: "i < length m \<Longrightarrow> poke m (int i) b = Some (m[i := b])"
  by (simp add: poke_def)

lemma split_buffer:
  assumes "d + n + 1 \<le> length m"
  shows "m = take d m @ take n (drop d m) @ m ! (d + n) # drop (d + n + 1) m"
proof -
  have "drop d m = take n (drop d m) @ drop (d + n) m"
    by (metis append_take_drop_id drop_drop add.commute)
  moreover have "drop (d + n) m = m ! (d + n) # drop (d + n + 1) m"
    using assms by (simp add: Cons_nth_drop_Suc)
  ultimately show ?thesis by (metis append_take_drop_id)
qed

lemma ull2string_ok:
  assumes "d + dstlen \<le> length m" "length (dec v) < dstlen"
  shows "ull2string m (int d) dstlen v =
    Some (take d m @ dec v @ 0 # drop (d + length (dec v) + 1) m, length (dec v))"
proof -
  let ?n = "length (dec v)"
  have fit: "d + ?n + 1 \<le> length m" using assms by simp
  have "ull2string (take d m @ take ?n (drop d m) @ m ! (d + ?n) # drop (d + ?n + 1) m)
      (int (length (take d m))) dstlen v =
    Some (take d m @ dec v @ 0 # drop (d + ?n + 1) m, ?n)"
    using fit assms(2) by (intro ull2string_fits) simp_all
  then show ?thesis using split_buffer[OF fit] fit by simp
qed

lemma ull2string_short:
  assumes "d + dstlen \<le> length m" "dstlen \<le> length (dec v)"
  shows "ull2string m (int d) dstlen v = Some (if dstlen = 0 then m else m[d := 0], 0)"
  using assms by (auto simp: ull2string_def digits10_length poke_Some)

lemma nat_abs_min:
  "v < 0 \<Longrightarrow> (if v \<noteq> LLONG_MIN then nat (- v) else nat LLONG_MAX + 1) = nat (- v)"
  by simp

lemma ll2string_ok:
  assumes "d + dstlen \<le> length m" "length (dec_int v) < dstlen"
  shows "ll2string m (int d) dstlen v =
    Some (take d m @ dec_int v @ 0 # drop (d + length (dec_int v) + 1) m, length (dec_int v))"
proof (cases "v < 0")
  case True
  let ?k = "dec (nat (- v))"
  let ?m1 = "m[d := 45]"
  have l: "length ?k + 1 < dstlen" using assms(2) True by (simp add: dec_int_def)
  have d: "d < length m" using assms l by simp
  have pk: "poke m (int d) 45 = Some ?m1" using d by (rule poke_Some)
  have u: "ull2string ?m1 (int (d + 1)) (dstlen - 1) (nat (- v)) =
    Some (take (d + 1) ?m1 @ ?k @ 0 # drop (d + 1 + length ?k + 1) ?m1, length ?k)"
    using assms(1) l by (intro ull2string_ok) auto
  have t: "take (d + 1) ?m1 = take d m @ [45]"
    using d by (simp add: take_Suc_conv_app_nth)
  have dr: "drop (d + 1 + length ?k + 1) ?m1 = drop (d + length (dec_int v) + 1) m"
    using True by (simp add: dec_int_def drop_update_cancel)
  have "ull2string ?m1 (int d + 1) (dstlen - 1) (nat (- v)) =
    Some (take d m @ dec_int v @ 0 # drop (d + length (dec_int v) + 1) m, length ?k)"
    using u unfolding t dr using True by (simp add: dec_int_def add.commute)
  then show ?thesis
    using True l pk by (simp add: ll2string_def nat_abs_min dec_int_def Let_def)
next
  case False
  then have "dec_int v = dec (nat v)" by (simp add: dec_int_def)
  then show ?thesis
    using False assms ull2string_ok[of d dstlen m "nat v"] by (simp add: ll2string_def)
qed

lemma ll2string_short:
  assumes "d + dstlen \<le> length m" "dstlen \<le> length (dec_int v)"
  shows "\<exists>m'. ll2string m (int d) dstlen v = Some (m', 0) \<and> length m' = length m \<and>
    take d m' = take d m \<and> drop (d + dstlen) m' = drop (d + dstlen) m"
proof (cases "v < 0")
  case True
  show ?thesis
  proof (cases "dstlen < 2")
    case lt: True
    then show ?thesis
      using True assms by (auto simp: ll2string_def poke_Some less_2_cases_iff)
  next
    case ge: False
    then have "poke m (int d) 45 = Some (m[d := 45])" using assms by (intro poke_Some) simp
    moreover have "ull2string (m[d := 45]) (int (d + 1)) (dstlen - 1) (nat (- v)) =
        Some (if dstlen - 1 = 0 then m[d := 45] else (m[d := 45])[d + 1 := 0], 0)"
      using assms ge True by (intro ull2string_short) (auto simp: dec_int_def)
    ultimately show ?thesis
      using True ge by (simp add: ll2string_def nat_abs_min Let_def add.commute)
  qed
next
  case False
  then show ?thesis
    using assms ull2string_short[of d dstlen m "nat v"]
    by (auto simp: ll2string_def dec_int_def)
qed

section \<open>Parsing\<close>

lemma byte_digit_val: "(c :: byte) \<ge> 48 \<Longrightarrow> c \<le> 57 \<Longrightarrow> 48 \<le> unat c \<and> unat c \<le> 57"
  by (simp add: word_le_nat_alt)

lemma digits_val_snoc: "digits_val (ds @ [c]) = digits_val ds * 10 + (unat c - 48)"
  by (simp add: digits_val_def)

lemma digits_val_from:
  "foldl (\<lambda>v c. v * 10 + (unat c - 48)) a ds = a * 10 ^ length ds + digits_val ds"
proof (induction ds arbitrary: a rule: rev_induct)
  case Nil
  then show ?case by (simp add: digits_val_def)
next
  case (snoc c ds)
  then show ?case by (simp add: digits_val_snoc algebra_simps)
qed

lemma digits_val_Cons: "digits_val (c # ds) = (unat c - 48) * 10 ^ length ds + digits_val ds"
proof -
  have "digits_val (c # ds) = foldl (\<lambda>v c. v * 10 + (unat c - 48)) (unat c - 48) ds"
    by (simp add: digits_val_def)
  then show ?thesis by (simp only: digits_val_from)
qed

lemma string2ll_loop_digits:
  assumes "\<forall>c \<in> set ds. c_isdigit c" "v \<le> ULLMAX"
  shows "string2ll_loop v ds =
    (let r = v * 10 ^ length ds + digits_val ds in if r \<le> ULLMAX then Some (r, []) else None)"
  using assms
proof (induction ds arbitrary: v)
  case Nil
  then show ?case by (simp add: digits_val_def)
next
  case (Cons c ds)
  have c: "48 \<le> c" "c \<le> 57" and d: "unat c - 48 \<le> 9"
    using Cons.prems byte_digit_val[of c] by (auto simp: c_isdigit_def)
  let ?x = "v * 10 + (unat c - 48)"
  have total: "v * 10 ^ length (c # ds) + digits_val (c # ds) = ?x * 10 ^ length ds + digits_val ds"
    by (simp add: digits_val_Cons algebra_simps)
  have "string2ll_loop v (c # ds) =
    (let r = ?x * 10 ^ length ds + digits_val ds in if r \<le> ULLMAX then Some (r, []) else None)"
  proof (cases "?x \<le> ULLMAX")
    case True
    then have "\<not> v > ULLMAX div 10" "\<not> v * 10 > ULLMAX - (unat c - 48)" by auto
    then show ?thesis using c Cons True by simp
  next
    case False
    then have big: "v > ULLMAX div 10 \<or> v * 10 > ULLMAX - (unat c - 48)" using d by arith
    have "?x \<le> ?x * 10 ^ length ds" by simp
    then have "\<not> ?x * 10 ^ length ds + digits_val ds \<le> ULLMAX"
      using False by (meson add_leD1 le_trans)
    then show ?thesis using c big by (auto simp: Let_def)
  qed
  then show ?case by (simp only: total)
qed

lemma string2ll_loop_rest:
  "string2ll_loop v s = Some (r, []) \<Longrightarrow> \<forall>c \<in> set s. c_isdigit c"
proof (induction s arbitrary: v)
  case (Cons c s)
  have c: "c \<ge> 48 \<and> c \<le> 57" using Cons.prems by (simp split: if_splits)
  then obtain w where "string2ll_loop w s = Some (r, [])"
    using Cons.prems by (simp add: Let_def split: if_splits)
  then show ?case using Cons.IH c by (simp add: c_isdigit_def)
qed simp

lemma unat_digit_char: "k < 10 \<Longrightarrow> unat (48 + of_nat k :: byte) = 48 + k"
  by (simp add: unat_word_ariths unat_of_nat)

lemma dec_digits: "\<forall>c \<in> set (dec n). c_isdigit c"
proof (induction n rule: dec.induct)
  case (1 n)
  have "c_isdigit (48 + of_nat k)" if "k < 10" for k
    using that by (simp add: c_isdigit_def word_le_nat_alt unat_digit_char)
  then show ?case using 1 by (subst dec.simps) auto
qed

lemma dec_val: "digits_val (dec n) = n"
proof (induction n rule: dec.induct)
  case (1 n)
  show ?case
  proof (cases "n < 10")
    case True
    then show ?thesis by (simp add: dec_small digits_val_def unat_digit_char)
  next
    case False
    then show ?thesis using 1 by (simp add: dec_big digits_val_snoc unat_digit_char)
  qed
qed

lemma dec_hd: "0 < n \<Longrightarrow> 49 \<le> hd (dec n) \<and> hd (dec n) \<le> 57"
proof (induction n rule: dec.induct)
  case (1 n)
  show ?case
  proof (cases "n < 10")
    case True
    then show ?thesis using 1 by (simp add: dec_small word_le_nat_alt unat_digit_char)
  next
    case False
    then show ?thesis using 1 by (simp add: dec_big)
  qed
qed

lemma digit_of_val: "c_isdigit c \<Longrightarrow> 48 + of_nat (unat c - 48) = c"
proof -
  assume "c_isdigit c"
  then have "48 \<le> unat c" by (simp add: c_isdigit_def word_le_nat_alt)
  then have "48 + of_nat (unat c - 48) = (of_nat (48 + (unat c - 48)) :: byte)" by simp
  also have "48 + (unat c - 48) = unat c" using \<open>48 \<le> unat c\<close> by simp
  finally show ?thesis by simp
qed

lemma digits_val_pos:
  assumes "49 \<le> c"
  shows "0 < digits_val (c # ds)"
proof -
  have "49 \<le> unat c" using assms by (simp add: word_le_nat_alt)
  then show ?thesis by (simp add: digits_val_Cons)
qed

lemma dec_of_digits:
  assumes "\<forall>d \<in> set (c # ds). c_isdigit d" "49 \<le> c"
  shows "dec (digits_val (c # ds)) = c # ds"
  using assms
proof (induction ds rule: rev_induct)
  case Nil
  have "unat c - 48 < 10" using Nil byte_digit_val[of c] by (auto simp: c_isdigit_def)
  then show ?case using Nil digit_of_val[of c] by (simp add: digits_val_def dec_small)
next
  case (snoc d ds)
  let ?n = "digits_val (c # ds)"
  have d: "unat d - 48 < 10" "c_isdigit d" using snoc.prems byte_digit_val[of d] by (auto simp: c_isdigit_def)
  have v: "digits_val (c # ds @ [d]) = ?n * 10 + (unat d - 48)"
    using digits_val_snoc[of "c # ds" d] by simp
  have "0 < ?n" using snoc.prems(2) by (rule digits_val_pos)
  then have "dec (?n * 10 + (unat d - 48)) = dec ?n @ [48 + of_nat (unat d - 48)]"
    using d dec_big[of "?n * 10 + (unat d - 48)"] by simp
  then show ?case using snoc d digit_of_val[of d] v by simp
qed

lemma length_dec_le: "n < 10 ^ Suc k \<Longrightarrow> length (dec n) \<le> Suc k"
proof (induction k arbitrary: n)
  case 0
  then show ?case by (simp add: dec_small)
next
  case (Suc k)
  have "n div 10 < 10 ^ Suc k" using Suc.prems by (simp add: less_mult_imp_div_less mult.commute)
  then show ?case using Suc.IH[of "n div 10"] dec_big[of n] dec_small[of n] by (cases "n < 10") auto
qed

lemma length_dec_bound: "n \<le> 9223372036854775808 \<Longrightarrow> length (dec n) \<le> 19"
  using length_dec_le[of n 18] by simp

definition parse_digits :: "bytes \<Rightarrow> nat option" where
  "parse_digits p =
     (if p \<noteq> [] \<and> 49 \<le> hd p \<and> hd p \<le> 57
      then (case string2ll_loop (unat (hd p) - 48) (tl p) of
              None \<Rightarrow> None | Some (v, rest) \<Rightarrow> if rest = [] then Some v else None)
      else None)"

lemma parse_digits_iff: "parse_digits p = Some n \<longleftrightarrow> p = dec n \<and> 0 < n \<and> n \<le> ULLMAX"
proof
  assume "parse_digits p = Some n"
  then obtain c ds where p: "p = c # ds" and c: "49 \<le> c" "c \<le> 57"
    and loop: "string2ll_loop (unat c - 48) ds = Some (n, [])"
    by (cases p) (auto simp: parse_digits_def split: if_splits option.splits)
  have "48 \<le> c" using c by (simp add: word_le_nat_alt)
  then have dig: "\<forall>d \<in> set (c # ds). c_isdigit d"
    using string2ll_loop_rest[OF loop] c by (simp add: c_isdigit_def)
  have "unat c - 48 \<le> ULLMAX" using c by (simp add: word_le_nat_alt)
  then have "n = digits_val (c # ds) \<and> n \<le> ULLMAX"
    using string2ll_loop_digits[of ds "unat c - 48"] dig loop
    by (simp add: digits_val_Cons Let_def split: if_splits)
  then show "p = dec n \<and> 0 < n \<and> n \<le> ULLMAX"
    using dec_of_digits[OF dig c(1)] digits_val_pos[OF c(1), of ds] p by simp
next
  assume r: "p = dec n \<and> 0 < n \<and> n \<le> ULLMAX"
  obtain c ds where p: "p = c # ds" using r dec_nonempty[of n] by (metis list.exhaust)
  have e: "dec n = c # ds" using r p by simp
  have dig: "\<forall>d \<in> set (c # ds). c_isdigit d" and n: "digits_val (c # ds) = n"
    using dec_digits[of n] dec_val[of n] unfolding e by auto
  have c: "49 \<le> c" "c \<le> 57" using dec_hd[of n] r unfolding e by auto
  have "unat c - 48 \<le> ULLMAX" using c by (simp add: word_le_nat_alt)
  then show "parse_digits p = Some n"
    using string2ll_loop_digits[of ds "unat c - 48"] dig c n conjunct2[OF conjunct2[OF r]]
    by (simp add: parse_digits_def p digits_val_Cons)
qed

lemma string2ll_parse:
  "string2ll s =
     (if length s = 0 \<or> length s \<ge> LONG_STR_SIZE then None
      else if s = [48] then Some 0
      else if hd s = 45 then
        (case parse_digits (tl s) of None \<Rightarrow> None
         | Some v \<Rightarrow> if int v > 9223372036854775808 then None else Some (- int v))
      else (case parse_digits s of None \<Rightarrow> None
         | Some v \<Rightarrow> if int v > LLONG_MAX then None else Some (int v)))"
  unfolding string2ll_def parse_digits_def
  by (cases s; cases "tl s") (auto simp: Let_def split: option.splits)

lemma string2ll_iff:
  "string2ll s = Some v \<longleftrightarrow> s = dec_int v \<and> LLONG_MIN \<le> v \<and> v \<le> LLONG_MAX"
proof
  assume r: "s = dec_int v \<and> LLONG_MIN \<le> v \<and> v \<le> LLONG_MAX"
  let ?n = "nat \<bar>v\<bar>"
  have n: "?n \<le> 9223372036854775808" using r by linarith
  have len: "length s < LONG_STR_SIZE" "length s \<noteq> 0"
    using length_dec_bound[OF n] r by (auto simp: dec_int_def)
  have neg: "hd (dec ?n) \<noteq> 45" if "v \<noteq> 0" using dec_hd[of ?n] that by auto
  have parse: "parse_digits (dec ?n) = Some ?n" if "v \<noteq> 0"
    using that n by (subst parse_digits_iff) simp
  consider "v = 0" | "v < 0" | "0 < v" by linarith
  then show "string2ll s = Some v"
  proof cases
    case 1
    then show ?thesis using r by (simp add: dec_int_def dec_small string2ll_def)
  next
    case 2
    then show ?thesis using r len parse by (simp add: dec_int_def string2ll_parse)
  next
    case 3
    then have "dec ?n \<noteq> [48]" using dec_hd[of ?n] by auto
    then show ?thesis using 3 r len parse neg by (simp add: dec_int_def string2ll_parse)
  qed
next
  assume r: "string2ll s = Some v"
  show "s = dec_int v \<and> LLONG_MIN \<le> v \<and> v \<le> LLONG_MAX"
  proof (cases "s = [48]")
    case True
    then show ?thesis using r by (auto simp: string2ll_parse dec_int_def dec_small)
  next
    case False
    then show ?thesis
      using r by (cases s) (auto simp: string2ll_parse parse_digits_iff dec_int_def
          split: if_splits option.splits)
  qed
qed

lemma sdigits10_length: "sdigits10 v = length (dec_int v)"
  by (simp add: sdigits10_def dec_int_def digits10_length nat_abs_min Let_def)

text \<open>The units \<open>memtoull\<close> knows, in lower case, with their multipliers.\<close>

definition mem_units :: "(bytes \<times> nat) list" where
  "mem_units = [([], 1), ([98], 1), ([107], 1000), ([107, 98], 1024), ([109], 1000000),
     ([109, 98], 1048576), ([103], 1000000000), ([103, 98], 1073741824)]"

lemma takeWhile_dec_unit:
  assumes "(map c_tolower u, k) \<in> set mem_units"
  shows "takeWhile c_isdigit (dec n @ u) = dec n" "dropWhile c_isdigit (dec n @ u) = u"
proof -
  have "u = [] \<or> \<not> c_isdigit (hd u)"
    using assms by (auto simp: mem_units_def c_isdigit_def c_tolower_def word_le_nat_alt split: if_splits)
  then show "takeWhile c_isdigit (dec n @ u) = dec n" "dropWhile c_isdigit (dec n @ u) = u"
    using dec_digits[of n] by (cases u; simp add: takeWhile_append2 dropWhile_append2)+
qed

lemma dec_hd_digit: "c_isdigit (hd (dec n))"
  using dec_digits[of n] by (simp add: list.set_sel(1))

lemma c_strtoull_dec:
  assumes "n \<le> ULLMAX"
  shows "c_strtoull (dec n) = (n, [], False)"
proof -
  have h: "c_isdigit (hd (dec n))" by (rule dec_hd_digit)
  have ns: "\<not> c_isspace (hd (dec n))" "hd (dec n) \<noteq> 45" "hd (dec n) \<noteq> 43"
    using h by (auto simp: c_isdigit_def c_isspace_def word_le_nat_alt)
  have dw: "dropWhile c_isspace (dec n) = dec n"
    using ns(1) by (cases "dec n") auto
  have tw: "takeWhile c_isdigit (dec n) = dec n" "dropWhile c_isdigit (dec n) = []"
    using dec_digits[of n] by auto
  show ?thesis
    using ns assms unfolding c_strtoull_def dw by (simp add: tw dec_val)
qed

lemma memtoull_unit:
  assumes u: "(map c_tolower u, k) \<in> set mem_units" and n: "n \<le> ULLMAX"
  shows "memtoull (dec n @ u) = Some (n * k mod 2 ^ 64)"
proof -
  have h: "hd (dec n @ u) \<noteq> 45"
    using dec_hd_digit[of n] by (auto simp: c_isdigit_def word_le_nat_alt)
  have "length (dec n) \<le> 20" using length_dec_le[of n 19] n by simp
  then show ?thesis
    using u h takeWhile_dec_unit[OF u, of n] c_strtoull_dec[OF n]
    unfolding memtoull_def c_strcaseeq_def
    by (auto simp: mem_units_def c_tolower_def Let_def word_le_nat_alt)
qed

section \<open>Properties\<close>

text \<open>
  (C16) \<open>string2ll\<close> accepts a string exactly when it is the canonical decimal representation
  of an integer that fits a \<open>long long\<close>, and then returns that integer: no sign but a minus,
  no leading zeros, no \<open>-0\<close>, no spaces, no overflow.
\<close>

theorem string2ll_iff_canonical:
  "string2ll s = Some v \<longleftrightarrow> s = dec_int v \<and> LLONG_MIN \<le> v \<and> v \<le> LLONG_MAX"
  by (rule string2ll_iff)

text \<open>
  (C17) \<open>ll2string\<close> never writes outside the \<open>dstlen\<close> bytes it is given. If the
  representation and its terminator fit, it writes exactly them and returns the length; otherwise it
  returns 0. What it wrote reads back to the same number with \<open>string2ll\<close>.
\<close>

theorem ll2string_correct:
  assumes "dst + dstlen \<le> length m" "LLONG_MIN \<le> v" "v \<le> LLONG_MAX"
  shows "\<exists>m' n. ll2string m (int dst) dstlen v = Some (m', n) \<and> length m' = length m \<and>
    take dst m' = take dst m \<and> drop (dst + dstlen) m' = drop (dst + dstlen) m \<and>
    (if length (dec_int v) < dstlen
     then n = length (dec_int v) \<and> take (n + 1) (drop dst m') = dec_int v @ [0] \<and>
          string2ll (take n (drop dst m')) = Some v
     else n = 0)"
proof (cases "length (dec_int v) < dstlen")
  case True
  have "string2ll (dec_int v) = Some v"
    using assms by (simp add: string2ll_iff)
  moreover obtain k where "dstlen = Suc (length (dec_int v) + k)"
    using True less_imp_Suc_add by blast
  ultimately show ?thesis
    using ll2string_ok[OF assms(1) True] assms(1) by (simp add: add.commute add.left_commute)
next
  case False
  then show ?thesis using ll2string_short[OF assms(1), of v] by auto
qed

theorem ll2string_correct_witness:
  "\<exists>m' n. ll2string (replicate 5 255) (int 1) 4 (-42) = Some (m', n) \<and> n = 3 \<and>
    take 4 (drop 1 m') = [45, 52, 50, 0]"
proof -
  have "dec_int (-42) = [45, 52, 50]" by (simp add: dec_int_def dec_big dec_small)
  then show ?thesis
    using ll2string_correct[of 1 4 "replicate 5 255" "-42"] by auto
qed

text \<open>
  (C18) \<open>memtoull\<close> on a decimal number followed by one of its units, in any case, reports no
  error and returns the product with the unit's multiplier reduced modulo \<open>2^64\<close>: an
  amount that does not fit 64 bits wraps around instead of being rejected.
\<close>

theorem memtoull_units_wrap:
  assumes "(map c_tolower u, k) \<in> set mem_units" "n \<le> ULLMAX"
  shows "memtoull (dec n @ u) = Some (n * k mod 2 ^ 64)"
  using assms by (rule memtoull_unit)

theorem memtoull_units_wrap_witness:
  "memtoull (dec 17179869184 @ [71, 66]) = Some 0 \<and> memtoull (dec 2 @ [107]) = Some 2000"
  using memtoull_units_wrap[of "[71, 66]" 1073741824 17179869184] memtoull_units_wrap[of "[107]" 1000 2]
  by (simp add: mem_units_def c_tolower_def word_le_nat_alt)

end
