(* ===== verification/Util_Glob.thy ===== *)
theory Util_Glob
  imports Util_Numbers "HOL-Library.Sublist"
begin

text \<open>
  The glob matcher of \<open>util.c\<close>: \<open>stringmatchlen_impl\<close>, \<open>stringmatchlen\<close> and
  \<open>stringmatch\<close>. The pair \<open>pattern, patternLen\<close> is the list of the remaining pattern
  bytes and \<open>string, stringLen\<close> that of the remaining string. The code reads
  \<open>pattern[0]\<close> also where \<open>patternLen\<close> is 0; there it finds the terminating zero
  byte of the string, which \<open>pat0\<close> returns.

  The lemmas compare the matcher with the meaning of glob patterns, given on their abstract syntax:
  a pattern is read into a list of elements, and an element says which characters it stands for. The early
  exit through \<open>skipLongerMatches\<close> never changes the answer on a non-empty string, and an
  empty string is where the code differs from the meaning.
\<close>

section \<open>Definitions\<close>

abbreviation (input) CH_STAR :: byte where "CH_STAR \<equiv> 42"
abbreviation (input) CH_DASH :: byte where "CH_DASH \<equiv> 45"
abbreviation (input) CH_QUEST :: byte where "CH_QUEST \<equiv> 63"
abbreviation (input) CH_LBRACK :: byte where "CH_LBRACK \<equiv> 91"
abbreviation (input) CH_BSLASH :: byte where "CH_BSLASH \<equiv> 92"
abbreviation (input) CH_RBRACK :: byte where "CH_RBRACK \<equiv> 93"
abbreviation (input) CH_CARET :: byte where "CH_CARET \<equiv> 94"

text \<open>\<open>pattern[0]\<close> and \<open>pattern[1]\<close>.\<close>

definition pat0 :: "bytes \<Rightarrow> byte" where
  "pat0 p = (case p of [] \<Rightarrow> 0 | c # _ \<Rightarrow> c)"

definition pat1 :: "bytes \<Rightarrow> byte" where
  "pat1 p = pat0 (tl p)"

definition char_eq :: "bool \<Rightarrow> byte \<Rightarrow> byte \<Rightarrow> bool" where
  "char_eq nocase a b = (if \<not> nocase then a = b else c_tolower a = c_tolower b)"

text \<open>
  The comparison of a character with a range: \<open>char\<close> is signed on the platforms of the
  model, and the bounds are put in order before they are lowered.
\<close>

definition char_in_range :: "bool \<Rightarrow> byte \<Rightarrow> byte \<Rightarrow> byte \<Rightarrow> bool" where
  "char_in_range nocase a b c =
     (let lo = (if sint a > sint b then b else a);
          hi = (if sint a > sint b then a else b);
          lo' = (if nocase then c_tolower lo else lo);
          hi' = (if nocase then c_tolower hi else hi);
          c' = (if nocase then c_tolower c else c)
      in sint c' \<ge> sint lo' \<and> sint c' \<le> sint hi')"

text \<open>
  The loop over a bracket expression, entered after the opening bracket and the caret. It
  returns whether the character was listed and the pattern after the closing bracket (the empty
  pattern when there is none, where the code steps back once and then forward again).
\<close>

function bracket_loop :: "bool \<Rightarrow> bytes \<Rightarrow> byte \<Rightarrow> bool \<Rightarrow> bool \<times> bytes" where
  "bracket_loop nocase p c m =
     (if pat0 p = CH_BSLASH \<and> length p \<ge> 2 then
        bracket_loop nocase (drop 2 p) c (m \<or> hd (tl p) = c)
      else if pat0 p = CH_RBRACK then (m, tl p)
      else if length p = 0 then (m, [])
      else if length p \<ge> 3 \<and> pat1 p = CH_DASH then
        bracket_loop nocase (drop 3 p) c (m \<or> char_in_range nocase (hd p) (p ! 2) c)
      else bracket_loop nocase (tl p) c (m \<or> char_eq nocase (hd p) c))"
  by pat_completeness auto
termination
  by (relation "measure (\<lambda>(nocase, p, c, m). length p)") auto

declare bracket_loop.simps [simp del]

text \<open>
  One turn of the loop at a pattern that does not start with a star: whether it accepts the
  character, and the pattern that remains.
\<close>

definition match_one :: "bool \<Rightarrow> bytes \<Rightarrow> byte \<Rightarrow> bool \<times> bytes" where
  "match_one nocase p c =
     (if hd p = CH_QUEST then (True, tl p)
      else if hd p = CH_LBRACK then
        (let q = tl p;
             inv = (pat0 q = CH_CARET);
             q' = (if inv then tl q else q);
             (m, rest) = bracket_loop nocase q' c False
         in (if inv then \<not> m else m, rest))
      else
        (let q = (if hd p = CH_BSLASH \<and> length p \<ge> 2 then tl p else p)
         in (char_eq nocase (hd q) c, tl q)))"

text \<open>\<open>while (patternLen && pattern[1] == '*')\<close> and \<open>while (*pattern == '*')\<close>.\<close>

fun skip_stars :: "bytes \<Rightarrow> bytes" where
  "skip_stars (a # b # p) = (if b = CH_STAR then skip_stars (b # p) else a # b # p)"
| "skip_stars p = p"

definition strip_stars :: "bytes \<Rightarrow> bytes" where
  "strip_stars p = dropWhile (\<lambda>c. c = CH_STAR) p"

text \<open>Each pattern element uses up pattern bytes, which the recursion below rests on.\<close>

lemma bracket_loop_length: "length (snd (bracket_loop nocase p c m)) \<le> length p - 1"
proof (induction nocase p c m rule: bracket_loop.induct)
  case (1 nocase p c m)
  show ?case
    using 1 by (subst bracket_loop.simps) (auto simp: pat0_def split: list.splits)
qed

lemma match_one_length: "p \<noteq> [] \<Longrightarrow> length (snd (match_one nocase p c)) < length p"
  using bracket_loop_length[of nocase "tl p" c False] bracket_loop_length[of nocase "tl (tl p)" c False]
  by (cases p) (auto simp: match_one_def Let_def pat0_def split: prod.splits list.splits)

lemma skip_stars_length: "length (skip_stars p) \<le> length p"
  by (induction p rule: skip_stars.induct) auto

text \<open>
  The matcher; the pair is the return value and \<open>*skipLongerMatches\<close>. The loop over the
  string after a star is \<open>star_loop\<close>, whose pattern is the one after the star.
\<close>

function stringmatchlen_impl :: "bool \<Rightarrow> bytes \<Rightarrow> bytes \<Rightarrow> bool \<Rightarrow> bool \<times> bool"
  and star_loop :: "bool \<Rightarrow> bytes \<Rightarrow> bytes \<Rightarrow> bool \<Rightarrow> bool \<times> bool" where
  "stringmatchlen_impl nocase p s skip =
     (if p \<noteq> [] \<and> s \<noteq> [] then
        (if hd p = CH_STAR then
           (if length (skip_stars p) = 1 then (True, skip)
            else star_loop nocase (tl (skip_stars p)) s skip)
         else
           (if \<not> fst (match_one nocase p (hd s)) then (False, skip)
            else if tl s = [] then (strip_stars (snd (match_one nocase p (hd s))) = [], skip)
            else stringmatchlen_impl nocase (snd (match_one nocase p (hd s))) (tl s) skip))
      else (p = [] \<and> s = [], skip))"
| "star_loop nocase q s skip =
     (if s \<noteq> [] then
        (let (r, skip') = stringmatchlen_impl nocase q s skip
         in if r then (True, skip')
            else if skip' then (False, skip')
            else star_loop nocase q (tl s) skip')
      else (False, True))"
  by pat_completeness auto
termination
proof (relation "measures [\<lambda>x. case x of Inl (n, p, s, k) \<Rightarrow> length p | Inr (n, q, s, k) \<Rightarrow> length q,
    \<lambda>x. case x of Inl (n, p, s, k) \<Rightarrow> length s | Inr (n, q, s, k) \<Rightarrow> length s,
    \<lambda>x. case x of Inl _ \<Rightarrow> 0 | Inr _ \<Rightarrow> 1]", goal_cases)
  case 1
  then show ?case by simp
next
  case (2 nocase p s skip)
  have "length (tl (skip_stars p)) < length p"
    using skip_stars_length[of p] 2 by (cases p) (auto simp: le_less_trans)
  then show ?case by simp
next
  case (3 nocase p s skip)
  then show ?case using match_one_length[of p nocase "hd s"] by simp
qed simp_all

declare stringmatchlen_impl.simps [simp del] star_loop.simps [simp del]

definition stringmatchlen :: "bytes \<Rightarrow> bytes \<Rightarrow> bool \<Rightarrow> bool" where
  "stringmatchlen p s nocase = fst (stringmatchlen_impl nocase p s False)"

text \<open>\<open>stringmatch\<close> takes terminated strings: what \<open>strlen\<close> counts.\<close>

definition c_str :: "bytes \<Rightarrow> bytes" where
  "c_str s = takeWhile (\<lambda>c. c \<noteq> 0) s"

definition stringmatch :: "bytes \<Rightarrow> bytes \<Rightarrow> bool \<Rightarrow> bool" where
  "stringmatch p s nocase = stringmatchlen (c_str p) (c_str s) nocase"

section \<open>Without the early exit\<close>

text \<open>
  An intermediate step of the proof: the turns of the loop with a plain search after a star.
\<close>

function glob_steps :: "bool \<Rightarrow> bytes \<Rightarrow> bytes \<Rightarrow> bool" where
  "glob_steps nocase p s =
     (if p = [] then s = []
      else if hd p = CH_STAR then
        (if glob_steps nocase (tl p) s then True else if s = [] then False else glob_steps nocase p (tl s))
      else if s = [] then False
      else if fst (match_one nocase p (hd s)) then glob_steps nocase (snd (match_one nocase p (hd s))) (tl s)
      else False)"
  by pat_completeness auto
termination
proof (relation "measure (\<lambda>(n, p, s). length p + length s)", goal_cases)
  case (4 nocase p s)
  then show ?case using match_one_length[of p nocase "hd s"] by (cases s) auto
qed (auto simp: neq_Nil_conv)

declare glob_steps.simps [simp del]

section \<open>The early exit is sound\<close>

lemma glob_Nil [simp]: "glob_steps nocase [] s = (s = [])"
  by (subst glob_steps.simps) simp

lemma glob_star: "glob_steps nocase (CH_STAR # p) s \<longleftrightarrow> (\<exists>i. glob_steps nocase p (drop i s))"
proof (induction s)
  case Nil
  then show ?case by (subst glob_steps.simps) simp
next
  case (Cons c s)
  have "glob_steps nocase (CH_STAR # p) (c # s) \<longleftrightarrow> glob_steps nocase p (c # s) \<or> glob_steps nocase (CH_STAR # p) s"
    by (subst glob_steps.simps) simp
  also have "\<dots> \<longleftrightarrow> (\<exists>i. glob_steps nocase p (drop i (c # s)))"
    unfolding Cons.IH by (metis drop0 drop_Suc_Cons not0_implies_Suc)
  finally show ?case .
qed

lemma glob_one_Nil [simp]: "p \<noteq> [] \<Longrightarrow> hd p \<noteq> CH_STAR \<Longrightarrow> \<not> glob_steps nocase p []"
  by (subst glob_steps.simps) simp

lemma glob_one: "p \<noteq> [] \<Longrightarrow> hd p \<noteq> CH_STAR \<Longrightarrow>
    glob_steps nocase p (c # s) \<longleftrightarrow> fst (match_one nocase p c) \<and> glob_steps nocase (snd (match_one nocase p c)) s"
  by (subst glob_steps.simps) simp

lemma glob_strip_stars: "glob_steps nocase p [] \<longleftrightarrow> strip_stars p = []"
  by (induction p) (auto simp: strip_stars_def glob_star)

lemma glob_skip_stars: "p \<noteq> [] \<Longrightarrow> hd p = CH_STAR \<Longrightarrow> glob_steps nocase (skip_stars p) s = glob_steps nocase p s"
proof (induction p rule: skip_stars.induct)
  case (1 a b p)
  have "glob_steps nocase (CH_STAR # CH_STAR # p) s = glob_steps nocase (CH_STAR # p) s"
    unfolding glob_star drop_drop by (metis add.commute add_0)
  then show ?case using 1 by auto
qed auto

lemma skip_stars_hd: "p \<noteq> [] \<Longrightarrow> hd p = CH_STAR \<Longrightarrow>
    skip_stars p = [CH_STAR] \<or> (\<exists>q. skip_stars p = CH_STAR # q \<and> q \<noteq> [] \<and> hd q \<noteq> CH_STAR)"
  by (induction p rule: skip_stars.induct) auto

text \<open>The rest of the pattern after one element does not depend on the character.\<close>

lemma bracket_loop_rest: "snd (bracket_loop nocase p c m) = snd (bracket_loop nocase p c' m')"
proof (induction nocase p c m arbitrary: m' rule: bracket_loop.induct)
  case (1 nocase p c m)
  show ?case
    by (subst (1 2) bracket_loop.simps) (simp add: 1)
qed

lemma match_one_rest: "snd (match_one nocase p c) = snd (match_one nocase p c')"
  using bracket_loop_rest[of nocase "tl p" c False c' False]
    bracket_loop_rest[of nocase "tl (tl p)" c False c' False]
  by (auto simp: match_one_def Let_def split: prod.splits)

text \<open>
  When the rest of a pattern matches no suffix of the rest of the string, the whole pattern
  matches no suffix of the whole string: what makes giving up early sound.
\<close>

lemma no_suffix_one:
  assumes "p \<noteq> []" "hd p \<noteq> CH_STAR"
    and "\<And>i. \<not> glob_steps nocase (snd (match_one nocase p c)) (drop i s)"
  shows "\<not> glob_steps nocase p (drop i (c # s))"
proof (cases "drop i (c # s)")
  case Nil
  then show ?thesis using assms by simp
next
  case (Cons d t)
  have "t = drop i s"
    using Cons by (metis drop_Suc_Cons list.sel(3) tl_drop drop_Suc)
  then show ?thesis
    using assms(3)[of i] match_one_rest[of nocase p c d] by (simp add: Cons glob_one assms(1,2))
qed

text \<open>
  What the induction shows of a result \<open>(r, sk)\<close> on \<open>s\<close>, for the language
  \<open>M\<close> of strings to be found: \<open>r\<close> is the answer of the reference, and \<open>sk\<close>
  is only set when no suffix of \<open>s\<close> matches.
\<close>

definition sound_result :: "bool \<Rightarrow> (bytes \<Rightarrow> bool) \<Rightarrow> bytes \<Rightarrow> bool \<times> bool \<Rightarrow> bool" where
  "sound_result ans M s res \<longleftrightarrow> fst res = ans \<and> (snd res \<longrightarrow> (\<forall>i. \<not> M (drop i s)))"

lemma impl_star_sound:
  assumes "p \<noteq> []" "hd p = CH_STAR" "s \<noteq> []"
    and rec: "\<And>q. skip_stars p = CH_STAR # q \<Longrightarrow> q \<noteq> [] \<Longrightarrow> hd q \<noteq> CH_STAR \<Longrightarrow>
      sound_result (\<exists>i. glob_steps nocase q (drop i s)) (glob_steps nocase q) s (star_loop nocase q s False)"
  shows "sound_result (glob_steps nocase p s) (glob_steps nocase p) s (stringmatchlen_impl nocase p s False)"
  using skip_stars_hd[OF assms(1,2)]
proof (elim disjE exE conjE)
  assume sing: "skip_stars p = [CH_STAR]"
  have "glob_steps nocase p s"
    unfolding glob_skip_stars[OF assms(1,2), of nocase, symmetric] sing glob_star
    by (rule exI[of _ "length s"]) simp
  then show ?thesis
    using sing assms by (simp add: stringmatchlen_impl.simps[of _ p] sound_result_def)
next
  fix q assume q: "skip_stars p = CH_STAR # q" "q \<noteq> []" "hd q \<noteq> CH_STAR"
  have "glob_steps nocase p = glob_steps nocase (CH_STAR # q)"
    using glob_skip_stars[OF assms(1,2)] q(1) by fastforce
  then show ?thesis
    using q assms(1-3) rec[OF q]
    by (auto simp: stringmatchlen_impl.simps[of _ p] sound_result_def glob_star)
qed

lemma impl_one_sound:
  assumes "p \<noteq> []" "hd p \<noteq> CH_STAR"
    and rec: "fst (match_one nocase p c) \<Longrightarrow> t \<noteq> [] \<Longrightarrow>
      sound_result (glob_steps nocase (snd (match_one nocase p c)) t) (glob_steps nocase (snd (match_one nocase p c))) t
        (stringmatchlen_impl nocase (snd (match_one nocase p c)) t False)"
  shows "sound_result (glob_steps nocase p (c # t)) (glob_steps nocase p) (c # t)
    (stringmatchlen_impl nocase p (c # t) False)"
proof (cases "fst (match_one nocase p c) \<and> t \<noteq> []")
  case True
  then show ?thesis
    using rec no_suffix_one[OF assms(1,2)] assms(1,2)
    by (auto simp: stringmatchlen_impl.simps[of _ p] sound_result_def glob_one)
next
  case False
  then show ?thesis
    using assms(1,2)
    by (auto simp: stringmatchlen_impl.simps[of _ p] sound_result_def glob_one glob_strip_stars)
qed

lemma star_loop_sound:
  assumes here: "sound_result (glob_steps nocase q (c # t)) (glob_steps nocase q) (c # t)
      (stringmatchlen_impl nocase q (c # t) False)"
    and rec: "stringmatchlen_impl nocase q (c # t) False = (False, False) \<Longrightarrow>
      sound_result (\<exists>i. glob_steps nocase q (drop i t)) (glob_steps nocase q) t (star_loop nocase q t False)"
  shows "sound_result (\<exists>i. glob_steps nocase q (drop i (c # t))) (glob_steps nocase q) (c # t)
    (star_loop nocase q (c # t) False)"
proof -
  obtain r1 k1 where r1: "stringmatchlen_impl nocase q (c # t) False = (r1, k1)"
    by fastforce
  have step: "star_loop nocase q (c # t) False =
      (if r1 then (True, k1) else if k1 then (False, k1) else star_loop nocase q t False)"
    using r1 by (subst star_loop.simps) simp
  have split: "(\<exists>i. glob_steps nocase q (drop i (c # t))) \<longleftrightarrow>
      glob_steps nocase q (c # t) \<or> (\<exists>i. glob_steps nocase q (drop i t))"
    by (metis drop0 drop_Suc_Cons not0_implies_Suc)
  show ?thesis
  proof (cases "\<not> r1 \<and> \<not> k1")
    case True
    then show ?thesis
      using here rec step split by (auto simp: sound_result_def r1)
  next
    case False
    then show ?thesis
      using here split unfolding step sound_result_def r1 by auto
  qed
qed

lemma stringmatchlen_impl_glob:
  "\<not> skip \<Longrightarrow> s \<noteq> [] \<Longrightarrow>
     sound_result (glob_steps nocase p s) (glob_steps nocase p) s (stringmatchlen_impl nocase p s skip)"
  "\<not> skip \<Longrightarrow> q \<noteq> [] \<Longrightarrow> hd q \<noteq> CH_STAR \<Longrightarrow>
     sound_result (\<exists>i. glob_steps nocase q (drop i s)) (glob_steps nocase q) s (star_loop nocase q s skip)"
proof (induction nocase p s skip and nocase q s skip rule: stringmatchlen_impl_star_loop.induct)
  case (1 nocase p s skip)
  obtain c t where s: "s = c # t" using 1(4) by (cases s) auto
  consider (nil) "p = []" | (star) "p \<noteq> []" "hd p = CH_STAR" | (one) "p \<noteq> []" "hd p \<noteq> CH_STAR"
    by blast
  then show ?case
  proof cases
    case nil
    then show ?thesis
      using 1(3,4) by (simp add: stringmatchlen_impl.simps[of _ "[]"] sound_result_def)
  next
    case star
    then show ?thesis using 1(1) 1(3,4) by (auto intro!: impl_star_sound)
  next
    case one
    then show ?thesis using 1(2) 1(3) s by (auto intro!: impl_one_sound)
  qed
next
  case (2 nocase q s skip)
  show ?case
  proof (cases s)
    case Nil
    then show ?thesis using 2(4,5) by (simp add: star_loop.simps[of _ _ "[]"] sound_result_def)
  next
    case (Cons c t)
    then show ?thesis
      using 2(1)[OF _ 2(3)] 2(2)[OF _ refl] 2(3-5)
      by (auto intro!: star_loop_sound)
  qed
qed

section \<open>The meaning of glob patterns\<close>

text \<open>
  The abstract syntax. A bracket expression lists characters, escaped characters and ranges.
\<close>

datatype glob_item = GChar byte | GEscaped byte | GRange byte byte

datatype glob_elem = GStar | GAny | GLiteral byte | GBracket bool "glob_item list"

text \<open>
  Which characters an item and an element stand for. Without regard to case a letter stands for both
  of its cases, except where it is escaped in a bracket expression. The bounds of a range can be in
  either order; characters are compared as signed bytes.
\<close>

definition ascii_fold :: "bool \<Rightarrow> byte \<Rightarrow> byte" where
  "ascii_fold nocase c = (if nocase \<and> c \<in> {65..90} then c + 32 else c)"

fun item_accepts :: "bool \<Rightarrow> glob_item \<Rightarrow> byte \<Rightarrow> bool" where
  "item_accepts nocase (GChar a) c = (ascii_fold nocase a = ascii_fold nocase c)"
| "item_accepts nocase (GEscaped a) c = (a = c)"
| "item_accepts nocase (GRange a b) c =
     (let lo = (if sint a \<le> sint b then a else b); hi = (if sint a \<le> sint b then b else a)
      in sint (ascii_fold nocase c) \<in> {sint (ascii_fold nocase lo)..sint (ascii_fold nocase hi)})"

fun elem_accepts :: "bool \<Rightarrow> glob_elem \<Rightarrow> byte \<Rightarrow> bool" where
  "elem_accepts nocase GStar c = False"
| "elem_accepts nocase GAny c = True"
| "elem_accepts nocase (GLiteral a) c = (ascii_fold nocase a = ascii_fold nocase c)"
| "elem_accepts nocase (GBracket negated items) c =
     (negated \<noteq> list_ex (\<lambda>i. item_accepts nocase i c) items)"

text \<open>A star stands for any string, every other element for one character.\<close>

fun glob_match :: "bool \<Rightarrow> glob_elem list \<Rightarrow> bytes \<Rightarrow> bool" where
  "glob_match nocase [] s = (s = [])"
| "glob_match nocase (e # es) s =
     (if e = GStar then list_ex (\<lambda>u. glob_match nocase es u) (suffixes s)
      else case s of [] \<Rightarrow> False | c # t \<Rightarrow> elem_accepts nocase e c \<and> glob_match nocase es t)"

text \<open>
  The concrete syntax. A backslash quotes the next byte, and stands for itself at the end. A bracket
  expression ends at the first bracket that is not quoted or the end of a range, or with the pattern.
\<close>

fun parse_items :: "bytes \<Rightarrow> glob_item list \<times> bytes" where
  "parse_items [] = ([], [])"
| "parse_items [a] = (if a = CH_RBRACK then ([], []) else ([GChar a], []))"
| "parse_items [a, b] =
     (if a = CH_BSLASH then ([GEscaped b], [])
      else if a = CH_RBRACK then ([], [b])
      else apfst (Cons (GChar a)) (parse_items [b]))"
| "parse_items (a # b # c # p) =
     (if a = CH_BSLASH then apfst (Cons (GEscaped b)) (parse_items (c # p))
      else if a = CH_RBRACK then ([], b # c # p)
      else if b = CH_DASH then apfst (Cons (GRange a c)) (parse_items p)
      else apfst (Cons (GChar a)) (parse_items (b # c # p)))"

definition parse_elem :: "byte \<Rightarrow> bytes \<Rightarrow> glob_elem \<times> bytes" where
  "parse_elem a p =
     (if a = CH_STAR then (GStar, p)
      else if a = CH_QUEST then (GAny, p)
      else if a = CH_LBRACK then
        (case p of
           [] \<Rightarrow> (GBracket False [], [])
         | b # q \<Rightarrow> if b = CH_CARET then apfst (GBracket True) (parse_items q)
                  else apfst (GBracket False) (parse_items p))
      else if a = CH_BSLASH then (case p of [] \<Rightarrow> (GLiteral a, []) | b # q \<Rightarrow> (GLiteral b, q))
      else (GLiteral a, p))"

lemma parse_items_length: "length (snd (parse_items p)) \<le> length p"
  by (induction p rule: parse_items.induct) auto

lemma parse_elem_length: "length (snd (parse_elem a p)) \<le> length p"
  using parse_items_length[of p] parse_items_length[of "tl p"]
  by (auto simp: parse_elem_def split: list.splits)

function glob_parse :: "bytes \<Rightarrow> glob_elem list" where
  "glob_parse [] = []"
| "glob_parse (a # p) = fst (parse_elem a p) # glob_parse (snd (parse_elem a p))"
  by pat_completeness auto
termination
  by (relation "measure length") (auto simp: le_imp_less_Suc parse_elem_length)

lemma char_eq_fold: "char_eq nocase a c = (ascii_fold nocase a = ascii_fold nocase c)"
  by (simp add: char_eq_def ascii_fold_def c_tolower_def)

lemma range_fold: "char_in_range nocase a b c = item_accepts nocase (GRange a b) c"
  by (auto simp: char_in_range_def ascii_fold_def c_tolower_def Let_def)

lemma bracket_loop_items:
  "bracket_loop nocase p c m =
     (m \<or> list_ex (\<lambda>i. item_accepts nocase i c) (fst (parse_items p)), snd (parse_items p))"
proof (induction p arbitrary: m rule: parse_items.induct)
  case 1
  show ?case by (subst bracket_loop.simps) (simp add: pat0_def)
next
  case (2 a)
  have e: "bracket_loop nocase [] c m' = (m', [])" for m' by (subst bracket_loop.simps) (simp add: pat0_def)
  show ?case by (subst bracket_loop.simps) (auto simp: pat0_def pat1_def e char_eq_fold)
next
  case (3 a b)
  have e: "bracket_loop nocase [] c m' = (m', [])" for m' by (subst bracket_loop.simps) (simp add: pat0_def)
  show ?case using 3 by (subst bracket_loop.simps) (auto simp: pat0_def pat1_def e char_eq_fold)
next
  case (4 a b d p)
  show ?case using 4 by (subst bracket_loop.simps) (auto simp: pat0_def pat1_def char_eq_fold range_fold simp del: item_accepts.simps(3))
qed

lemma match_one_elem:
  assumes "a \<noteq> CH_STAR"
  shows "match_one nocase (a # p) c = (elem_accepts nocase (fst (parse_elem a p)) c, snd (parse_elem a p))"
  using assms by (cases p) (auto simp: match_one_def parse_elem_def pat0_def bracket_loop_items char_eq_fold Let_def)

lemma parse_elem_star: "fst (parse_elem a p) = GStar \<longleftrightarrow> a = CH_STAR"
  by (auto simp: parse_elem_def split: list.splits)

lemma list_ex_suffixes: "list_ex P (suffixes s) \<longleftrightarrow> (\<exists>i. P (drop i s))"
proof
  assume "list_ex P (suffixes s)"
  then obtain u zs where "P u" "s = zs @ u" by (auto simp: list_ex_iff suffix_def)
  then have "P (drop (length zs) s)" by simp
  then show "\<exists>i. P (drop i s)" ..
next
  assume "\<exists>i. P (drop i s)"
  then obtain i where "P (drop i s)" by blast
  moreover have "drop i s \<in> set (suffixes s)" by (simp add: suffix_drop)
  ultimately show "list_ex P (suffixes s)" unfolding list_ex_iff by blast
qed

lemma glob_steps_match: "glob_steps nocase p s = glob_match nocase (glob_parse p) s"
proof (induction p arbitrary: s rule: glob_parse.induct)
  case 1
  show ?case by simp
next
  case (2 a p)
  show ?case
  proof (cases "a = CH_STAR")
    case True
    then have "parse_elem a p = (GStar, p)" by (simp add: parse_elem_def)
    then show ?thesis using 2 True by (simp add: glob_star list_ex_suffixes)
  next
    case False
    then show ?thesis using 2 parse_elem_star[of a p]
      by (cases s) (simp_all add: glob_one match_one_elem)
  qed
qed

section \<open>Printing patterns\<close>










section \<open>Properties\<close>

text \<open>
  (C19) The matcher, with its star loop, its bracket loop and its early exit through
  \<open>skipLongerMatches\<close>, accepts a non-empty string exactly when the string matches the elements
  that the pattern denotes, with and without regard to case. The empty string is accepted for the empty
  pattern only, although the pattern \<open>*\<close> stands for every string.
\<close>

theorem stringmatchlen_glob:
  "stringmatchlen p s nocase = (if s = [] then p = [] else glob_match nocase (glob_parse p) s)"
proof (cases "s = []")
  case True
  then show ?thesis by (simp add: stringmatchlen_def stringmatchlen_impl.simps[of _ _ "[]"])
next
  case False
  then show ?thesis
    using stringmatchlen_impl_glob(1)[of False s nocase p]
    by (simp add: stringmatchlen_def sound_result_def glob_steps_match)
qed



end
