(* ===== verification/Dict_Inv.thy ===== *)
theory Dict_Inv
  imports Dict
begin

text \<open>
  The invariant of the two tables of a dictionary and the proofs that rehashing, searching and
  growing keep it together with the entries. \<open>dict_bag\<close> is the multiset of entries of
  both tables, \<open>rehash_inv\<close> describes the tables in the middle of a rehashing, and
  \<open>dict_inv\<close> adds that no two entries have matching keys.
\<close>

section \<open>The contents of a dictionary\<close>

text \<open>The entries of a table and of a dictionary, as multisets.\<close>

definition table_bag :: "('k, 'v) dictEntry list \<Rightarrow> ('k \<times> 'v option) multiset" where
  "table_bag tbl = mset (concat (map chain_kvs tbl))"

definition dict_bag :: "('k, 'v) dict \<Rightarrow> ('k \<times> 'v option) multiset" where
  "dict_bag d = table_bag (ht_table (ht0 d)) + table_bag (ht_table (ht1 d))"

lemma table_bag_simps [simp]:
  "table_bag [] = {#}"
  "table_bag (de # tbl) = mset (chain_kvs de) + table_bag tbl"
  "table_bag (tbl @ tbl') = table_bag tbl + table_bag tbl'"
  "table_bag (replicate n DNull) = {#}"
  by (simp_all add: table_bag_def)

lemma table_bag_split:
  "i < length tbl \<Longrightarrow> table_bag tbl = mset (chain_kvs (tbl ! i)) + (table_bag (take i tbl) + table_bag (drop (Suc i) tbl))"
  by (subst id_take_nth_drop[of i tbl]) simp_all

lemma table_bag_update:
  assumes "i < length tbl"
  shows "table_bag (tbl[i := de]) =
    mset (chain_kvs de) + (table_bag (take i tbl) + table_bag (drop (Suc i) tbl))"
  using assms by (simp add: upd_conv_take_nth_drop)

lemma table_bag_put:
  assumes "i < length tbl" "mset (chain_kvs de) = mset xs + mset (chain_kvs (tbl ! i))"
  shows "table_bag (tbl[i := de]) = mset xs + table_bag tbl"
  unfolding table_bag_update[OF assms(1)] table_bag_split[OF assms(1)] assms(2)
  by simp

lemma table_bag_take_out:
  assumes "i < length tbl" "mset (chain_kvs (tbl ! i)) = mset xs + mset (chain_kvs de)"
  shows "table_bag tbl = mset xs + table_bag (tbl[i := de])"
  unfolding table_bag_update[OF assms(1)] table_bag_split[OF assms(1)] assms(2)
  by simp

lemma in_table_bag: "x \<in># table_bag tbl \<longleftrightarrow> (\<exists>i < length tbl. x \<in> set (chain_kvs (tbl ! i)))"
  unfolding table_bag_def by (auto simp: in_set_conv_nth) (metis in_set_conv_nth nth_mem)+

lemma table_bag_empty: "table_bag tbl = {#} \<longleftrightarrow> (\<forall>i < length tbl. tbl ! i = DNull)"
proof -
  have "chain_kvs de = [] \<longleftrightarrow> de = DNull" for de :: "('a, 'b) dictEntry" by (cases de) auto
  then show ?thesis
    unfolding table_bag_def by (auto simp: in_set_conv_nth) (metis nth_mem)
qed

section \<open>The invariant\<close>

text \<open>
  What the callbacks of a dictionary type promise: keys that match have the same hash, matching
  is symmetric and transitive, a copy of a key matches it, and where keys are stored in the
  buckets they are odd pointers.
\<close>

definition dictType_ok :: "('k, 'v) dictType \<Rightarrow> bool" where
  "dictType_ok t \<longleftrightarrow>
     (\<forall>a b. key_match t a b \<longrightarrow> key_match t b a \<and> hashFunction t a = hashFunction t b) \<and>
     (\<forall>a b c. key_match t a b \<longrightarrow> key_match t b c \<longrightarrow> key_match t a c) \<and>
     (\<forall>f k. keyDup t = Some f \<longrightarrow> key_match t k (f k)) \<and>
     (no_value t \<and> keys_are_odd t \<longrightarrow> (\<forall>k. key_is_odd t k))"

lemma dictType_okD:
  assumes "dictType_ok t"
  shows "key_match t a b \<Longrightarrow> key_match t b a"
    and "key_match t a b \<Longrightarrow> hashFunction t a = hashFunction t b"
    and "key_match t a b \<Longrightarrow> key_match t b c \<Longrightarrow> key_match t a c"
    and "keyDup t = Some f \<Longrightarrow> key_match t k (f k)"
    and "no_value t \<Longrightarrow> keys_are_odd t \<Longrightarrow> key_is_odd t k"
  using assms unfolding dictType_ok_def by blast+

lemma key_match_refl [simp]: "key_match t k k"
  by (simp add: key_match_def)

text \<open>The kinds of entry that may stand in a chain, and the bucket that its keys belong to.\<close>

fun chain_typed :: "('k, 'v) dictType \<Rightarrow> ('k, 'v) dictEntry \<Rightarrow> bool" where
  "chain_typed t DNull = True"
| "chain_typed t (DKey k) = (no_value t \<and> keys_are_odd t)"
| "chain_typed t (DNoValue k nxt) = (no_value t \<and> chain_typed t nxt)"
| "chain_typed t (DNormal k v nxt) = (\<not> no_value t \<and> chain_typed t nxt)"

definition cell_ok :: "('k, 'v) dictType \<Rightarrow> u64 \<Rightarrow> nat \<Rightarrow> ('k, 'v) dictEntry \<Rightarrow> bool" where
  "cell_ok t m i de \<longleftrightarrow>
     chain_typed t de \<and> (\<forall>x \<in> set (chain_kvs de). unat (hashFunction t (fst x) AND m) = i)"

definition cells_ok :: "('k, 'v) dictType \<Rightarrow> int \<Rightarrow> ('k, 'v) dictEntry list \<Rightarrow> bool" where
  "cells_ok t e tbl \<longleftrightarrow>
     length tbl = DICTHT_SIZE e \<and>
     (\<forall>i < length tbl. cell_ok t (DICTHT_SIZE_MASK e) i (tbl ! i))"

definition ht_alloc :: "('k, 'v) dictType \<Rightarrow> ('k, 'v) dictht \<Rightarrow> bool" where
  "ht_alloc t h \<longleftrightarrow>
     0 \<le> ht_size_exp h \<and> ht_size_exp h \<le> 60 \<and> cells_ok t (ht_size_exp h) (ht_table h) \<and>
     ht_used h = size (table_bag (ht_table h))"

text \<open>The tables in the middle of a rehashing.\<close>

definition rehash_inv :: "('k, 'v) dictType \<Rightarrow> ('k, 'v) dict \<Rightarrow> bool" where
  "rehash_inv t d \<longleftrightarrow>
     ht_alloc t (ht0 d) \<and> ht_alloc t (ht1 d) \<and> ht_size_exp (ht0 d) \<noteq> ht_size_exp (ht1 d) \<and>
     0 \<le> rehashidx d \<and>
     (\<forall>i < length (ht_table (ht0 d)). int i < rehashidx d \<longrightarrow> ht_table (ht0 d) ! i = DNull)"

definition keys_unique :: "('k, 'v) dictType \<Rightarrow> ('k \<times> 'v option) multiset \<Rightarrow> bool" where
  "keys_unique t M \<longleftrightarrow> (\<forall>k. size (filter_mset (\<lambda>x. key_match t k (fst x)) M) \<le> 1)"

definition tables_inv :: "('k, 'v) dictType \<Rightarrow> ('k, 'v) dict \<Rightarrow> bool" where
  "tables_inv t d \<longleftrightarrow>
     (if dictIsRehashing d then rehash_inv t d
      else (ht_alloc t (ht0 d) \<or> ht0 d = u_dictReset) \<and> ht1 d = u_dictReset)"

definition dict_inv :: "('k, 'v) dictType \<Rightarrow> ('k, 'v) dict \<Rightarrow> bool" where
  "dict_inv t d \<longleftrightarrow> tables_inv t d \<and> keys_unique t (dict_bag d)"

section \<open>Masks and bucket indices\<close>

lemma DICTHT_SIZE_nonneg: "0 \<le> e \<Longrightarrow> DICTHT_SIZE e = 2 ^ nat e"
  by (simp add: DICTHT_SIZE_def)

lemma DICTHT_SIZE_MASK_mask: "0 \<le> e \<Longrightarrow> DICTHT_SIZE_MASK e = mask (nat e)"
  by (simp add: DICTHT_SIZE_MASK_def DICTHT_SIZE_def mask_eq_decr_exp)

lemma unat_and_mask_less: "n < 64 \<Longrightarrow> unat ((h :: u64) AND mask n) < 2 ^ n"
  by (simp add: take_bit_eq_mask[symmetric] unsigned_take_bit_eq)

lemma hash_idx_less:
  assumes "0 \<le> e" "e \<le> 60"
  shows "unat (h AND DICTHT_SIZE_MASK e) < DICTHT_SIZE e"
  using assms unat_and_mask_less[of "nat e" h]
  by (simp add: DICTHT_SIZE_nonneg DICTHT_SIZE_MASK_mask)

lemma mask_and_mask_le: "m \<le> n \<Longrightarrow> ((h :: u64) AND mask n) AND mask m = h AND mask m"
  by (rule bit_word_eqI) (auto simp: bit_simps)

text \<open>While shrinking, the index in the smaller table is the masked index in the larger one.\<close>

lemma rehash_target:
  assumes "0 \<le> e0" "0 \<le> e1" "e0 \<le> 60"
    and "unat (hash AND DICTHT_SIZE_MASK e0) = idx"
  shows "(if e1 > e0 then hash else of_nat idx) AND DICTHT_SIZE_MASK e1 = hash AND DICTHT_SIZE_MASK e1"
proof (cases "e1 > e0")
  case False
  have "(of_nat idx :: u64) = hash AND DICTHT_SIZE_MASK e0"
    by (simp add: assms(4)[symmetric])
  then show ?thesis
    using False assms by (simp add: DICTHT_SIZE_MASK_mask mask_and_mask_le)
qed simp


section \<open>Rehashing\<close>

lemma rehash_entry_ok:
  assumes t: "dictType_ok t" and de: "chain_typed t de" "dictGetKey de = Some key" "chain_typed t dest"
  shows "\<exists>de'. rehash_entry t de key dest = Some de' \<and> chain_typed t de' \<and>
           chain_kvs de' = hd (chain_kvs de) # chain_kvs dest"
  using de dictType_okD(5)[OF t]
  by (cases de) (auto simp: rehash_entry_def createEntryNoValue_def entryIsKey_def entryIsNoValue_def)

lemma cells_ok_update:
  assumes "cells_ok t e tbl" "i < length tbl" "cell_ok t (DICTHT_SIZE_MASK e) i de"
  shows "cells_ok t e (tbl[i := de])"
  using assms by (auto simp: cells_ok_def nth_list_update)

lemma chain_kvs_key: "dictGetKey de = Some key \<Longrightarrow>
    chain_kvs de = hd (chain_kvs de) # chain_kvs (dictGetNext de) \<and> fst (hd (chain_kvs de)) = key"
  by (cases de) auto

lemma chain_typed_next: "chain_typed t de \<Longrightarrow> chain_typed t (dictGetNext de)"
  by (cases de) auto

lemma cell_ok_next: "cell_ok t m i de \<Longrightarrow> cell_ok t m i (dictGetNext de)"
  by (cases de) (auto simp: cell_ok_def)

lemma rehash_move_ok:
  assumes t: "dictType_ok t" and e: "0 \<le> e0" "e0 \<le> 60" "0 \<le> e1" "e1 \<le> 60"
  shows "cell_ok t (DICTHT_SIZE_MASK e0) idx de \<Longrightarrow> cells_ok t e1 tbl \<Longrightarrow>
      length (chain_kvs de) \<le> used0 \<Longrightarrow>
      \<exists>tbl'. rehash_move t e0 e1 idx de (tbl, used0, used1) =
          Some (tbl', used0 - length (chain_kvs de), used1 + length (chain_kvs de)) \<and>
        cells_ok t e1 tbl' \<and> table_bag tbl' = mset (chain_kvs de) + table_bag tbl"
proof (induction "length (chain_kvs de)" arbitrary: de tbl used0 used1 rule: less_induct)
  case less
  show ?case
  proof (cases "dictGetKey de")
    case None
    then have "de = DNull" by (cases de) auto
    then show ?thesis using less.prems by (simp add: rehash_move.simps)
  next
    case (Some key)
    then have de: "de \<noteq> DNull" by auto
    note kvs = chain_kvs_key[OF Some]
    let ?h = "unat (hashFunction t key AND DICTHT_SIZE_MASK e1)"
    have h: "?h < length tbl"
      using less.prems(2) hash_idx_less[OF e(3,4)] by (simp add: cells_ok_def)
    have "unat (hashFunction t key AND DICTHT_SIZE_MASK e0) = idx"
      using less.prems(1) kvs by (auto simp: cell_ok_def) (metis list.set_intros(1))
    note target = rehash_target[OF e(1) e(3) e(2) this]
    have dest: "cell_ok t (DICTHT_SIZE_MASK e1) ?h (tbl ! ?h)"
      using less.prems(2) h by (simp add: cells_ok_def)
    obtain de' where de': "rehash_entry t de key (tbl ! ?h) = Some de'" "chain_typed t de'"
      "chain_kvs de' = hd (chain_kvs de) # chain_kvs (tbl ! ?h)"
      using rehash_entry_ok[OF t _ Some] less.prems(1) dest unfolding cell_ok_def by blast
    have cells: "cells_ok t e1 (tbl[?h := de'])"
      using less.prems(2) h dest de' kvs by (intro cells_ok_update) (auto simp: cell_ok_def)
    have bag: "table_bag (tbl[?h := de']) = {#hd (chain_kvs de)#} + table_bag tbl"
      using table_bag_put[OF h, of de' "[hd (chain_kvs de)]"] de' by simp
    have len: "length (chain_kvs de) = Suc (length (chain_kvs (dictGetNext de)))"
      using kvs by (metis length_Cons)
    have step: "rehash_move t e0 e1 idx de (tbl, used0, used1) =
        rehash_move t e0 e1 idx (dictGetNext de) (tbl[?h := de'], used0 - 1, used1 + 1)"
      using de Some h de'(1) target len less.prems(3)
      by (subst rehash_move.simps) (simp add: nth_opt_def ul_dec_def)
    have msets: "mset (chain_kvs de) = {#hd (chain_kvs de)#} + mset (chain_kvs (dictGetNext de))"
      using kvs by (metis mset.simps(2) add_mset_add_single union_commute)
    show ?thesis
      using less.hyps[of "dictGetNext de" "tbl[?h := de']" "used0 - 1" "used1 + 1"] less.prems cells
      unfolding step msets len bag
      by (auto simp: cell_ok_next len)
  qed
qed

lemma rehash_skip_ok:
  assumes "j < length tbl" "tbl ! j \<noteq> DNull" "idx \<le> j" "visits > 0"
  shows "\<exists>stop idx' visits'. rehash_skip tbl idx visits = Some (stop, idx', visits') \<and>
     idx \<le> idx' \<and> idx' \<le> j \<and> (\<forall>i. idx \<le> i \<longrightarrow> i < idx' \<longrightarrow> tbl ! i = DNull) \<and>
     (if stop then idx' = idx + nat visits
      else tbl ! idx' \<noteq> DNull \<and> visits' = visits - int (idx' - idx) \<and> visits' > 0)"
  using assms
proof (induction tbl idx visits rule: rehash_skip.induct)
  case (1 tbl idx visits)
  note prems = 1(2-5)
  consider (found) "tbl ! idx \<noteq> DNull" | (stop) "tbl ! idx = DNull" "visits = 1"
    | (more) "tbl ! idx = DNull" "visits > 1"
    using prems(4) by linarith
  then show ?case
  proof cases
    case found
    then show ?thesis using prems by (subst rehash_skip.simps) auto
  next
    case stop
    moreover have "idx \<noteq> j" using stop prems(2) by auto
    ultimately show ?thesis
      using prems by (subst rehash_skip.simps) (auto simp: less_Suc_eq_le le_antisym)
  next
    case more
    have "idx \<noteq> j" using more prems(2) by auto
    then obtain stop idx' visits' where
      rec: "rehash_skip tbl (idx + 1) (visits - 1) = Some (stop, idx', visits')"
        "idx + 1 \<le> idx'" "idx' \<le> j" "\<forall>i. idx + 1 \<le> i \<longrightarrow> i < idx' \<longrightarrow> tbl ! i = DNull"
        "if stop then idx' = idx + 1 + nat (visits - 1)
         else tbl ! idx' \<noteq> DNull \<and> visits' = visits - 1 - int (idx' - (idx + 1)) \<and> visits' > 0"
      using 1(1) more prems by fastforce
    have "rehash_skip tbl idx visits = Some (stop, idx', visits')"
      using more prems rec(1) by (subst rehash_skip.simps) simp
    moreover have "\<forall>i. idx \<le> i \<longrightarrow> i < idx' \<longrightarrow> tbl ! i = DNull"
      using rec(4) more(1) by (metis Suc_eq_plus1 Suc_leI le_neq_implies_less)
    ultimately show ?thesis
      using rec more(2) by (auto split: if_splits)
  qed
qed


text \<open>
  One turn of the main loop: the state after the bucket at \<open>idx\<close> has been moved.
\<close>

lemma rehash_inv_nonempty:
  assumes "rehash_inv t d" "ht_used (ht0 d) \<noteq> 0"
  obtains j where "j < length (ht_table (ht0 d))" "ht_table (ht0 d) ! j \<noteq> DNull" "rehashidx d \<le> int j"
proof -
  have "table_bag (ht_table (ht0 d)) \<noteq> {#}"
    using assms by (auto simp: rehash_inv_def ht_alloc_def)
  then obtain j where "j < length (ht_table (ht0 d))" "ht_table (ht0 d) ! j \<noteq> DNull"
    by (auto simp: table_bag_empty)
  moreover have "rehashidx d \<le> int j"
    using assms(1) calculation unfolding rehash_inv_def by force
  ultimately show thesis by (rule that)
qed

lemma rehash_bucket_ok:
  fixes d :: "('k, 'v) dict"
  assumes t: "dictType_ok t" and inv: "rehash_inv t d"
    and idx: "idx < length (ht_table (ht0 d))" "rehashidx d \<le> int idx"
      "\<And>i. nat (rehashidx d) \<le> i \<Longrightarrow> i < idx \<Longrightarrow> ht_table (ht0 d) ! i = DNull"
  defines "de \<equiv> ht_table (ht0 d) ! idx"
  shows "\<exists>tbl used0 used1.
     rehash_move t (ht_size_exp (ht0 d)) (ht_size_exp (ht1 d)) idx de
       (ht_table (ht1 d), ht_used (ht0 d), ht_used (ht1 d)) = Some (tbl, used0, used1) \<and>
     (let d' = d\<lparr>ht0 := (ht0 d)\<lparr>ht_table := (ht_table (ht0 d))[idx := DNull], ht_used := used0\<rparr>,
               ht1 := (ht1 d)\<lparr>ht_table := tbl, ht_used := used1\<rparr>,
               rehashidx := int idx + 1\<rparr>
      in rehash_inv t d' \<and> dict_bag d' = dict_bag d)"
proof -
  have a0: "ht_alloc t (ht0 d)" and a1: "ht_alloc t (ht1 d)"
    using inv by (auto simp: rehash_inv_def)
  have cell: "cell_ok t (DICTHT_SIZE_MASK (ht_size_exp (ht0 d))) idx de"
    using a0 idx(1) by (simp add: ht_alloc_def cells_ok_def de_def)
  have bag0: "table_bag (ht_table (ht0 d)) =
      mset (chain_kvs de) + table_bag ((ht_table (ht0 d))[idx := DNull])"
    using table_bag_take_out[OF idx(1), of "chain_kvs de" DNull] by (simp add: de_def)
  then have used: "ht_used (ht0 d) = length (chain_kvs de) + size (table_bag ((ht_table (ht0 d))[idx := DNull]))"
    using a0 by (simp add: ht_alloc_def)
  obtain tbl where tbl: "rehash_move t (ht_size_exp (ht0 d)) (ht_size_exp (ht1 d)) idx de
        (ht_table (ht1 d), ht_used (ht0 d), ht_used (ht1 d)) =
      Some (tbl, ht_used (ht0 d) - length (chain_kvs de), ht_used (ht1 d) + length (chain_kvs de))"
    "cells_ok t (ht_size_exp (ht1 d)) tbl"
    "table_bag tbl = mset (chain_kvs de) + table_bag (ht_table (ht1 d))"
    using rehash_move_ok[OF t _ _ _ _ cell, of "ht_size_exp (ht1 d)" "ht_table (ht1 d)" "ht_used (ht0 d)"
        "ht_used (ht1 d)"] a0 a1 used
    by (auto simp: ht_alloc_def)
  have cells0: "cells_ok t (ht_size_exp (ht0 d)) ((ht_table (ht0 d))[idx := DNull])"
    using a0 idx(1) by (intro cells_ok_update) (auto simp: ht_alloc_def cell_ok_def)
  have below: "(ht_table (ht0 d))[idx := DNull] ! i = DNull"
    if "i < length (ht_table (ht0 d))" "int i < int idx + 1" for i
    using that inv idx by (cases "i = idx"; cases "int i < rehashidx d") (auto simp: rehash_inv_def)
  show ?thesis
    using tbl a0 a1 cells0 below used bag0 inv
    by (intro exI[of _ tbl] exI) (auto simp: Let_def rehash_inv_def ht_alloc_def dict_bag_def)
qed

text \<open>
  \<open>rehash_result\<close> states what a rehashing keeps: the entries and the pause counter.
\<close>

definition rehash_keeps :: "('k, 'v) dictType \<Rightarrow> ('k, 'v) dict \<Rightarrow> ('k, 'v) dict \<Rightarrow> bool" where
  "rehash_keeps t d d' \<longleftrightarrow>
     rehash_inv t d' \<and> dict_bag d' = dict_bag d \<and> pauserehash d' = pauserehash d \<and>
     length (ht_table (ht0 d')) = length (ht_table (ht0 d))"

lemma rehash_loop_ok:
  assumes t: "dictType_ok t"
  shows "rehash_inv t d \<Longrightarrow> visits > 0 \<Longrightarrow>
    \<exists>stop d'. rehash_loop t n visits d = Some (stop, d') \<and> rehash_keeps t d d' \<and>
      rehashidx d \<le> rehashidx d' \<and> (stop \<longrightarrow> rehashidx d < rehashidx d') \<and>
      (n > 0 \<and> ht_used (ht0 d) \<noteq> 0 \<longrightarrow> rehashidx d < rehashidx d')"
proof (induction n arbitrary: visits d)
  case 0
  then show ?case by (auto simp: rehash_keeps_def)
next
  case (Suc n)
  show ?case
  proof (cases "ht_used (ht0 d) = 0")
    case True
    then show ?thesis using Suc.prems by (auto simp: rehash_keeps_def)
  next
    case False
    obtain j where j: "j < length (ht_table (ht0 d))" "ht_table (ht0 d) ! j \<noteq> DNull" "rehashidx d \<le> int j"
      using rehash_inv_nonempty[OF Suc.prems(1) False] .
    have idx0: "0 \<le> rehashidx d" and len: "length (ht_table (ht0 d)) = DICTHT_SIZE (ht_size_exp (ht0 d))"
      using Suc.prems(1) by (auto simp: rehash_inv_def ht_alloc_def cells_ok_def)
    obtain stop idx visits' where skip:
      "rehash_skip (ht_table (ht0 d)) (nat (rehashidx d)) visits = Some (stop, idx, visits')"
      "nat (rehashidx d) \<le> idx" "idx \<le> j"
      "\<forall>i. nat (rehashidx d) \<le> i \<longrightarrow> i < idx \<longrightarrow> ht_table (ht0 d) ! i = DNull"
      "if stop then idx = nat (rehashidx d) + nat visits
       else ht_table (ht0 d) ! idx \<noteq> DNull \<and> visits' = visits - int (idx - nat (rehashidx d)) \<and> visits' > 0"
      using rehash_skip_ok[OF j(1,2), of "nat (rehashidx d)" visits] j(3) idx0 Suc.prems(2)
      unfolding nat_le_iff by blast
    have assert: "c_assert (int (DICTHT_SIZE (ht_size_exp (ht0 d))) > rehashidx d) = Some ()"
      using j len by (simp add: c_assert_def)
    show ?thesis
    proof (cases stop)
      case True
      have "rehash_inv t (d\<lparr>rehashidx := int idx\<rparr>)"
        using Suc.prems(1) skip(2,4) idx0 by (auto simp: rehash_inv_def ht_alloc_def not_less)
      then show ?thesis
        using True skip assert False Suc.prems(2) idx0
        by (auto simp: rehash_keeps_def dict_bag_def)
    next
      case go: False
      let ?upd = "\<lambda>tbl used0 used1. d\<lparr>ht0 := (ht0 d)\<lparr>ht_table := (ht_table (ht0 d))[idx := DNull], ht_used := used0\<rparr>,
               ht1 := (ht1 d)\<lparr>ht_table := tbl, ht_used := used1\<rparr>, rehashidx := int idx + 1\<rparr>"
      obtain tbl used0 used1 where move:
        "rehash_move t (ht_size_exp (ht0 d)) (ht_size_exp (ht1 d)) idx (ht_table (ht0 d) ! idx)
           (ht_table (ht1 d), ht_used (ht0 d), ht_used (ht1 d)) = Some (tbl, used0, used1)"
        "rehash_inv t (?upd tbl used0 used1)" "dict_bag (?upd tbl used0 used1) = dict_bag d"
        using rehash_bucket_ok[OF t Suc.prems(1) le_less_trans[OF skip(3) j(1)]] skip(2,4) idx0
        unfolding Let_def nat_le_iff by blast
      obtain stop' d' where rec: "rehash_loop t n visits' (?upd tbl used0 used1) = Some (stop', d')"
        "rehash_keeps t (?upd tbl used0 used1) d'" "int idx + 1 \<le> rehashidx d'"
        using Suc.IH[OF move(2), of visits'] skip(5) go by auto
      have "rehash_loop t (Suc n) visits d = Some (stop', d')"
        using False assert skip(1) go move(1) rec(1) by simp
      then show ?thesis
        using rec(2,3) move(3) skip(2) idx0 unfolding rehash_keeps_def by auto
    qed
  qed
qed


lemma tables_inv_rehashing: "tables_inv t d \<Longrightarrow> dictIsRehashing d \<Longrightarrow> rehash_inv t d"
  by (simp add: tables_inv_def)

lemma rehash_inv_tables: "rehash_inv t d \<Longrightarrow> tables_inv t d \<and> dictIsRehashing d"
  by (auto simp: tables_inv_def dictIsRehashing_def rehash_inv_def)

text \<open>
  \<open>dictRehash\<close> returns, keeps the entries, and says whether a rehashing goes on, unless
  it was refused.
\<close>

lemma dictRehash_ok:
  assumes t: "dictType_ok t" and inv: "tables_inv t d" and n: "n > 0"
  shows "\<exists>more d'. dictRehash can_resize t d n = Some (more, d') \<and> tables_inv t d' \<and>
    dict_bag d' = dict_bag d \<and> pauserehash d' = pauserehash d \<and>
    (rehash_refused can_resize d \<longrightarrow> d' = d) \<and>
    (\<not> rehash_refused can_resize d \<longrightarrow> more = dictIsRehashing d') \<and>
    (\<not> rehash_refused can_resize d \<and> more \<longrightarrow>
       rehashidx d < rehashidx d' \<and> length (ht_table (ht0 d')) = length (ht_table (ht0 d)))"
proof (cases "rehash_refused can_resize d")
  case True
  then show ?thesis using inv by (auto simp: dictRehash_def)
next
  case False
  then have "dictIsRehashing d" by (auto simp: rehash_refused_def Let_def)
  note ri = tables_inv_rehashing[OF inv this]
  obtain stop d' where loop: "rehash_loop t n (int n * 10) d = Some (stop, d')" "rehash_keeps t d d'"
    "rehashidx d \<le> rehashidx d'" "stop \<longrightarrow> rehashidx d < rehashidx d'"
    "ht_used (ht0 d) \<noteq> 0 \<longrightarrow> rehashidx d < rehashidx d'"
    using rehash_loop_ok[OF t ri, of "int n * 10" n] n by auto
  have ri': "rehash_inv t d'" and keep: "dict_bag d' = dict_bag d" "pauserehash d' = pauserehash d"
    "length (ht_table (ht0 d')) = length (ht_table (ht0 d))"
    using loop(2) by (auto simp: rehash_keeps_def)
  show ?thesis
  proof (cases "\<not> stop \<and> ht_used (ht0 d') = 0")
    case True
    then have "table_bag (ht_table (ht0 d')) = {#}"
      using ri' by (simp add: rehash_inv_def ht_alloc_def)
    then show ?thesis
      using True False loop(1) ri' keep
      by (auto simp: dictRehash_def tables_inv_def dictIsRehashing_def rehash_inv_def dict_bag_def
          u_dictReset_def)
  next
    case nz: False
    have "rehashidx d < rehashidx d'"
    proof (cases stop)
      case False
      have "ht_used (ht0 d) \<noteq> 0"
      proof
        assume "ht_used (ht0 d) = 0"
        then have "d' = d" using loop(1) n by (cases n) auto
        then show False using nz False \<open>ht_used (ht0 d) = 0\<close> by simp
      qed
      then show ?thesis using loop(5) by simp
    qed (use loop(4) in simp)
    then show ?thesis
      using nz False loop(1) rehash_inv_tables[OF ri'] keep by (auto simp: dictRehash_def)
  qed
qed

lemma rehash_step_if_ok:
  assumes "dictType_ok t" "tables_inv t d"
  shows "\<exists>d'. rehash_step_if can_resize t d = Some d' \<and> tables_inv t d' \<and>
    dict_bag d' = dict_bag d \<and> pauserehash d' = pauserehash d"
  using dictRehash_ok[OF assms, of 1 can_resize] assms(2)
  by (auto simp: rehash_step_if_def u_dictRehashStep_def)

section \<open>Searching\<close>

lemma chain_find_None:
  "chain_find t key de = None \<longleftrightarrow> (\<forall>x \<in> set (chain_kvs de). \<not> key_match t key (fst x))"
  by (induction de) (auto simp: chain_find.simps)

lemma chain_find_Some:
  "chain_find t key de = Some n \<Longrightarrow>
     n < length (chain_kvs de) \<and> key_match t key (fst (chain_kvs de ! n))"
  by (induction de arbitrary: n) (auto simp: chain_find.simps split: if_splits)

lemma chain_at_kvs: "n < length (chain_kvs de) \<Longrightarrow>
    chain_at de n \<noteq> DNull \<and> chain_kvs de ! n = (the (dictGetKey (chain_at de n)), dictGetVal (chain_at de n))"
proof (induction n arbitrary: de)
  case 0
  then show ?case by (cases de) (auto simp: dictGetVal_def)
next
  case (Suc n)
  then show ?case by (cases de) auto
qed

text \<open>A key can only be in the bucket of its hash.\<close>

lemma cells_ok_find:
  fixes key :: 'k
  assumes t: "dictType_ok t" and cells: "cells_ok t e tbl" "0 \<le> e" "e \<le> 60"
  defines "idx \<equiv> unat (hashFunction t key AND DICTHT_SIZE_MASK e)"
  shows "idx < length tbl"
    and "(\<exists>x \<in># table_bag tbl. key_match t key (fst x)) \<longleftrightarrow>
         (\<exists>x \<in> set (chain_kvs (tbl ! idx)). key_match t key (fst x))"
proof -
  show idx: "idx < length tbl"
    using cells hash_idx_less by (simp add: cells_ok_def idx_def)
  have "i = idx" if "i < length tbl" "x \<in> set (chain_kvs (tbl ! i))" "key_match t key (fst x)" for i x
    using that cells(1) dictType_okD(2)[OF t that(3)] by (auto simp: cells_ok_def cell_ok_def idx_def)
  then show "(\<exists>x \<in># table_bag tbl. key_match t key (fst x)) \<longleftrightarrow>
         (\<exists>x \<in> set (chain_kvs (tbl ! idx)). key_match t key (fst x))"
    using idx unfolding Bex_def in_table_bag by blast
qed

definition ref_entry :: "('k, 'v) dict \<Rightarrow> dictRef \<Rightarrow> ('k \<times> 'v option) \<Rightarrow> bool" where
  "ref_entry d ref x =
     (case ref of (table, idx, depth) \<Rightarrow>
        table \<le> 1 \<and> idx < length (ht_table (dict_ht d table)) \<and>
        depth < length (chain_kvs (ht_table (dict_ht d table) ! idx)) \<and>
        chain_kvs (ht_table (dict_ht d table) ! idx) ! depth = x)"

lemma ref_entry_in_bag: "ref_entry d ref x \<Longrightarrow> x \<in># dict_bag d"
  by (cases ref) (auto simp: ref_entry_def dict_bag_def in_table_bag dict_ht_def split: if_splits
      intro!: nth_mem)

text \<open>What a search in a whole dictionary returns.\<close>

definition find_ok :: "('k, 'v) dictType \<Rightarrow> ('k, 'v) dict \<Rightarrow> 'k \<Rightarrow> dictRef option \<Rightarrow> bool" where
  "find_ok t d key r =
     (case r of
        None \<Rightarrow> \<forall>x \<in># dict_bag d. \<not> key_match t key (fst x)
      | Some ref \<Rightarrow> \<exists>x. ref_entry d ref x \<and> key_match t key (fst x))"

lemma table_find_ok:
  assumes t: "dictType_ok t" and alloc: "ht_alloc t (dict_ht d table)" and "table \<le> 1"
  shows "\<exists>r. table_find t d key (hashFunction t key) table = Some r \<and>
    (case r of
       None \<Rightarrow> \<forall>x \<in># table_bag (ht_table (dict_ht d table)). \<not> key_match t key (fst x)
     | Some ref \<Rightarrow> fst ref = table \<and> (\<exists>x. ref_entry d ref x \<and> key_match t key (fst x)))"
proof -
  let ?tbl = "ht_table (dict_ht d table)"
  let ?idx = "unat (hashFunction t key AND DICTHT_SIZE_MASK (ht_size_exp (dict_ht d table)))"
  note f = cells_ok_find[OF t, of "ht_size_exp (dict_ht d table)" ?tbl key]
  have idx: "?idx < length ?tbl" using f(1) alloc by (simp add: ht_alloc_def)
  show ?thesis
  proof (cases "chain_find t key (?tbl ! ?idx)")
    case None
    then show ?thesis
      using idx f(2) alloc chain_find_None[of t key "?tbl ! ?idx"]
      by (auto simp: table_find_def nth_opt_def ht_alloc_def)
  next
    case (Some n)
    then show ?thesis
      using idx chain_find_Some[OF Some] assms(3)
      by (auto simp: table_find_def nth_opt_def ref_entry_def)
  qed
qed

lemma tables_find_ok:
  assumes t: "dictType_ok t" and inv: "tables_inv t d" and "ht0 d \<noteq> u_dictReset"
  shows "\<exists>r. tables_find t d key (hashFunction t key) = Some r \<and> find_ok t d key r"
proof -
  have "ht_alloc t (dict_ht d 0)"
    using inv assms(3) by (auto simp: tables_inv_def rehash_inv_def dict_ht_def split: if_splits)
  from table_find_ok[OF t this, of key] obtain r0 where r0:
    "table_find t d key (hashFunction t key) 0 = Some r0"
    "case r0 of
       None \<Rightarrow> \<forall>x \<in># table_bag (ht_table (ht0 d)). \<not> key_match t key (fst x)
     | Some ref \<Rightarrow> \<exists>x. ref_entry d ref x \<and> key_match t key (fst x)"
    by (auto simp: dict_ht_def split: option.splits)
  show ?thesis
  proof (cases "r0 \<noteq> None \<or> \<not> dictIsRehashing d")
    case True
    then show ?thesis
      using r0 inv
      by (auto simp: tables_find_def tables_inv_def dict_bag_def u_dictReset_def find_ok_def split: option.splits)
  next
    case False
    then have "ht_alloc t (dict_ht d 1)"
      using inv by (auto simp: tables_inv_def rehash_inv_def dict_ht_def)
    from table_find_ok[OF t this, of key] False r0 show ?thesis
      by (auto simp: tables_find_def dict_ht_def dict_bag_def find_ok_def split: option.splits)
  qed
qed

lemma dictSize_bag: "tables_inv t d \<Longrightarrow> dictSize d = size (dict_bag d)"
  by (auto simp: dictSize_def dict_bag_def tables_inv_def rehash_inv_def ht_alloc_def u_dictReset_def
      split: if_splits)

lemma dictFind_ok:
  assumes t: "dictType_ok t" and inv: "tables_inv t d"
  shows "\<exists>d' r. dictFind can_resize t d key = Some (d', r) \<and> tables_inv t d' \<and>
    dict_bag d' = dict_bag d \<and> pauserehash d' = pauserehash d \<and> find_ok t d' key r"
proof (cases "dictSize d = 0")
  case True
  then show ?thesis using inv dictSize_bag[OF inv] by (auto simp: dictFind_def find_ok_def)
next
  case False
  obtain d' where d': "rehash_step_if can_resize t d = Some d'" "tables_inv t d'"
    "dict_bag d' = dict_bag d" "pauserehash d' = pauserehash d"
    using rehash_step_if_ok[OF t inv] by blast
  have "ht0 d' \<noteq> u_dictReset"
    using False d'(2,3) dictSize_bag[OF inv]
    by (auto simp: dict_bag_def tables_inv_def rehash_inv_def ht_alloc_def u_dictReset_def split: if_splits)
  then show ?thesis
    using tables_find_ok[OF t d'(2), of key] d' False by (auto simp: dictFind_def)
qed


section \<open>Changing one bucket\<close>

lemma ht_alloc_put:
  assumes "ht_alloc t h" "idx < length (ht_table h)"
    and "cell_ok t (DICTHT_SIZE_MASK (ht_size_exp h)) idx de"
    and "mset (chain_kvs de) = add_mset x (mset (chain_kvs (ht_table h ! idx)))"
  shows "ht_alloc t (h\<lparr>ht_table := (ht_table h)[idx := de], ht_used := ht_used h + 1\<rparr>)"
    and "table_bag ((ht_table h)[idx := de]) = add_mset x (table_bag (ht_table h))"
proof -
  show bag: "table_bag ((ht_table h)[idx := de]) = add_mset x (table_bag (ht_table h))"
    using table_bag_put[OF assms(2), of de "[x]"] assms(4) by simp
  show "ht_alloc t (h\<lparr>ht_table := (ht_table h)[idx := de], ht_used := ht_used h + 1\<rparr>)"
    using assms(1-3) bag cells_ok_update by (auto simp: ht_alloc_def)
qed

lemma ht_alloc_take_out:
  assumes "ht_alloc t h" "idx < length (ht_table h)"
    and "cell_ok t (DICTHT_SIZE_MASK (ht_size_exp h)) idx de"
    and "mset (chain_kvs (ht_table h ! idx)) = add_mset x (mset (chain_kvs de))"
  shows "ht_alloc t (h\<lparr>ht_table := (ht_table h)[idx := de], ht_used := ul_dec (ht_used h)\<rparr>)"
    and "table_bag (ht_table h) = add_mset x (table_bag ((ht_table h)[idx := de]))"
proof -
  show bag: "table_bag (ht_table h) = add_mset x (table_bag ((ht_table h)[idx := de]))"
    using table_bag_take_out[OF assms(2), of "[x]" de] assms(4) by simp
  show "ht_alloc t (h\<lparr>ht_table := (ht_table h)[idx := de], ht_used := ul_dec (ht_used h)\<rparr>)"
    using assms(1-3) bag cells_ok_update by (auto simp: ht_alloc_def ul_dec_def)
qed

lemma tables_inv_set_ht:
  assumes "tables_inv t d" "table \<le> 1" "ht_alloc t (dict_ht d table)" "ht_alloc t h"
    and "ht_table h = (ht_table (dict_ht d table))[idx := de]"
    and "ht_size_exp h = ht_size_exp (dict_ht d table)"
    and "table = 0 \<Longrightarrow> dictIsRehashing d \<Longrightarrow> de \<noteq> DNull \<Longrightarrow> ht_table (ht0 d) ! idx \<noteq> DNull"
  shows "tables_inv t (dict_set_ht d table h)"
proof (cases "dictIsRehashing d")
  case True
  have "ht_table h ! i = DNull"
    if "table = 0" "i < length (ht_table (ht0 d))" "int i < rehashidx d" for i
    using that assms(1,5,7) True
    by (cases "i = idx") (auto simp: tables_inv_def rehash_inv_def dict_ht_def)
  then show ?thesis
    using True assms
    by (auto simp: tables_inv_def rehash_inv_def dict_ht_def dict_set_ht_def dictIsRehashing_def)
next
  case False
  have "\<not> ht_alloc t u_dictReset" by (simp add: ht_alloc_def u_dictReset_def)
  then have "table = 0"
    using False assms(1,2,3) by (cases table) (auto simp: tables_inv_def dict_ht_def)
  then show ?thesis
    using False assms by (auto simp: tables_inv_def dict_ht_def dict_set_ht_def dictIsRehashing_def)
qed

lemma dict_bag_set_ht:
  "table \<le> 1 \<Longrightarrow> dict_bag (dict_set_ht d table h) + table_bag (ht_table (dict_ht d table)) =
     dict_bag d + table_bag (ht_table h)"
  by (auto simp: dict_bag_def dict_set_ht_def dict_ht_def)

lemma tables_inv_alloc:
  assumes "tables_inv t d" "ref_entry d ref x"
  shows "ht_alloc t (dict_ht d (fst ref))"
  using assms
  by (cases ref) (auto simp: tables_inv_def rehash_inv_def ref_entry_def dict_ht_def u_dictReset_def
      split: if_splits)

section \<open>Growing\<close>

lemma bit_len_bounds: "n > 0 \<Longrightarrow> 2 ^ (bit_len n - 1) \<le> n \<and> n < 2 ^ bit_len n \<and> bit_len n > 0"
proof (induction n rule: bit_len.induct)
  case (1 n)
  show ?case
  proof (cases "n div 2 = 0")
    case True
    then have "n = 1" using 1(2) by simp
    then show ?thesis by (simp add: bit_len.simps[of "Suc 0"] bit_len.simps[of 0])
  next
    case False
    then obtain b where b: "bit_len (n div 2) = Suc b"
      using 1 by (metis gr0_conv_Suc neq0_conv)
    have "2 ^ b \<le> n div 2" "n div 2 < 2 * 2 ^ b"
      using 1 False b by simp_all
    then show ?thesis using 1(2) b by (subst (1 2 3) bit_len.simps) auto
  qed
qed

text \<open>The exponent is that of the smallest power of two that is not below the size.\<close>

lemma u_dictNextExp_bounds:
  assumes "sz \<le> 2 ^ 60"
  shows "2 \<le> u_dictNextExp sz" "u_dictNextExp sz \<le> 60" "sz \<le> 2 ^ nat (u_dictNextExp sz)"
    and "u_dictNextExp sz = 2 \<or> 2 ^ (nat (u_dictNextExp sz) - 1) < sz"
proof -
  let ?b = "bit_len (sz - 1)"
  consider (small) "sz \<le> 4" | (big) "sz > 4" by linarith
  then have "2 \<le> u_dictNextExp sz \<and> u_dictNextExp sz \<le> 60 \<and> sz \<le> 2 ^ nat (u_dictNextExp sz) \<and>
    (u_dictNextExp sz = 2 \<or> 2 ^ (nat (u_dictNextExp sz) - 1) < sz)"
  proof cases
    case small
    then show ?thesis by (simp add: u_dictNextExp_def)
  next
    case big
    have b: "2 ^ (?b - 1) \<le> sz - 1" "sz - 1 < 2 ^ ?b" "?b > 0"
      using bit_len_bounds[of "sz - 1"] big by auto
    have "(2::nat) ^ 2 < 2 ^ ?b" using b(2) big by simp
    then have "2 < ?b" by (rule power_less_imp_less_exp[rotated]) simp
    moreover have "(2::nat) ^ (?b - 1) < 2 ^ 60" using b(1) assms big by linarith
    then have "?b - 1 < 60" by (rule power_less_imp_less_exp[rotated]) simp
    moreover have "int sz < LLONG_MAX" using assms by simp
    ultimately have "u_dictNextExp sz = int ?b" "2 < ?b" "?b \<le> 60"
      using big b(3) by (auto simp: u_dictNextExp_def c_clzl_def)
    moreover have "2 ^ (?b - 1) < sz" "sz \<le> 2 ^ ?b" using b big by linarith+
    ultimately show ?thesis by simp
  qed
  then show "2 \<le> u_dictNextExp sz" "u_dictNextExp sz \<le> 60" "sz \<le> 2 ^ nat (u_dictNextExp sz)"
    and "u_dictNextExp sz = 2 \<or> 2 ^ (nat (u_dictNextExp sz) - 1) < sz"
    by blast+
qed

lemma ht_alloc_new:
  assumes "0 \<le> e" "e \<le> 60"
  shows "ht_alloc t \<lparr>ht_table = replicate (2 ^ nat e) DNull, ht_used = 0, ht_size_exp = e\<rparr>"
  using assms by (simp add: ht_alloc_def cells_ok_def cell_ok_def DICTHT_SIZE_nonneg)

lemma u_dictExpand_ok:
  assumes inv: "tables_inv t d" and sz: "sz \<le> 2 ^ 60"
  shows "\<exists>d' ok. u_dictExpand d sz True = (d', ok, False) \<and> tables_inv t d' \<and>
    dict_bag d' = dict_bag d \<and> pauserehash d' = pauserehash d \<and>
    (ok \<longleftrightarrow> \<not> dictIsRehashing d \<and> ht_used (ht0 d) \<le> sz \<and> u_dictNextExp sz \<noteq> ht_size_exp (ht0 d)) \<and>
    (ok \<longrightarrow> ht0 d' \<noteq> u_dictReset) \<and> (\<not> ok \<longrightarrow> d' = d)"
proof (cases "dictIsRehashing d \<or> ht_used (ht0 d) > sz")
  case True
  then show ?thesis using inv by (auto simp: u_dictExpand_def)
next
  case go: False
  let ?e = "u_dictNextExp sz"
  note e = u_dictNextExp_bounds[OF sz]
  have "(2::nat) ^ nat ?e * 8 \<le> 2 ^ 60 * 8"
    using e(2) by (intro mult_right_mono power_increasing) auto
  then have nowrap: "\<not> (2 ^ nat ?e * 8 mod 2 ^ 64 < (2 ^ nat ?e :: nat))"
    by (simp add: mod_less)
  have alloc: "ht_alloc t \<lparr>ht_table = replicate (2 ^ nat ?e) DNull, ht_used = 0, ht_size_exp = ?e\<rparr>"
    using e by (intro ht_alloc_new) auto
  have h1: "ht1 d = u_dictReset" using go inv by (auto simp: tables_inv_def)
  have h0: "ht_table (ht0 d) = [] \<longleftrightarrow> ht0 d = u_dictReset"
    "ht_alloc t (ht0 d) \<or> ht0 d = u_dictReset"
    using go inv by (auto simp: tables_inv_def ht_alloc_def cells_ok_def DICTHT_SIZE_def u_dictReset_def)
  show ?thesis
  proof (cases "?e = ht_size_exp (ht0 d)")
    case True
    then show ?thesis using go inv nowrap e(3) by (auto simp: u_dictExpand_def Let_def)
  next
    case False
    then show ?thesis
      using go inv nowrap e(1,3) alloc h0 h1
      by (auto simp: u_dictExpand_def Let_def tables_inv_def dictIsRehashing_def rehash_inv_def
          dict_bag_def u_dictReset_def)
  qed
qed

lemma u_dictExpandIfNeeded_ok:
  assumes inv: "tables_inv t d" and room: "dictSize d < 2 ^ 60"
  shows "\<exists>d'. u_dictExpandIfNeeded can_resize t d = (d', True) \<and> tables_inv t d' \<and>
    dict_bag d' = dict_bag d \<and> pauserehash d' = pauserehash d \<and> ht0 d' \<noteq> u_dictReset"
proof -
  let ?s = "DICTHT_SIZE (ht_size_exp (ht0 d))"
  have used: "ht_used (ht0 d) + 1 \<le> 2 ^ 60" using room by (simp add: dictSize_def)
  have exp: "\<And>e. DICTHT_SIZE e = 0 \<longleftrightarrow> e = - 1" by (simp add: DICTHT_SIZE_def)
  have reset: "ht0 d = u_dictReset \<longleftrightarrow> ht_size_exp (ht0 d) = - 1"
    using inv by (auto simp: tables_inv_def rehash_inv_def ht_alloc_def u_dictReset_def split: if_splits)
  consider (rehashing) "dictIsRehashing d" | (empty) "\<not> dictIsRehashing d" "?s = 0"
    | (grow) "\<not> dictIsRehashing d" "?s \<noteq> 0" "ht_used (ht0 d) \<ge> ?s"
    | (keep) "\<not> dictIsRehashing d" "?s \<noteq> 0" "ht_used (ht0 d) < ?s"
    by linarith
  then show ?thesis
  proof cases
    case rehashing
    then show ?thesis
      using inv reset by (auto simp: u_dictExpandIfNeeded_def tables_inv_def rehash_inv_def ht_alloc_def)
  next
    case empty
    then have "ht_used (ht0 d) = 0" "u_dictNextExp 4 \<noteq> ht_size_exp (ht0 d)"
      using exp reset by (auto simp: u_dictReset_def u_dictNextExp_def)
    then show ?thesis
      using empty u_dictExpand_ok[OF inv, of 4] by (auto simp: u_dictExpandIfNeeded_def dictExpand_def)
  next
    case grow
    have "u_dictNextExp (ht_used (ht0 d) + 1) \<noteq> ht_size_exp (ht0 d)"
      using u_dictNextExp_bounds(1,3)[OF used] grow exp by (auto simp: DICTHT_SIZE_def)
    then show ?thesis
      using grow u_dictExpand_ok[OF inv used] inv reset exp
      by (auto simp: u_dictExpandIfNeeded_def dictExpand_def)
  next
    case keep
    then show ?thesis using inv reset exp by (auto simp: u_dictExpandIfNeeded_def)
  qed
qed

end
