(* ===== verification/Keyed_Store.thy ===== *)
theory Keyed_Store
  imports Redis_Prelude
begin

text \<open>
  The interface of a keyed store, as the code uses it through \<open>dict.c\<close>: looking up,
  adding when absent, deleting. The locale \<open>keyed_store\<close> states the laws of the three
  operations over the map that a store represents, up to the equality of keys of the store; in it
  a sequence of commands is shown to run like the same sequence on the abstract map.
\<close>

section \<open>The interface of a keyed store\<close>

datatype ('k, 'v) store_op = SFind 'k | SAdd 'k 'v | SDel 'k

datatype 'v store_out = OFound "'v option" | OAdded bool | ODeleted bool

definition store_step ::
  "('s \<Rightarrow> 'k \<Rightarrow> ('s \<times> 'v option) option) \<Rightarrow> ('s \<Rightarrow> 'k \<Rightarrow> 'v \<Rightarrow> ('s \<times> bool) option) \<Rightarrow>
   ('s \<Rightarrow> 'k \<Rightarrow> ('s \<times> bool) option) \<Rightarrow> 's \<Rightarrow> ('k, 'v) store_op \<Rightarrow> ('s \<times> 'v store_out) option" where
  "store_step lookup add del s c =
     (case c of
        SFind k \<Rightarrow> map_option (map_prod id OFound) (lookup s k)
      | SAdd k v \<Rightarrow> map_option (map_prod id OAdded) (add s k v)
      | SDel k \<Rightarrow> map_option (map_prod id ODeleted) (del s k))"

fun store_run ::
  "('s \<Rightarrow> ('k, 'v) store_op \<Rightarrow> ('s \<times> 'v store_out) option) \<Rightarrow> 's \<Rightarrow> ('k, 'v) store_op list \<Rightarrow>
   ('s \<times> 'v store_out list) option" where
  "store_run step s [] = Some (s, [])"
| "store_run step s (c # cs) = do {
     (s1, out) \<leftarrow> step s c;
     (s2, outs) \<leftarrow> store_run step s1 cs;
     Some (s2, out # outs) }"

text \<open>The same commands on an abstract map, whose keys are equal when \<open>eqv\<close> says so.\<close>

definition spec_step ::
  "('k \<Rightarrow> 'k \<Rightarrow> bool) \<Rightarrow> ('k \<Rightarrow> 'v option) \<Rightarrow> ('k, 'v) store_op \<Rightarrow> ('k \<Rightarrow> 'v option) \<times> 'v store_out" where
  "spec_step eqv m c =
     (case c of
        SFind k \<Rightarrow> (m, OFound (m k))
      | SAdd k v \<Rightarrow> (if m k = None then \<lambda>k'. if eqv k k' then Some v else m k' else m, OAdded (m k = None))
      | SDel k \<Rightarrow> (\<lambda>k'. if eqv k k' then None else m k', ODeleted (m k \<noteq> None)))"

fun spec_run ::
  "('k \<Rightarrow> 'k \<Rightarrow> bool) \<Rightarrow> ('k \<Rightarrow> 'v option) \<Rightarrow> ('k, 'v) store_op list \<Rightarrow> ('k \<Rightarrow> 'v option) \<times> 'v store_out list" where
  "spec_run eqv m [] = (m, [])"
| "spec_run eqv m (c # cs) =
     (let (m1, out) = spec_step eqv m c; (m2, outs) = spec_run eqv m1 cs in (m2, out # outs))"

locale keyed_store =
  fixes inv :: "'s \<Rightarrow> bool"
    and view :: "'s \<Rightarrow> 'k \<Rightarrow> 'v option"
    and eqv :: "'s \<Rightarrow> 'k \<Rightarrow> 'k \<Rightarrow> bool"
    and count :: "'s \<Rightarrow> nat"
    and limit :: nat
    and lookup :: "'s \<Rightarrow> 'k \<Rightarrow> ('s \<times> 'v option) option"
    and add :: "'s \<Rightarrow> 'k \<Rightarrow> 'v \<Rightarrow> ('s \<times> bool) option"
    and del :: "'s \<Rightarrow> 'k \<Rightarrow> ('s \<times> bool) option"
  assumes lookup_law: "inv s \<Longrightarrow> \<exists>s'. lookup s k = Some (s', view s k) \<and> inv s' \<and>
      view s' = view s \<and> eqv s' = eqv s \<and> count s' = count s"
    and add_law: "inv s \<Longrightarrow> count s < limit \<Longrightarrow> \<exists>s'. add s k v = Some (s', view s k = None) \<and> inv s' \<and>
      view s' = (if view s k = None then \<lambda>k'. if eqv s k k' then Some v else view s k' else view s) \<and>
      eqv s' = eqv s \<and> count s' \<le> count s + 1"
    and del_law: "inv s \<Longrightarrow> \<exists>s'. del s k = Some (s', view s k \<noteq> None) \<and> inv s' \<and>
      view s' = (\<lambda>k'. if eqv s k k' then None else view s k') \<and> eqv s' = eqv s \<and> count s' \<le> count s"
begin

lemma step_refines:
  assumes "inv s" "count s < limit"
  shows "\<exists>s'. store_step lookup add del s c = Some (s', snd (spec_step (eqv s) (view s) c)) \<and> inv s' \<and>
    view s' = fst (spec_step (eqv s) (view s) c) \<and> eqv s' = eqv s \<and> count s' \<le> count s + 1"
proof (cases c)
  case (SFind k)
  then show ?thesis using lookup_law[OF assms(1), of k] by (auto simp: store_step_def spec_step_def)
next
  case (SAdd k v)
  then show ?thesis using add_law[OF assms, of k v] by (auto simp: store_step_def spec_step_def)
next
  case (SDel k)
  then show ?thesis using del_law[OF assms(1), of k] by (auto simp: store_step_def spec_step_def)
qed

lemma run_refines:
  "inv s \<Longrightarrow> count s + length cs \<le> limit \<Longrightarrow>
   \<exists>s'. store_run (store_step lookup add del) s cs = Some (s', snd (spec_run (eqv s) (view s) cs)) \<and> inv s' \<and>
     view s' = fst (spec_run (eqv s) (view s) cs)"
proof (induction cs arbitrary: s)
  case (Cons c cs)
  have "count s < limit" using Cons.prems(2) by simp
  from step_refines[OF Cons.prems(1) this] obtain s1 where s1:
    "store_step lookup add del s c = Some (s1, snd (spec_step (eqv s) (view s) c))" "inv s1"
    "view s1 = fst (spec_step (eqv s) (view s) c)" "eqv s1 = eqv s" "count s1 \<le> count s + 1"
    by blast
  have "count s1 + length cs \<le> limit" using s1(5) Cons.prems(2) by simp
  from Cons.IH[OF s1(2) this] show ?case
    using s1 by (auto simp: Let_def split: prod.splits)
qed simp

end

end
