(* ===== verification/Dict_Map.thy ===== *)
theory Dict_Map
  imports Dict_Inv Keyed_Store
begin

text \<open>
  The operations of a dictionary as operations on the finite map that its two tables hold. The
  first part shows what adding, replacing and deleting do to the multiset of entries; the second
  reads the multiset as a map (\<open>dict_map\<close>); the third interprets the interface \<open>keyed_store\<close> on
  the dictionary.
\<close>

section \<open>Adding\<close>

lemma dict_set_ht_simps [simp]:
  "pauserehash (dict_set_ht d i h) = pauserehash d"
  "rehashidx (dict_set_ht d i h) = rehashidx d"
  "dictIsRehashing (dict_set_ht d i h) = dictIsRehashing d"
  by (auto simp: dict_set_ht_def dictIsRehashing_def)

text \<open>Whether a dictionary holds a key.\<close>

definition dict_has :: "('k, 'v) dictType \<Rightarrow> ('k, 'v) dict \<Rightarrow> 'k \<Rightarrow> bool" where
  "dict_has t d key \<longleftrightarrow> (\<exists>x \<in># dict_bag d. key_match t key (fst x))"

definition dup_key :: "('k, 'v) dictType \<Rightarrow> 'k \<Rightarrow> 'k" where
  "dup_key t key = (case keyDup t of None \<Rightarrow> key | Some f \<Rightarrow> f key)"

definition dup_val :: "('k, 'v) dictType \<Rightarrow> 'v \<Rightarrow> 'v" where
  "dup_val t v = (case valDup t of None \<Rightarrow> v | Some f \<Rightarrow> f v)"

lemma dup_key_match: "dictType_ok t \<Longrightarrow> key_match t key (dup_key t key)"
  by (auto simp: dup_key_def dictType_okD(4) split: option.splits)

lemma dup_key_hash: "dictType_ok t \<Longrightarrow> hashFunction t (dup_key t key) = hashFunction t key"
  by (metis dup_key_match dictType_okD(2))

lemma dict_bag_put:
  assumes "table \<le> 1" "table_bag (ht_table h) = add_mset x (table_bag (ht_table (dict_ht d table)))"
  shows "dict_bag (dict_set_ht d table h) = add_mset x (dict_bag d)"
  using dict_bag_set_ht[OF assms(1), of d h] assms(2) by simp

lemma dictInsertAtPosition_ok:
  fixes key :: 'k
  assumes t: "dictType_ok t" and inv: "tables_inv t d" and "ht0 d \<noteq> u_dictReset"
  defines "table \<equiv> (if dictIsRehashing d then 1 else 0)"
  defines "idx \<equiv> unat (hashFunction t key AND DICTHT_SIZE_MASK (ht_size_exp (dict_ht d table)))"
  shows "\<exists>d' ref. dictInsertAtPosition t d (dup_key t key) (table, idx) = Some (d', ref) \<and>
    tables_inv t d' \<and> pauserehash d' = pauserehash d \<and>
    dict_bag d' = add_mset (dup_key t key, None) (dict_bag d) \<and> ref_entry d' ref (dup_key t key, None)"
proof -
  let ?h = "dict_ht d table" and ?k = "dup_key t key"
  have alloc: "ht_alloc t ?h" and le: "table \<le> 1"
    using inv assms(3) by (auto simp: tables_inv_def rehash_inv_def dict_ht_def table_def split: if_splits)
  then have idx: "idx < length (ht_table ?h)" and le_mask: "idx \<le> unat (DICTHT_SIZE_MASK (ht_size_exp ?h))"
    using hash_idx_less
    by (auto simp: ht_alloc_def cells_ok_def idx_def intro!: word_le_nat_alt[THEN iffD1] word_and_le1)
  define entry where "entry =
    (if no_value t then (if keys_are_odd t \<and> ht_table ?h ! idx = DNull then DKey ?k
       else createEntryNoValue ?k (ht_table ?h ! idx)) else DNormal ?k None (ht_table ?h ! idx))"
  have kvs: "chain_kvs entry = (?k, None) # chain_kvs (ht_table ?h ! idx)"
    by (auto simp: entry_def createEntryNoValue_def)
  have "cell_ok t (DICTHT_SIZE_MASK (ht_size_exp ?h)) idx (ht_table ?h ! idx)"
    using alloc idx by (simp add: ht_alloc_def cells_ok_def)
  then have cell: "cell_ok t (DICTHT_SIZE_MASK (ht_size_exp ?h)) idx entry"
    unfolding cell_ok_def kvs
    by (auto simp: entry_def createEntryNoValue_def dup_key_hash[OF t] idx_def)
  have mset: "mset (chain_kvs entry) = add_mset (?k, None) (mset (chain_kvs (ht_table ?h ! idx)))"
    by (simp add: kvs)
  note put = ht_alloc_put[OF alloc idx cell mset]
  let ?h' = "?h\<lparr>ht_table := (ht_table ?h)[idx := entry], ht_used := ht_used ?h + 1\<rparr>"
  have "dictInsertAtPosition t d ?k (table, idx) = Some (dict_set_ht d table ?h', (table, idx, 0))"
    using idx le_mask dictType_okD(5)[OF t]
    by (auto simp: dictInsertAtPosition_def table_def[symmetric] nth_opt_def c_assert_def entry_def Let_def)
  moreover have "tables_inv t (dict_set_ht d table ?h')"
    by (rule tables_inv_set_ht[OF inv le alloc put(1)]) (auto simp: table_def)
  moreover have "dict_bag (dict_set_ht d table ?h') = add_mset (?k, None) (dict_bag d)"
    using put(2) le by (intro dict_bag_put) auto
  moreover have "ref_entry (dict_set_ht d table ?h') (table, idx, 0) (?k, None)"
    using le idx kvs by (auto simp: ref_entry_def dict_set_ht_def dict_ht_def)
  ultimately show ?thesis by auto
qed

text \<open>
  \<open>dictAddRaw\<close> returns the entry it added, or the one that is there. The room a
  dictionary needs is that of \<open>u_dictExpandIfNeeded_ok\<close>.
\<close>

definition add_raw_ok ::
  "('k, 'v) dictType \<Rightarrow> ('k, 'v) dict \<Rightarrow> 'k \<Rightarrow> ('k, 'v) dict \<Rightarrow> dictRef option \<Rightarrow> dictRef option \<Rightarrow> bool" where
  "add_raw_ok t d key d' entry existing \<longleftrightarrow>
     (if dict_has t d key
      then entry = None \<and> dict_bag d' = dict_bag d \<and>
           (\<exists>ref x. existing = Some ref \<and> ref_entry d' ref x \<and> key_match t key (fst x))
      else existing = None \<and> dict_bag d' = add_mset (dup_key t key, None) (dict_bag d) \<and>
           (\<exists>ref. entry = Some ref \<and> ref_entry d' ref (dup_key t key, None)))"

lemma dictAddRaw_ok:
  assumes t: "dictType_ok t" and inv: "tables_inv t d" and room: "dictSize d < 2 ^ 60"
  shows "\<exists>d' entry existing. dictAddRaw can_resize t d key = Some (d', entry, existing) \<and>
    tables_inv t d' \<and> pauserehash d' = pauserehash d \<and> add_raw_ok t d key d' entry existing"
proof -
  obtain d1 where d1: "rehash_step_if can_resize t d = Some d1" "tables_inv t d1"
    "dict_bag d1 = dict_bag d" "pauserehash d1 = pauserehash d"
    using rehash_step_if_ok[OF t inv] by blast
  have "dictSize d1 < 2 ^ 60" using room dictSize_bag d1(2,3) inv by metis
  then obtain d2 where d2: "u_dictExpandIfNeeded can_resize t d1 = (d2, True)" "tables_inv t d2"
    "dict_bag d2 = dict_bag d" "pauserehash d2 = pauserehash d" "ht0 d2 \<noteq> u_dictReset"
    using u_dictExpandIfNeeded_ok[OF d1(2)] d1(3,4) by metis
  obtain r where r: "tables_find t d2 key (hashFunction t key) = Some r" "find_ok t d2 key r"
    using tables_find_ok[OF t d2(2,5)] by blast
  show ?thesis
  proof (cases r)
    case (Some ref)
    then obtain x where x: "ref_entry d2 ref x" "key_match t key (fst x)"
      using r(2) by (auto simp: find_ok_def)
    then have "dict_has t d key"
      unfolding dict_has_def using ref_entry_in_bag d2(3) by metis
    moreover have "dictAddRaw can_resize t d key = Some (d2, None, Some ref)"
      using d1(1) d2(1) r(1) Some by (simp add: dictAddRaw_def dictFindPositionForInsert_def)
    ultimately show ?thesis
      using x d2 unfolding add_raw_ok_def by (auto simp del: split_paired_Ex)
  next
    case None
    then have none: "\<not> dict_has t d key"
      using r(2) d2(3) by (auto simp: find_ok_def dict_has_def)
    obtain d' ref where ins: "dictInsertAtPosition t d2 (dup_key t key)
        (if dictIsRehashing d2 then 1 else 0, unat (hashFunction t key AND
           DICTHT_SIZE_MASK (ht_size_exp (dict_ht d2 (if dictIsRehashing d2 then 1 else 0))))) = Some (d', ref)"
      "tables_inv t d'" "pauserehash d' = pauserehash d"
      "dict_bag d' = add_mset (dup_key t key, None) (dict_bag d)" "ref_entry d' ref (dup_key t key, None)"
      using dictInsertAtPosition_ok[OF t d2(2,5), of key] d2(3,4) by auto
    have "dictAddRaw can_resize t d key = Some (d', Some ref, None)"
      using d1(1) d2(1) r(1) None ins(1)
      by (simp add: dictAddRaw_def dictFindPositionForInsert_def Let_def dup_key_def)
    then show ?thesis
      using none ins unfolding add_raw_ok_def by (auto simp del: split_paired_Ex)
  qed
qed

lemma chain_set_val_ok:
  "chain_typed t de \<Longrightarrow> \<not> no_value t \<Longrightarrow> n < length (chain_kvs de) \<Longrightarrow>
   \<exists>de'. chain_set_val de n v = Some de' \<and> chain_typed t de' \<and> de' \<noteq> DNull \<and>
     chain_kvs de' = (chain_kvs de)[n := (fst (chain_kvs de ! n), Some v)]"
proof (induction de n v rule: chain_set_val.induct)
  case (2 k v nxt n val)
  then show ?case by auto
qed auto

lemma chain_at_typed:
  "chain_typed t de \<Longrightarrow> \<not> no_value t \<Longrightarrow> n < length (chain_kvs de) \<Longrightarrow> entryHasValue (chain_at de n)"
proof (induction n arbitrary: de)
  case 0
  then show ?case by (cases de) (auto simp: entryHasValue_def entryIsNormal_def)
next
  case (Suc n)
  then show ?case by (cases de) auto
qed

lemma mset_update_in: "n < length xs \<Longrightarrow> add_mset (xs ! n) (mset (xs[n := y])) = add_mset y (mset xs)"
  by (simp add: mset_update)

lemma bag_exchange:
  assumes "A + T = B + T'" "add_mset x T' = add_mset y T"
  shows "add_mset x A = add_mset y B"
proof -
  have "add_mset x A + T = add_mset y B + T"
    using assms by (metis union_mset_add_mset_left union_mset_add_mset_right)
  then show ?thesis by simp
qed

lemma dictSetVal_ok:
  assumes inv: "tables_inv t d" and ref: "ref_entry d ref x" and nv: "\<not> no_value t"
  shows "\<exists>d'. dictSetVal t d ref v = Some d' \<and> tables_inv t d' \<and> pauserehash d' = pauserehash d \<and>
    add_mset x (dict_bag d') = add_mset (fst x, Some (dup_val t v)) (dict_bag d)"
proof -
  obtain table idx n where r: "ref = (table, idx, n)" by (cases ref)
  let ?h = "dict_ht d table"
  let ?de = "ht_table ?h ! idx"
  have le: "table \<le> 1" and idx: "idx < length (ht_table ?h)" and n: "n < length (chain_kvs ?de)" "chain_kvs ?de ! n = x"
    using ref by (auto simp: r ref_entry_def)
  have alloc: "ht_alloc t ?h" using tables_inv_alloc[OF inv ref] r by simp
  then have cell: "cell_ok t (DICTHT_SIZE_MASK (ht_size_exp ?h)) idx ?de"
    using idx by (simp add: ht_alloc_def cells_ok_def)
  obtain de' where de': "chain_set_val ?de n (dup_val t v) = Some de'" "chain_typed t de'" "de' \<noteq> DNull"
    "chain_kvs de' = (chain_kvs ?de)[n := (fst x, Some (dup_val t v))]"
    using chain_set_val_ok[of t ?de n "dup_val t v"] cell nv n by (auto simp: cell_ok_def)
  have cell': "cell_ok t (DICTHT_SIZE_MASK (ht_size_exp ?h)) idx de'"
    using cell de'(2) nth_mem[OF n(1)] set_update_subset_insert[of "chain_kvs ?de" n "(fst x, Some (dup_val t v))"]
    unfolding cell_ok_def de'(4) n(2) by force
  have bag: "add_mset x (table_bag ((ht_table ?h)[idx := de'])) =
      add_mset (fst x, Some (dup_val t v)) (table_bag (ht_table ?h))"
    using mset_update_in[OF n(1), of "(fst x, Some (dup_val t v))"]
    unfolding table_bag_update[OF idx] table_bag_split[OF idx] de'(4) n(2)
    by (simp flip: union_mset_add_mset_left)
  then have "size (table_bag ((ht_table ?h)[idx := de'])) = size (table_bag (ht_table ?h))"
    by (metis add_right_cancel size_add_mset Suc_eq_plus1)
  then have alloc': "ht_alloc t (?h\<lparr>ht_table := (ht_table ?h)[idx := de']\<rparr>)"
    using alloc cells_ok_update[OF _ idx cell'] by (auto simp: ht_alloc_def)
  have "?de \<noteq> DNull" using n(1) by auto
  then have "tables_inv t (dict_set_ht d table (?h\<lparr>ht_table := (ht_table ?h)[idx := de']\<rparr>))"
    by (intro tables_inv_set_ht[OF inv le alloc alloc']) (auto simp: dict_ht_def)
  moreover have "add_mset x (dict_bag (dict_set_ht d table (?h\<lparr>ht_table := (ht_table ?h)[idx := de']\<rparr>))) =
      add_mset (fst x, Some (dup_val t v)) (dict_bag d)"
    by (rule bag_exchange[OF dict_bag_set_ht[OF le]]) (simp add: bag)
  ultimately show ?thesis
    using idx de'(1) by (auto simp: dictSetVal_def r nth_opt_def dup_val_def Let_def)
qed


lemma dictAdd_ok:
  assumes t: "dictType_ok t" and inv: "tables_inv t d" and room: "dictSize d < 2 ^ 60"
  shows "\<exists>d'. dictAdd can_resize t d key v = Some (d', \<not> dict_has t d key) \<and> tables_inv t d' \<and>
    pauserehash d' = pauserehash d \<and>
    dict_bag d' = (if dict_has t d key then dict_bag d
      else add_mset (dup_key t key, if no_value t then None else Some (dup_val t v)) (dict_bag d))"
proof -
  obtain d1 entry existing where raw: "dictAddRaw can_resize t d key = Some (d1, entry, existing)"
    "tables_inv t d1" "pauserehash d1 = pauserehash d" "add_raw_ok t d key d1 entry existing"
    using dictAddRaw_ok[OF t inv room] by blast
  show ?thesis
  proof (cases "dict_has t d key")
    case True
    then show ?thesis using raw unfolding add_raw_ok_def by (auto simp: dictAdd_def)
  next
    case False
    then obtain ref where ref: "entry = Some ref" "ref_entry d1 ref (dup_key t key, None)"
      "dict_bag d1 = add_mset (dup_key t key, None) (dict_bag d)"
      using raw(4) unfolding add_raw_ok_def by auto
    then show ?thesis
      using raw(1-3) False dictSetVal_ok[OF raw(2) ref(2), of v]
      by (cases "no_value t") (auto simp: dictAdd_def)
  qed
qed

lemma dict_deref_ok:
  assumes "tables_inv t d" "ref_entry d ref x" "\<not> no_value t"
  shows "\<exists>de. dict_deref d ref = Some de \<and> entryHasValue de \<and> x = (the (dictGetKey de), dictGetVal de)"
proof -
  obtain table idx n where r: "ref = (table, idx, n)" by (cases ref)
  let ?de = "ht_table (dict_ht d table) ! idx"
  have n: "idx < length (ht_table (dict_ht d table))" "n < length (chain_kvs ?de)" "chain_kvs ?de ! n = x"
    using assms(2) by (auto simp: r ref_entry_def)
  have "chain_typed t ?de"
    using tables_inv_alloc[OF assms(1,2)] n(1) by (simp add: r ht_alloc_def cells_ok_def cell_ok_def)
  then show ?thesis
    using chain_at_typed[OF _ assms(3) n(2)] chain_at_kvs[OF n(2)] n by (simp add: dict_deref_def r nth_opt_def)
qed

lemma dictReplace_ok:
  assumes t: "dictType_ok t" and inv: "tables_inv t d" and room: "dictSize d < 2 ^ 60"
    and nv: "\<not> no_value t"
  shows "\<exists>d'. dictReplace can_resize t d key v = Some (d', \<not> dict_has t d key) \<and> tables_inv t d' \<and>
    pauserehash d' = pauserehash d \<and>
    (if dict_has t d key
     then \<exists>x. x \<in># dict_bag d \<and> key_match t key (fst x) \<and>
       add_mset x (dict_bag d') = add_mset (fst x, Some (dup_val t v)) (dict_bag d)
     else dict_bag d' = add_mset (dup_key t key, Some (dup_val t v)) (dict_bag d))"
proof -
  obtain d1 entry existing where raw: "dictAddRaw can_resize t d key = Some (d1, entry, existing)"
    "tables_inv t d1" "pauserehash d1 = pauserehash d" "add_raw_ok t d key d1 entry existing"
    using dictAddRaw_ok[OF t inv room] by blast
  show ?thesis
  proof (cases "dict_has t d key")
    case True
    then obtain ref x where ref: "entry = None" "existing = Some ref" "ref_entry d1 ref x"
      "key_match t key (fst x)" "dict_bag d1 = dict_bag d"
      using raw(4) unfolding add_raw_ok_def by (auto simp del: split_paired_Ex)
    obtain d' where "dictSetVal t d1 ref v = Some d'" "tables_inv t d'"
      "pauserehash d' = pauserehash d1" "add_mset x (dict_bag d') = add_mset (fst x, Some (dup_val t v)) (dict_bag d1)"
      using dictSetVal_ok[OF raw(2) ref(3) nv] by blast
    moreover obtain de where "dict_deref d1 ref = Some de" "entryHasValue de"
      using dict_deref_ok[OF raw(2) ref(3) nv] by blast
    ultimately have "dictReplace can_resize t d key v = Some (d', False)" "tables_inv t d'"
      "pauserehash d' = pauserehash d" "add_mset x (dict_bag d') = add_mset (fst x, Some (dup_val t v)) (dict_bag d)"
      using raw(1,3) ref by (simp_all add: dictReplace_def)
    moreover have "x \<in># dict_bag d" using ref_entry_in_bag[OF ref(3)] ref(5) by simp
    ultimately show ?thesis using True ref(4) by (intro exI[of _ d'] conjI) (auto simp del: split_paired_Ex)
  next
    case False
    then obtain ref where ref: "entry = Some ref" "ref_entry d1 ref (dup_key t key, None)"
      "dict_bag d1 = add_mset (dup_key t key, None) (dict_bag d)"
      using raw(4) unfolding add_raw_ok_def by auto
    then show ?thesis
      using raw(1-3) False dictSetVal_ok[OF raw(2) ref(2) nv, of v] by (auto simp: dictReplace_def)
  qed
qed

section \<open>Deleting\<close>

lemma chain_unlink_None:
  "\<forall>x \<in> set (chain_kvs de). \<not> key_match t key (fst x) \<Longrightarrow> chain_unlink t key de = Some None"
  by (induction de) (auto simp: chain_unlink.simps)

lemma chain_unlink_Some:
  "chain_typed t de \<Longrightarrow> \<exists>x \<in> set (chain_kvs de). key_match t key (fst x) \<Longrightarrow>
   \<exists>he de'. chain_unlink t key de = Some (Some (he, de')) \<and> chain_typed t de' \<and> he \<noteq> DNull \<and>
     key_match t key (the (dictGetKey he)) \<and>
     mset (chain_kvs de) = add_mset (the (dictGetKey he), dictGetVal he) (mset (chain_kvs de'))"
proof (induction de)
  case (DNoValue k nxt)
  then show ?case
    by (cases "key_match t key k")
      (auto simp: chain_unlink.simps[of t key "DNoValue k nxt"] dictGetVal_def)
next
  case (DNormal k v nxt)
  then show ?case
    by (cases "key_match t key k")
      (auto simp: chain_unlink.simps[of t key "DNormal k v nxt"] dictGetVal_def)
qed (auto simp: chain_unlink.simps dictGetVal_def)

definition table_unlink_res ::
  "('k, 'v) dictType \<Rightarrow> ('k, 'v) dict \<Rightarrow> 'k \<Rightarrow> nat \<Rightarrow> ('k, 'v) dict \<Rightarrow> ('k, 'v) dictEntry option \<Rightarrow> bool" where
  "table_unlink_res t d key table d' r \<longleftrightarrow>
     (case r of
        None \<Rightarrow> d' = d \<and> (\<forall>x \<in># table_bag (ht_table (dict_ht d table)). \<not> key_match t key (fst x))
      | Some he \<Rightarrow> he \<noteq> DNull \<and> key_match t key (the (dictGetKey he)) \<and>
          dict_bag d = add_mset (the (dictGetKey he), dictGetVal he) (dict_bag d'))"

lemma table_unlink_ok:
  assumes t: "dictType_ok t" and inv: "tables_inv t d" and le: "table \<le> 1"
    and alloc: "ht_alloc t (dict_ht d table)"
  shows "\<exists>d' r. table_unlink t d key (hashFunction t key) table = Some (d', r) \<and> tables_inv t d' \<and>
    dictIsRehashing d' = dictIsRehashing d \<and> pauserehash d' = pauserehash d \<and>
    table_unlink_res t d key table d' r"
proof -
  let ?h = "dict_ht d table"
  let ?idx = "unat (hashFunction t key AND DICTHT_SIZE_MASK (ht_size_exp ?h))"
  let ?de = "ht_table ?h ! ?idx"
  note f = cells_ok_find[OF t, of "ht_size_exp ?h" "ht_table ?h" key]
  have idx: "?idx < length (ht_table ?h)"
    and ex: "(\<exists>x \<in># table_bag (ht_table ?h). key_match t key (fst x)) \<longleftrightarrow>
      (\<exists>x \<in> set (chain_kvs ?de). key_match t key (fst x))"
    using f alloc by (auto simp: ht_alloc_def)
  have cell: "cell_ok t (DICTHT_SIZE_MASK (ht_size_exp ?h)) ?idx ?de"
    using alloc idx by (simp add: ht_alloc_def cells_ok_def)
  show ?thesis
  proof (cases "\<exists>x \<in> set (chain_kvs ?de). key_match t key (fst x)")
    case False
    then have "chain_unlink t key ?de = Some None" by (intro chain_unlink_None) blast
    then show ?thesis using idx inv False ex by (auto simp: table_unlink_def nth_opt_def table_unlink_res_def Let_def)
  next
    case True
    then obtain he de' where u: "chain_unlink t key ?de = Some (Some (he, de'))" "chain_typed t de'"
      "he \<noteq> DNull" "key_match t key (the (dictGetKey he))"
      "mset (chain_kvs ?de) = add_mset (the (dictGetKey he), dictGetVal he) (mset (chain_kvs de'))"
      using chain_unlink_Some[of t ?de key] cell by (auto simp: cell_ok_def)
    have "set (chain_kvs de') \<subseteq> set (chain_kvs ?de)"
      using u(5) by (metis set_mset_mset set_mset_add_mset_insert subset_insertI)
    then have cell': "cell_ok t (DICTHT_SIZE_MASK (ht_size_exp ?h)) ?idx de'"
      using cell u(2) by (auto simp: cell_ok_def)
    note out = ht_alloc_take_out[OF alloc idx cell' u(5)]
    let ?h' = "?h\<lparr>ht_table := (ht_table ?h)[?idx := de'], ht_used := ul_dec (ht_used ?h)\<rparr>"
    have "?de \<noteq> DNull" using True by auto
    then have "tables_inv t (dict_set_ht d table ?h')"
      by (intro tables_inv_set_ht[OF inv le alloc out(1), where idx = ?idx and de = de'])
        (auto simp: dict_ht_def)
    moreover have "dict_bag d = add_mset (the (dictGetKey he), dictGetVal he) (dict_bag (dict_set_ht d table ?h'))"
      using dict_bag_set_ht[OF le, of d ?h'] out(2) by simp
    ultimately show ?thesis
      using idx u(1,3,4)
      by (auto simp: table_unlink_def nth_opt_def table_unlink_res_def Let_def)
  qed
qed

definition unlink_ok ::
  "('k, 'v) dictType \<Rightarrow> ('k, 'v) dict \<Rightarrow> 'k \<Rightarrow> ('k, 'v) dict \<Rightarrow> ('k, 'v) dictEntry option \<Rightarrow> bool" where
  "unlink_ok t d key d' r \<longleftrightarrow>
     (case r of
        None \<Rightarrow> dict_bag d' = dict_bag d \<and> (\<forall>x \<in># dict_bag d. \<not> key_match t key (fst x))
      | Some he \<Rightarrow> he \<noteq> DNull \<and> key_match t key (the (dictGetKey he)) \<and>
          dict_bag d = add_mset (the (dictGetKey he), dictGetVal he) (dict_bag d'))"

lemma dictGenericDelete_ok:
  assumes t: "dictType_ok t" and inv: "tables_inv t d"
  shows "\<exists>d' r. dictGenericDelete can_resize t d key = Some (d', r) \<and> tables_inv t d' \<and>
    pauserehash d' = pauserehash d \<and> unlink_ok t d key d' r"
proof (cases "dictSize d = 0")
  case True
  then show ?thesis using inv dictSize_bag[OF inv] by (simp add: dictGenericDelete_def unlink_ok_def)
next
  case False
  obtain d1 where d1: "rehash_step_if can_resize t d = Some d1" "tables_inv t d1"
    "dict_bag d1 = dict_bag d" "pauserehash d1 = pauserehash d"
    using rehash_step_if_ok[OF t inv] by blast
  have alloc0: "ht_alloc t (dict_ht d1 0)"
    using False d1(2,3) dictSize_bag[OF inv]
    by (auto simp: dict_bag_def tables_inv_def rehash_inv_def ht_alloc_def u_dictReset_def dict_ht_def
        split: if_splits)
  obtain d2 r0 where r0: "table_unlink t d1 key (hashFunction t key) 0 = Some (d2, r0)" "tables_inv t d2"
    "dictIsRehashing d2 = dictIsRehashing d1" "pauserehash d2 = pauserehash d1"
    "table_unlink_res t d1 key 0 d2 r0"
    using table_unlink_ok[OF t d1(2) _ alloc0, of key] by blast
  show ?thesis
  proof (cases "r0 \<noteq> None \<or> \<not> dictIsRehashing d2")
    case True
    then have "dictGenericDelete can_resize t d key = Some (d2, r0)"
      using False d1(1) r0(1) by (simp add: dictGenericDelete_def)
    moreover have "unlink_ok t d key d2 r0"
      using True r0 d1
      by (auto simp: unlink_ok_def table_unlink_res_def tables_inv_def dict_bag_def u_dictReset_def dict_ht_def
          split: option.splits)
    ultimately show ?thesis using r0 d1 by auto
  next
    case rehashing: False
    then have d2: "d2 = d1" using r0(5) by (auto simp: table_unlink_res_def)
    then have "ht_alloc t (dict_ht d1 1)"
      using rehashing d1(2) by (auto simp: tables_inv_def rehash_inv_def dict_ht_def)
    then obtain d3 r where r: "table_unlink t d1 key (hashFunction t key) 1 = Some (d3, r)" "tables_inv t d3"
      "pauserehash d3 = pauserehash d1"
      "table_unlink_res t d1 key 1 d3 r"
      using table_unlink_ok[OF t d1(2), of 1 key] by blast
    have "dictGenericDelete can_resize t d key = Some (d3, r)"
      using False d1(1) r0(1) r(1) rehashing d2 by (simp add: dictGenericDelete_def)
    moreover have "unlink_ok t d1 key d3 r"
      using rehashing r0(5) r(4)
      by (auto simp: unlink_ok_def table_unlink_res_def dict_bag_def dict_ht_def split: option.splits)
    then have "unlink_ok t d key d3 r" unfolding unlink_ok_def d1(3) .
    ultimately show ?thesis using r d1 by auto
  qed
qed

section \<open>Unique keys\<close>

lemma keys_uniqueD:
  assumes "keys_unique t M" "x \<in># M" "y \<in># M" "key_match t k (fst x)" "key_match t k (fst y)"
  shows "x = y"
proof (rule ccontr)
  let ?F = "filter_mset (\<lambda>x. key_match t k (fst x)) M"
  assume "x \<noteq> y"
  moreover have "x \<in># ?F" "y \<in># ?F" using assms by auto
  ultimately have "y \<in># ?F - {#x#}" by (simp add: in_diff_count)
  then have "size (?F - {#x#}) > 0" by (metis nonempty_has_size empty_not_add_mset insert_DiffM)
  then show False
    using assms(1) \<open>x \<in># ?F\<close> by (simp add: keys_unique_def size_Diff_singleton)
qed

lemma keys_unique_add:
  assumes t: "dictType_ok t" and "keys_unique t M"
    and new: "\<forall>x \<in># M. \<not> key_match t key (fst x)" and k: "key_match t key (fst y)"
  shows "keys_unique t (add_mset y M)"
  unfolding keys_unique_def
proof
  fix k'
  show "size (filter_mset (\<lambda>x. key_match t k' (fst x)) (add_mset y M)) \<le> 1"
  proof (cases "key_match t k' (fst y)")
    case True
    then have "key_match t key k'"
      using k dictType_okD(1,3)[OF t] by blast
    then have "set_mset (filter_mset (\<lambda>x. key_match t k' (fst x)) M) = {}"
      using new dictType_okD(3)[OF t] by auto
    then have "filter_mset (\<lambda>x. key_match t k' (fst x)) M = {#}"
      by (simp only: set_mset_eq_empty_iff)
    then show ?thesis using True by simp
  next
    case False
    then show ?thesis using assms(2) by (simp add: keys_unique_def)
  qed
qed

lemma keys_unique_sub:
  assumes "keys_unique t (add_mset x M)"
  shows "keys_unique t M"
  unfolding keys_unique_def
proof
  fix k
  have "size (filter_mset (\<lambda>x. key_match t k (fst x)) M) \<le>
      size (filter_mset (\<lambda>x. key_match t k (fst x)) (add_mset x M))"
    by (intro size_mset_mono multiset_filter_mono) simp
  also have "\<dots> \<le> 1"
    using assms unfolding keys_unique_def by blast
  finally show "size (filter_mset (\<lambda>x. key_match t k (fst x)) M) \<le> 1" .
qed

lemma keys_unique_exchange:
  assumes "keys_unique t M" "add_mset x M' = add_mset (fst x, v) M"
  shows "keys_unique t M'"
  unfolding keys_unique_def
proof
  fix k
  have "size (filter_mset (\<lambda>x. key_match t k (fst x)) (add_mset x M')) =
      size (filter_mset (\<lambda>x. key_match t k (fst x)) (add_mset (fst x, v) M))"
    using assms(2) by simp
  then show "size (filter_mset (\<lambda>x. key_match t k (fst x)) M') \<le> 1"
    using assms(1) by (auto simp: keys_unique_def split: if_splits)
qed

section \<open>The map of a dictionary\<close>

definition dict_kvs :: "('k, 'v) dict \<Rightarrow> ('k \<times> 'v option) list" where
  "dict_kvs d = concat (map chain_kvs (ht_table (ht0 d))) @ concat (map chain_kvs (ht_table (ht1 d)))"

definition dict_map :: "('k, 'v) dictType \<Rightarrow> ('k, 'v) dict \<Rightarrow> 'k \<Rightarrow> 'v option option" where
  "dict_map t d k = map_option snd (find (\<lambda>x. key_match t k (fst x)) (dict_kvs d))"

lemma mset_dict_kvs: "mset (dict_kvs d) = dict_bag d"
  by (simp add: dict_kvs_def dict_bag_def table_bag_def)

lemma set_dict_kvs: "x \<in> set (dict_kvs d) \<longleftrightarrow> x \<in># dict_bag d"
  by (metis mset_dict_kvs set_mset_mset)

lemma dict_map_None: "dict_map t d k = None \<longleftrightarrow> \<not> dict_has t d k"
  by (auto simp: dict_map_def dict_has_def find_None_iff set_dict_kvs)

lemma dict_map_Some:
  assumes "keys_unique t (dict_bag d)"
  shows "dict_map t d k = Some v \<longleftrightarrow> (\<exists>k'. (k', v) \<in># dict_bag d \<and> key_match t k k')"
proof
  assume "dict_map t d k = Some v"
  then obtain x where x: "find (\<lambda>x. key_match t k (fst x)) (dict_kvs d) = Some x" "snd x = v"
    by (auto simp: dict_map_def)
  then have "x \<in> set (dict_kvs d)" "key_match t k (fst x)"
    by (metis find_Some_iff nth_mem)+
  then show "\<exists>k'. (k', v) \<in># dict_bag d \<and> key_match t k k'"
    using x(2) by (metis set_dict_kvs prod.collapse)
next
  assume "\<exists>k'. (k', v) \<in># dict_bag d \<and> key_match t k k'"
  then obtain k' where k': "(k', v) \<in># dict_bag d" "key_match t k k'" by blast
  then have "find (\<lambda>x. key_match t k (fst x)) (dict_kvs d) \<noteq> None"
    by (auto simp: find_None_iff set_dict_kvs)
  then obtain x where x: "find (\<lambda>x. key_match t k (fst x)) (dict_kvs d) = Some x" by blast
  then have "x \<in># dict_bag d" "key_match t k (fst x)"
    by (metis find_Some_iff nth_mem set_dict_kvs)+
  then have "x = (k', v)" using keys_uniqueD[OF assms _ k'(1)] k'(2) by auto
  then show "dict_map t d k = Some v" using x by (simp add: dict_map_def)
qed

text \<open>An update of the map at a key is one at every key that matches it.\<close>

definition map_put :: "('k, 'v) dictType \<Rightarrow> ('k \<Rightarrow> 'a option) \<Rightarrow> 'k \<Rightarrow> 'a option \<Rightarrow> 'k \<Rightarrow> 'a option" where
  "map_put t m key r = (\<lambda>k. if key_match t key k then r else m k)"

lemma option_eqI: "(\<And>v. a = Some v \<longleftrightarrow> b = Some v) \<Longrightarrow> a = b"
  by (metis not_Some_eq)

lemma dict_map_bag_eq:
  assumes "keys_unique t (dict_bag d)" "dict_bag d' = dict_bag d"
  shows "dict_map t d' = dict_map t d"
  by (rule ext, rule option_eqI) (simp add: dict_map_Some assms)

lemma dict_map_add:
  assumes t: "dictType_ok t" and u: "keys_unique t (dict_bag d')"
    and new: "\<not> dict_has t d key" and k: "key_match t key k'"
    and bag: "dict_bag d' = add_mset (k', v) (dict_bag d)"
  shows "dict_map t d' = map_put t (dict_map t d) key (Some v)"
proof
  fix q
  have u0: "keys_unique t (dict_bag d)" using u bag keys_unique_sub by metis
  show "dict_map t d' q = map_put t (dict_map t d) key (Some v) q"
  proof (cases "key_match t key q")
    case True
    then have "key_match t q k'" using k dictType_okD(1,3)[OF t] by blast
    then have "dict_map t d' q = Some v" using bag by (auto simp: dict_map_Some[OF u])
    then show ?thesis using True by (simp add: map_put_def)
  next
    case False
    then have "\<not> key_match t q k'" using k dictType_okD(1,3)[OF t] by blast
    then have "dict_map t d' q = dict_map t d q"
      by (intro option_eqI) (auto simp: dict_map_Some[OF u] dict_map_Some[OF u0] bag)
    then show ?thesis using False by (simp add: map_put_def)
  qed
qed

lemma dict_map_remove:
  assumes t: "dictType_ok t" and u: "keys_unique t (dict_bag d)"
    and k: "key_match t key k'" and bag: "dict_bag d = add_mset (k', v) (dict_bag d')"
  shows "dict_map t d' = map_put t (dict_map t d) key None"
proof
  fix q
  have u': "keys_unique t (dict_bag d')" using u bag keys_unique_sub by metis
  show "dict_map t d' q = map_put t (dict_map t d) key None q"
  proof (cases "key_match t key q")
    case True
    then have q: "key_match t q k'" using k dictType_okD(1,3)[OF t] by blast
    have "\<not> dict_has t d' q"
    proof
      assume "dict_has t d' q"
      then obtain y where y: "y \<in># dict_bag d'" "key_match t q (fst y)" by (auto simp: dict_has_def)
      have "{#(k', v), y#} \<subseteq># filter_mset (\<lambda>x. key_match t q (fst x)) (dict_bag d)"
        using y q by (auto simp: bag)
      then have "2 \<le> size (filter_mset (\<lambda>x. key_match t q (fst x)) (dict_bag d))"
        using size_mset_mono by fastforce
      then show False using u by (simp add: keys_unique_def) (metis Suc_1 Suc_n_not_le_n One_nat_def le_trans)
    qed
    then show ?thesis using True by (simp add: map_put_def dict_map_None)
  next
    case False
    then have "\<not> key_match t q k'" using k dictType_okD(1,3)[OF t] by blast
    then have "dict_map t d' q = dict_map t d q"
      by (intro option_eqI) (auto simp: dict_map_Some[OF u] dict_map_Some[OF u'] bag)
    then show ?thesis using False by (simp add: map_put_def)
  qed
qed

lemma dict_map_exchange:
  assumes t: "dictType_ok t" and u: "keys_unique t (dict_bag d)" and x: "x \<in># dict_bag d"
    and k: "key_match t key (fst x)" and bag: "add_mset x (dict_bag d') = add_mset (fst x, v) (dict_bag d)"
  shows "dict_map t d' = map_put t (dict_map t d) key (Some v)"
proof
  fix q
  obtain M where M: "dict_bag d = add_mset x M" using x by (metis insert_DiffM)
  then have bag': "dict_bag d' = add_mset (fst x, v) M" using bag by (simp add: add_mset_commute)
  have u': "keys_unique t (dict_bag d')" using keys_unique_exchange[OF u bag] .
  show "dict_map t d' q = map_put t (dict_map t d) key (Some v) q"
  proof (cases "key_match t key q")
    case True
    then have "key_match t q (fst x)" using k dictType_okD(1,3)[OF t] by blast
    then have "dict_map t d' q = Some v" by (auto simp: dict_map_Some[OF u'] bag')
    then show ?thesis using True by (simp add: map_put_def)
  next
    case False
    then have "\<not> key_match t q (fst x)" using k dictType_okD(1,3)[OF t] by blast
    then have "dict_map t d' q = dict_map t d q"
      by (intro option_eqI) (auto simp: dict_map_Some[OF u] dict_map_Some[OF u'] bag' M)
    then show ?thesis using False by (simp add: map_put_def)
  qed
qed

section \<open>The operations on the map\<close>

lemma dict_invI: "tables_inv t d \<Longrightarrow> keys_unique t (dict_bag d) \<Longrightarrow> dict_inv t d"
  by (simp add: dict_inv_def)

lemma keys_unique_new:
  assumes "dictType_ok t" "keys_unique t (dict_bag d)" "\<not> dict_has t d key"
  shows "keys_unique t (add_mset (dup_key t key, v) (dict_bag d))"
  using keys_unique_add[OF assms(1,2), of key] dup_key_match[OF assms(1), of key] assms(3)
  by (auto simp: dict_has_def)

lemma dictAdd_map:
  assumes t: "dictType_ok t" and inv: "dict_inv t d" and room: "dictSize d < 2 ^ 60"
  shows "\<exists>d'. dictAdd can_resize t d key v = Some (d', dict_map t d key = None) \<and> dict_inv t d' \<and>
    dictSize d' = dictSize d + (if dict_map t d key = None then 1 else 0) \<and>
    dict_map t d' = (if dict_map t d key = None
      then map_put t (dict_map t d) key (Some (if no_value t then None else Some (dup_val t v)))
      else dict_map t d)"
proof -
  have ti: "tables_inv t d" and u: "keys_unique t (dict_bag d)" using inv by (auto simp: dict_inv_def)
  obtain d' where d': "dictAdd can_resize t d key v = Some (d', \<not> dict_has t d key)" "tables_inv t d'"
    "dict_bag d' = (if dict_has t d key then dict_bag d
      else add_mset (dup_key t key, if no_value t then None else Some (dup_val t v)) (dict_bag d))"
    using dictAdd_ok[OF t ti room] by blast
  show ?thesis
  proof (cases "dict_has t d key")
    case True
    then show ?thesis
      using d' u dict_map_bag_eq[OF u, of d'] dictSize_bag[OF ti] dictSize_bag[OF d'(2)]
      by (simp add: dict_map_None dict_inv_def)
  next
    case False
    have u': "keys_unique t (dict_bag d')"
      using d'(3) False keys_unique_new[OF t u False] by simp
    then show ?thesis
      using False d' dict_map_add[OF t u' False dup_key_match[OF t]] dictSize_bag[OF ti] dictSize_bag[OF d'(2)]
      by (simp add: dict_map_None dict_inv_def)
  qed
qed

lemma dictReplace_map:
  assumes t: "dictType_ok t" and inv: "dict_inv t d" and room: "dictSize d < 2 ^ 60"
    and nv: "\<not> no_value t"
  shows "\<exists>d'. dictReplace can_resize t d key v = Some (d', dict_map t d key = None) \<and> dict_inv t d' \<and>
    dict_map t d' = map_put t (dict_map t d) key (Some (Some (dup_val t v)))"
proof -
  have ti: "tables_inv t d" and u: "keys_unique t (dict_bag d)" using inv by (auto simp: dict_inv_def)
  obtain d' where d': "dictReplace can_resize t d key v = Some (d', \<not> dict_has t d key)" "tables_inv t d'"
    "if dict_has t d key
     then \<exists>x. x \<in># dict_bag d \<and> key_match t key (fst x) \<and>
       add_mset x (dict_bag d') = add_mset (fst x, Some (dup_val t v)) (dict_bag d)
     else dict_bag d' = add_mset (dup_key t key, Some (dup_val t v)) (dict_bag d)"
    using dictReplace_ok[OF t ti room nv] by blast
  show ?thesis
  proof (cases "dict_has t d key")
    case True
    then obtain x where x: "x \<in># dict_bag d" "key_match t key (fst x)"
      "add_mset x (dict_bag d') = add_mset (fst x, Some (dup_val t v)) (dict_bag d)"
      using d'(3) by (auto simp del: split_paired_Ex)
    then show ?thesis
      using True d' dict_map_exchange[OF t u x] keys_unique_exchange[OF u x(3)]
      by (simp add: dict_map_None dict_inv_def)
  next
    case False
    have u': "keys_unique t (dict_bag d')"
      using d'(3) False keys_unique_new[OF t u False] by simp
    then show ?thesis
      using False d' dict_map_add[OF t u' False dup_key_match[OF t]]
      by (simp add: dict_map_None dict_inv_def)
  qed
qed

lemma dictDelete_map:
  assumes t: "dictType_ok t" and inv: "dict_inv t d"
  shows "\<exists>d'. dictDelete can_resize t d key = Some (d', dict_map t d key \<noteq> None) \<and> dict_inv t d' \<and>
    dictSize d' \<le> dictSize d \<and> dict_map t d' = map_put t (dict_map t d) key None"
proof -
  have ti: "tables_inv t d" and u: "keys_unique t (dict_bag d)" using inv by (auto simp: dict_inv_def)
  obtain d' r where d': "dictGenericDelete can_resize t d key = Some (d', r)" "tables_inv t d'"
    "unlink_ok t d key d' r"
    using dictGenericDelete_ok[OF t ti] by blast
  have del: "dictDelete can_resize t d key = Some (d', r \<noteq> None)"
    using d'(1) by (simp add: dictDelete_def)
  show ?thesis
  proof (cases r)
    case None
    then have none: "dict_bag d' = dict_bag d" "\<not> dict_has t d key"
      using d'(3) by (auto simp: unlink_ok_def dict_has_def)
    have "map_put t (dict_map t d) key None = dict_map t d"
    proof
      fix q
      have "dict_map t d q = None" if "key_match t key q"
        using none(2) dictType_okD(3)[OF t that] unfolding dict_map_None dict_has_def by blast
      then show "map_put t (dict_map t d) key None q = dict_map t d q" by (simp add: map_put_def)
    qed
    then show ?thesis
      using None none del d'(2) u dict_map_bag_eq[OF u none(1)] dictSize_bag[OF ti] dictSize_bag[OF d'(2)]
      by (simp add: dict_map_None dict_inv_def)
  next
    case (Some he)
    let ?k = "the (dictGetKey he)"
    have he: "key_match t key ?k" and bag: "dict_bag d = add_mset (?k, dictGetVal he) (dict_bag d')"
      using d'(3) Some by (auto simp: unlink_ok_def)
    have u': "keys_unique t (dict_bag d')" using u bag keys_unique_sub by metis
    have "dict_has t d key" using he bag by (auto simp: dict_has_def)
    moreover have "dictSize d' \<le> dictSize d"
      unfolding dictSize_bag[OF ti] dictSize_bag[OF d'(2)] bag by simp
    ultimately show ?thesis
      using Some del dict_invI[OF d'(2) u'] dict_map_remove[OF t u he bag] by (simp add: dict_map_None)
  qed
qed

lemma dictFind_map:
  assumes t: "dictType_ok t" and inv: "dict_inv t d"
  shows "\<exists>d' r. dictFind can_resize t d key = Some (d', r) \<and> dict_inv t d' \<and>
    dict_map t d' = dict_map t d \<and> dictSize d' = dictSize d \<and>
    (case r of None \<Rightarrow> dict_map t d key = None
     | Some ref \<Rightarrow> \<exists>x. ref_entry d' ref x \<and> dict_map t d key = Some (snd x))"
proof -
  have ti: "tables_inv t d" and u: "keys_unique t (dict_bag d)" using inv by (auto simp: dict_inv_def)
  obtain d' r where d': "dictFind can_resize t d key = Some (d', r)" "tables_inv t d'"
    "dict_bag d' = dict_bag d" "find_ok t d' key r"
    using dictFind_ok[OF t ti] by blast
  have "case r of None \<Rightarrow> dict_map t d key = None
     | Some ref \<Rightarrow> \<exists>x. ref_entry d' ref x \<and> dict_map t d key = Some (snd x)"
  proof (cases r)
    case None
    then show ?thesis using d'(3,4) by (auto simp: find_ok_def dict_map_None dict_has_def)
  next
    case (Some ref)
    then obtain x where x: "ref_entry d' ref x" "key_match t key (fst x)"
      using d'(4) by (auto simp: find_ok_def)
    then have "dict_map t d key = Some (snd x)"
      using ref_entry_in_bag[OF x(1)] unfolding d'(3) dict_map_Some[OF u] by (metis prod.collapse)
    then show ?thesis using Some x(1) by (auto simp del: split_paired_Ex)
  qed
  moreover have "dict_inv t d'" using d'(2,3) u by (simp add: dict_inv_def)
  moreover have "dictSize d' = dictSize d"
    by (simp add: dictSize_bag[OF ti] dictSize_bag[OF d'(2)] d'(3))
  ultimately show ?thesis
    using d'(1) dict_map_bag_eq[OF u d'(3)] by blast
qed

lemma dictFetchValue_map:
  assumes t: "dictType_ok t" and inv: "dict_inv t d" and nv: "\<not> no_value t"
  shows "\<exists>d'. dictFetchValue can_resize t d key =
      Some (d', case dict_map t d key of None \<Rightarrow> None | Some c \<Rightarrow> c) \<and> dict_inv t d' \<and>
    dict_map t d' = dict_map t d \<and> dictSize d' = dictSize d"
proof -
  obtain d' r where d': "dictFind can_resize t d key = Some (d', r)" "dict_inv t d'"
    "dict_map t d' = dict_map t d" "dictSize d' = dictSize d"
    "case r of None \<Rightarrow> dict_map t d key = None
     | Some ref \<Rightarrow> \<exists>x. ref_entry d' ref x \<and> dict_map t d key = Some (snd x)"
    using dictFind_map[OF t inv] by blast
  show ?thesis
  proof (cases r)
    case None
    then show ?thesis using d' by (simp add: dictFetchValue_def)
  next
    case (Some ref)
    then obtain x where x: "ref_entry d' ref x" "dict_map t d key = Some (snd x)" using d'(5) by auto
    have "tables_inv t d'" using d'(2) by (simp add: dict_inv_def)
    then obtain de where "dict_deref d' ref = Some de" "entryHasValue de" "x = (the (dictGetKey de), dictGetVal de)"
      using dict_deref_ok[OF _ x(1) nv] by blast
    then show ?thesis using Some d' x(2) by (simp add: dictFetchValue_def)
  qed
qed

section \<open>Deleting in two phases\<close>

lemma chain_cut_unlink:
  "chain_unlink t key de =
     (case chain_find t key de of
        None \<Rightarrow> Some None
      | Some n \<Rightarrow> map_option (\<lambda>rest. Some (chain_at de n, rest)) (chain_cut de n))"
proof (induction de)
  case (DNoValue k nxt)
  then show ?case
    by (auto simp: chain_unlink.simps[of t key "DNoValue k nxt"] chain_find.simps[of t key "DNoValue k nxt"]
        map_option_case split: option.splits Option.bind_splits)
next
  case (DNormal k v nxt)
  then show ?case
    by (auto simp: chain_unlink.simps[of t key "DNormal k v nxt"] chain_find.simps[of t key "DNormal k v nxt"]
        map_option_case split: option.splits Option.bind_splits)
qed (auto simp: chain_unlink.simps chain_find.simps)

text \<open>Taking out the entry found in a table.\<close>

definition unlink_at :: "('k, 'v) dict \<Rightarrow> dictRef \<Rightarrow> ('k, 'v) dict option" where
  "unlink_at d ref = dictTwoPhaseUnlinkFree (dictPauseRehashing d) (Some ref)"

lemma pause_simps [simp]:
  "dict_ht (dictPauseRehashing d) i = dict_ht d i"
  "dictResumeRehashing (dict_set_ht (dictPauseRehashing d) i h) = dict_set_ht d i h"
  "dictIsRehashing (dictPauseRehashing d) = dictIsRehashing d"
  by (auto simp: dictPauseRehashing_def dictResumeRehashing_def dict_ht_def dict_set_ht_def dictIsRehashing_def)

lemma dictht_upd_commute:
  "h\<lparr>ht_used := n, ht_table := tbl\<rparr> = h\<lparr>ht_table := tbl, ht_used := n\<rparr>"
  by simp

lemma table_unlink_find:
  "table_unlink t d key h table =
     (case table_find t d key h table of
        None \<Rightarrow> None
      | Some None \<Rightarrow> Some (d, None)
      | Some (Some ref) \<Rightarrow> map_option (\<lambda>d'. (d', dict_deref d ref)) (unlink_at d ref))"
proof -
  let ?idx = "unat (h AND DICTHT_SIZE_MASK (ht_size_exp (dict_ht d table)))"
  show ?thesis
  proof (cases "?idx < length (ht_table (dict_ht d table))")
    case False
    then show ?thesis by (simp add: table_unlink_def table_find_def nth_opt_def Let_def)
  next
    case True
    then show ?thesis
      by (auto simp: table_unlink_def table_find_def nth_opt_def chain_cut_unlink[of t key]
          unlink_at_def dictTwoPhaseUnlinkFree_def dict_deref_def Let_def map_option_case
          dictht_upd_commute split: option.splits Option.bind_splits)
  qed
qed

lemma unlink_at_rehashing: "unlink_at d ref = Some d' \<Longrightarrow> dictIsRehashing d' = dictIsRehashing d"
  by (auto simp: unlink_at_def dictTwoPhaseUnlinkFree_def Let_def split: option.splits prod.splits
      elim!: bind_SomeE)

text \<open>
  (C23) Finding an entry with \<open>dictTwoPhaseUnlinkFind\<close> and releasing it with
  \<open>dictTwoPhaseUnlinkFree\<close> is the same as \<open>dictDelete\<close>: same tables, same counters,
  same result, and the pause of the rehashing is undone.
\<close>

theorem dict_two_phase_delete:
  "do { (d1, he) \<leftarrow> dictTwoPhaseUnlinkFind can_resize t d key;
        d2 \<leftarrow> dictTwoPhaseUnlinkFree d1 he;
        Some (d2, he \<noteq> None) } = dictDelete can_resize t d key"
proof (cases "dictSize d = 0")
  case True
  then show ?thesis
    by (simp add: dictTwoPhaseUnlinkFind_def dictTwoPhaseUnlinkFree_def dictDelete_def dictGenericDelete_def)
next
  case False
  show ?thesis
  proof (cases "rehash_step_if can_resize t d")
    case None
    then show ?thesis
      using False by (simp add: dictTwoPhaseUnlinkFind_def dictDelete_def dictGenericDelete_def)
  next
    case (Some d1)
    have deref: "\<exists>de. dict_deref d1 ref = Some de" if "table_find t d1 key h i = Some (Some ref)" for h i ref
      using that by (auto simp: table_find_def dict_deref_def nth_opt_def Let_def split: if_splits)
    let ?f = "\<lambda>i. table_find t d1 key (hashFunction t key) i"
    note defs = dictTwoPhaseUnlinkFind_def dictDelete_def dictGenericDelete_def tables_find_def
      table_unlink_find dictTwoPhaseUnlinkFree_def[of _ None] unlink_at_def[symmetric]
    consider (f0) ref where "?f 0 = Some (Some ref)" | (n0) "?f 0 = None" | (s0) "?f 0 = Some None"
      by (metis not_None_eq)
    then show ?thesis
    proof cases
      case f0
      then show ?thesis
        using deref[OF f0] False Some by (cases "unlink_at d1 ref") (auto simp: defs simp del: split_paired_Ex not_None_eq)
    next
      case n0
      then show ?thesis using False Some by (simp add: defs)
    next
      case s0
      then show ?thesis
        using deref[of _ 1] False Some
        by (cases "?f 1"; cases "the (?f 1)"; cases "unlink_at d1 (the (the (?f 1)))") (auto simp: defs simp del: split_paired_Ex not_None_eq)
    qed
  qed
qed

section \<open>A rehashing comes to its end\<close>

lemma rehash_more_bound:
  assumes "tables_inv t d" "dictIsRehashing d" "ht_used (ht0 d) \<noteq> 0"
  shows "rehashidx d < int (length (ht_table (ht0 d)))"
proof -
  obtain j where "j < length (ht_table (ht0 d))" "rehashidx d \<le> int j"
    using rehash_inv_nonempty[OF tables_inv_rehashing[OF assms(1,2)] assms(3)] by metis
  then show ?thesis by linarith
qed

lemma rehash_loop_unused:
  "rehash_loop t n visits d = Some (stop, d') \<Longrightarrow> stop \<Longrightarrow> ht_used (ht0 d') \<noteq> 0"
proof (induction n arbitrary: visits d)
  case (Suc n)
  then show ?case
    by (auto split: if_splits prod.splits elim!: bind_SomeE)
qed simp

lemma dictRehash_more_used:
  assumes "dictRehash can_resize t d n = Some (True, d')"
  shows "ht_used (ht0 d') \<noteq> 0"
  using assms rehash_loop_unused
  by (auto simp: dictRehash_def split: if_splits prod.splits elim!: bind_SomeE)

lemma not_refused_enabled: "dictIsRehashing d \<Longrightarrow> \<not> rehash_refused DICT_RESIZE_ENABLE d"
  by (simp add: rehash_refused_def Let_def)

lemma rehash_ms_loop_ok:
  assumes t: "dictType_ok t"
  shows "tables_inv t d \<Longrightarrow> (dictIsRehashing d \<Longrightarrow> int (length (ht_table (ht0 d))) - rehashidx d < int fuel) \<Longrightarrow>
    fuel > 0 \<Longrightarrow>
    \<exists>d' r. rehash_ms_loop fuel can_resize t clock ms i rehashes d = Some (d', r) \<and> tables_inv t d' \<and>
      dict_bag d' = dict_bag d \<and>
      (can_resize = DICT_RESIZE_ENABLE \<and> (\<forall>j. clock j - clock 0 \<le> ms) \<longrightarrow> \<not> dictIsRehashing d')"
proof (induction fuel arbitrary: d i rehashes)
  case (Suc fuel)
  obtain more d1 where r: "dictRehash can_resize t d 100 = Some (more, d1)" "tables_inv t d1"
    "dict_bag d1 = dict_bag d" "rehash_refused can_resize d \<longrightarrow> d1 = d"
    "\<not> rehash_refused can_resize d \<longrightarrow> more = dictIsRehashing d1"
    "\<not> rehash_refused can_resize d \<and> more \<longrightarrow>
       rehashidx d < rehashidx d1 \<and> length (ht_table (ht0 d1)) = length (ht_table (ht0 d))"
    using dictRehash_ok[OF t Suc.prems(1), of 100 can_resize] by auto
  have refused: "rehash_refused can_resize d \<Longrightarrow> \<not> more"
    using r(1) by (auto simp: dictRehash_def)
  show ?case
  proof (cases "more \<and> clock i - clock 0 \<le> ms")
    case False
    have "\<not> dictIsRehashing d1" if "can_resize = DICT_RESIZE_ENABLE" "\<not> more"
      using that r(4,5) not_refused_enabled by metis
    moreover have "\<not> (\<forall>j. clock j - clock 0 \<le> ms)" if more
      using that False by blast
    ultimately show ?thesis
      using False r(1-3) by (cases more) auto
  next
    case True
    then have "\<not> rehash_refused can_resize d" using refused by auto
    then have re: "dictIsRehashing d" "dictIsRehashing d1" "rehashidx d < rehashidx d1"
      "length (ht_table (ht0 d1)) = length (ht_table (ht0 d))"
      using True r(5,6) by (auto simp: rehash_refused_def Let_def)
    have "rehashidx d1 < int (length (ht_table (ht0 d1)))"
      using rehash_more_bound[OF r(2) re(2)] dictRehash_more_used[of can_resize t d 100 d1] r(1) True by simp
    then have "int (length (ht_table (ht0 d1))) - rehashidx d1 < int fuel" "fuel > 0"
      using Suc.prems(2)[OF re(1)] re(3,4) by auto
    then show ?thesis
      using Suc.IH[OF r(2), of "i + 1" "rehashes + 100"] True r(1,3) by auto
  qed
qed simp

section \<open>The dictionary as a keyed store\<close>

text \<open>
  The state is the resize policy, the type and the dictionary. The interface is that of a
  dictionary with values whose cells are all set and whose type does not copy values.
\<close>

type_synonym ('k, 'v) dict_store = "dictResizeEnable \<times> ('k, 'v) dictType \<times> ('k, 'v) dict"

definition store_inv :: "('k, 'v) dict_store \<Rightarrow> bool" where
  "store_inv s = (case s of (can_resize, t, d) \<Rightarrow>
     dictType_ok t \<and> \<not> no_value t \<and> valDup t = None \<and> dict_inv t d \<and>
     (\<forall>k. dict_map t d k \<noteq> Some None))"

definition store_view :: "('k, 'v) dict_store \<Rightarrow> 'k \<Rightarrow> 'v option" where
  "store_view s k = (case s of (can_resize, t, d) \<Rightarrow>
     case dict_map t d k of None \<Rightarrow> None | Some c \<Rightarrow> c)"

definition store_eqv :: "('k, 'v) dict_store \<Rightarrow> 'k \<Rightarrow> 'k \<Rightarrow> bool" where
  "store_eqv s = (case s of (can_resize, t, d) \<Rightarrow> key_match t)"

definition store_count :: "('k, 'v) dict_store \<Rightarrow> nat" where
  "store_count s = (case s of (can_resize, t, d) \<Rightarrow> dictSize d)"

definition with_dict :: "('k, 'v) dict_store \<Rightarrow> (('k, 'v) dict \<times> 'a) option \<Rightarrow> (('k, 'v) dict_store \<times> 'a) option" where
  "with_dict s r = (case s of (can_resize, t, d) \<Rightarrow> map_option (\<lambda>(d', x). ((can_resize, t, d'), x)) r)"

definition store_fetch :: "('k, 'v) dict_store \<Rightarrow> 'k \<Rightarrow> (('k, 'v) dict_store \<times> 'v option) option" where
  "store_fetch s k = (case s of (can_resize, t, d) \<Rightarrow> with_dict s (dictFetchValue can_resize t d k))"

definition store_add :: "('k, 'v) dict_store \<Rightarrow> 'k \<Rightarrow> 'v \<Rightarrow> (('k, 'v) dict_store \<times> bool) option" where
  "store_add s k v = (case s of (can_resize, t, d) \<Rightarrow> with_dict s (dictAdd can_resize t d k v))"

definition store_delete :: "('k, 'v) dict_store \<Rightarrow> 'k \<Rightarrow> (('k, 'v) dict_store \<times> bool) option" where
  "store_delete s k = (case s of (can_resize, t, d) \<Rightarrow> with_dict s (dictDelete can_resize t d k))"

lemmas store_defs = store_inv_def store_view_def store_eqv_def store_count_def with_dict_def
  store_fetch_def store_add_def store_delete_def

lemma store_view_None:
  "store_inv (can_resize, t, d) \<Longrightarrow> store_view (can_resize, t, d) k = None \<longleftrightarrow> dict_map t d k = None"
  by (auto simp: store_inv_def store_view_def split: option.splits) (metis option.exhaust)

interpretation dict_keyed: keyed_store store_inv store_view store_eqv store_count "2 ^ 60"
  store_fetch store_add store_delete
proof (unfold_locales, goal_cases)
  case (1 s k)
  then show ?case
    using dictFetchValue_map[of "fst (snd s)" "snd (snd s)" "fst s" k]
    by (cases s) (auto simp: store_defs fun_eq_iff)
next
  case (2 s k v)
  obtain can_resize t d where s: "s = (can_resize, t, d)" by (cases s)
  have i: "dictType_ok t" "dict_inv t d" "\<not> no_value t" "valDup t = None" "dictSize d < 2 ^ 60"
    "\<forall>k. dict_map t d k \<noteq> Some None"
    using 2 by (auto simp: s store_inv_def store_count_def)
  from dictAdd_map[OF i(1,2,5), of can_resize k v] obtain d' where d':
    "dictAdd can_resize t d k v = Some (d', dict_map t d k = None)" "dict_inv t d'"
    "dictSize d' \<le> dictSize d + 1"
    "dict_map t d' = (if dict_map t d k = None then map_put t (dict_map t d) k (Some (Some v)) else dict_map t d)"
    using i(3,4) by (auto simp: dup_val_def split: if_splits)
  show ?case
    using d' i store_view_None[of can_resize t d k] 2(1)
    by (auto simp: s store_defs fun_eq_iff map_put_def)
next
  case (3 s k)
  obtain can_resize t d where s: "s = (can_resize, t, d)" by (cases s)
  have i: "dictType_ok t" "dict_inv t d" "\<not> no_value t" "valDup t = None"
    "\<forall>k. dict_map t d k \<noteq> Some None"
    using 3 by (auto simp: s store_inv_def)
  from dictDelete_map[OF i(1,2), of can_resize k] show ?case
    using i store_view_None[of can_resize t d k] 3
    by (auto simp: s store_defs fun_eq_iff map_put_def)
qed

section \<open>An example\<close>

text \<open>
  Numbers as keys, hashed to themselves; a dictionary in the middle of growing from four buckets
  to eight, the first bucket already moved.
\<close>

definition ex_type :: "(nat, nat) dictType" where
  "ex_type = \<lparr>hashFunction = of_nat, keyDup = None, valDup = None, keyCompare = None,
     expandAllowed = None, no_value = False, keys_are_odd = False, key_is_odd = (\<lambda>_. False)\<rparr>"

definition ex_dict :: "(nat, nat) dict" where
  "ex_dict =
     \<lparr>ht0 = \<lparr>ht_table = [DNull, DNormal 1 (Some 10) DNull, DNormal 6 (Some 60) (DNormal 2 (Some 20) DNull), DNull],
        ht_used = 3, ht_size_exp = 2\<rparr>,
      ht1 = \<lparr>ht_table = [DNull, DNull, DNull, DNull, DNormal 4 (Some 40) DNull, DNull, DNull, DNull],
        ht_used = 1, ht_size_exp = 3\<rparr>,
      rehashidx = 1, pauserehash = 0\<rparr>"

lemma cells_ok_enumerate:
  "cells_ok t e tbl \<longleftrightarrow> length tbl = DICTHT_SIZE e \<and>
     list_all (\<lambda>(i, de). cell_ok t (DICTHT_SIZE_MASK e) i de) (enumerate 0 tbl)"
  by (auto simp: cells_ok_def list_all_iff in_set_enumerate_eq)

lemma ex_type_ok: "dictType_ok ex_type"
  by (simp add: dictType_ok_def ex_type_def key_match_def dictCompareKeys_def)

lemma ex_dict_inv: "dict_inv ex_type ex_dict"
proof -
  have "keys_unique ex_type (dict_bag ex_dict)"
    by (auto simp: keys_unique_def dict_bag_def ex_dict_def ex_type_def key_match_def dictCompareKeys_def)
  moreover have "tables_inv ex_type ex_dict"
    by (auto simp: tables_inv_def rehash_inv_def ht_alloc_def cells_ok_enumerate cell_ok_def ex_dict_def
        ex_type_def dictIsRehashing_def DICTHT_SIZE_def DICTHT_SIZE_MASK_def)
  ultimately show ?thesis by (simp add: dict_inv_def)
qed

lemma ex_simps:
  "dict_map ex_type ex_dict k =
     (if k = 1 then Some (Some 10) else if k = 6 then Some (Some 60) else if k = 2 then Some (Some 20)
      else if k = 4 then Some (Some 40) else None)"
  "dictSize ex_dict = 4" "key_match ex_type = (=)" "no_value ex_type = False" "dup_val ex_type v = v"
  "DICTHT_SIZE (ht_size_exp (ht0 ex_dict)) = 4" "pauserehash ex_dict = 0" "valDup ex_type = None"
  by (auto simp: dict_map_def dict_kvs_def key_match_def dictCompareKeys_def ex_dict_def ex_type_def
      dictSize_def dup_val_def DICTHT_SIZE_def fun_eq_iff)

section \<open>Properties\<close>

text \<open>
  (C2) \<open>dictAdd\<close> at any stage of a rehashing, and through the growing or the rehashing step
  it may do itself, returns with the invariant kept; it reports success exactly when no entry
  matches the key, and then the map is the old one with the key set, and otherwise the old one.
\<close>

theorem dict_add_correct:
  assumes "dictType_ok t" "dict_inv t d" "dictSize d < 2 ^ 60"
  shows "\<exists>d'. dictAdd can_resize t d key v = Some (d', dict_map t d key = None) \<and> dict_inv t d' \<and>
    dictSize d' = dictSize d + (if dict_map t d key = None then 1 else 0) \<and>
    dict_map t d' = (if dict_map t d key = None
      then map_put t (dict_map t d) key (Some (if no_value t then None else Some (dup_val t v)))
      else dict_map t d)"
  by (rule dictAdd_map[OF assms])

theorem dict_add_correct_witness:
  "\<exists>d'. dictAdd DICT_RESIZE_ENABLE ex_type ex_dict 9 90 = Some (d', True) \<and> dictSize d' = 5 \<and>
     dict_map ex_type d' 9 = Some (Some 90) \<and> dict_map ex_type d' 6 = Some (Some 60)"
  using dict_add_correct[OF ex_type_ok ex_dict_inv, of DICT_RESIZE_ENABLE 9 90]
  by (auto simp: map_put_def ex_simps)

text \<open>
  (C21) \<open>dictReplace\<close> sets the value of the key, whether it was there or not, keeps every
  other key, and reports whether it was new.
\<close>

theorem dict_replace_correct:
  assumes "dictType_ok t" "dict_inv t d" "dictSize d < 2 ^ 60" "\<not> no_value t"
  shows "\<exists>d'. dictReplace can_resize t d key v = Some (d', dict_map t d key = None) \<and> dict_inv t d' \<and>
    dict_map t d' = map_put t (dict_map t d) key (Some (Some (dup_val t v)))"
  by (rule dictReplace_map[OF assms])

theorem dict_replace_correct_witness:
  "\<exists>d'. dictReplace DICT_RESIZE_AVOID ex_type ex_dict 2 21 = Some (d', False) \<and>
     dict_map ex_type d' 2 = Some (Some 21) \<and> dict_map ex_type d' 6 = Some (Some 60)"
  using dict_replace_correct[OF ex_type_ok ex_dict_inv, of DICT_RESIZE_AVOID 2 21]
  by (auto simp: map_put_def ex_simps)

text \<open>
  (C5) \<open>dictDelete\<close> returns with the invariant kept, reports whether an entry matched the
  key, and leaves the map without it and otherwise unchanged.
\<close>

theorem dict_delete_correct:
  assumes "dictType_ok t" "dict_inv t d"
  shows "\<exists>d'. dictDelete can_resize t d key = Some (d', dict_map t d key \<noteq> None) \<and> dict_inv t d' \<and>
    dictSize d' \<le> dictSize d \<and> dict_map t d' = map_put t (dict_map t d) key None"
  by (rule dictDelete_map[OF assms])

theorem dict_delete_correct_witness:
  "\<exists>d'. dictDelete DICT_RESIZE_ENABLE ex_type ex_dict 4 = Some (d', True) \<and>
     dict_map ex_type d' 4 = None \<and> dict_map ex_type d' 2 = Some (Some 20)"
  using dict_delete_correct[OF ex_type_ok ex_dict_inv, of DICT_RESIZE_ENABLE 4]
  by (auto simp: map_put_def ex_simps)

text \<open>
  (C1) Any sequence of \<open>dictFetchValue\<close>, \<open>dictAdd\<close> and \<open>dictDelete\<close> on a
  dictionary returns the same results as the sequence on the abstract map and ends in a
  dictionary that represents the final map, whatever rehashing goes on in between.
\<close>

theorem dict_run_refines_map:
  assumes "store_inv s" "store_count s + length cs \<le> 2 ^ 60"
  shows "\<exists>s'. store_run (store_step store_fetch store_add store_delete) s cs =
      Some (s', snd (spec_run (store_eqv s) (store_view s) cs)) \<and> store_inv s' \<and>
    store_view s' = fst (spec_run (store_eqv s) (store_view s) cs)"
  by (rule dict_keyed.run_refines[OF assms])

theorem dict_run_refines_map_witness:
  "\<exists>s'. store_run (store_step store_fetch store_add store_delete) (DICT_RESIZE_ENABLE, ex_type, ex_dict)
      [SFind 6, SDel 6, SAdd 7 70, SAdd 7 71, SFind 7, SFind 6] =
    Some (s', [OFound (Some 60), ODeleted True, OAdded True, OAdded False, OFound (Some 70), OFound None])"
proof -
  have "\<forall>k. dict_map ex_type ex_dict k \<noteq> Some None" by (simp add: ex_simps)
  then have "store_inv (DICT_RESIZE_ENABLE, ex_type, ex_dict)"
    using ex_type_ok ex_dict_inv by (simp add: store_inv_def ex_simps)
  from dict_run_refines_map[OF this, of "[SFind 6, SDel 6, SAdd 7 70, SAdd 7 71, SFind 7, SFind 6]"]
  show ?thesis
    by (auto simp: spec_step_def store_view_def store_eqv_def store_count_def ex_simps)
qed

text \<open>
  (C22) \<open>dictRehashMilliseconds\<close> returns after at most as many rounds as the old table has
  buckets, whatever the clock does, and keeps the map; when resizing is enabled and the time is
  not up, no rehashing is left.
\<close>

theorem dict_rehash_ms_terminates:
  assumes "dictType_ok t" "dict_inv t d" "fuel > DICTHT_SIZE (ht_size_exp (ht0 d))"
  shows "\<exists>d' n. dictRehashMilliseconds fuel can_resize t clock d ms = Some (d', n) \<and> dict_inv t d' \<and>
    dict_map t d' = dict_map t d \<and>
    (can_resize = DICT_RESIZE_ENABLE \<and> sint (pauserehash d) \<le> 0 \<and> (\<forall>j. clock j - clock 0 \<le> ms) \<longrightarrow>
       \<not> dictIsRehashing d')"
proof (cases "sint (pauserehash d) > 0")
  case True
  then show ?thesis using assms by (auto simp: dictRehashMilliseconds_def)
next
  case False
  have ti: "tables_inv t d" and u: "keys_unique t (dict_bag d)" using assms(2) by (auto simp: dict_inv_def)
  have "int (length (ht_table (ht0 d))) - rehashidx d < int fuel" if "dictIsRehashing d"
    using tables_inv_rehashing[OF ti that] assms(3)
    by (auto simp: rehash_inv_def ht_alloc_def cells_ok_def)
  from rehash_ms_loop_ok[OF assms(1) ti this, of can_resize clock ms 1 0] assms(3) obtain d' n where
    d': "rehash_ms_loop fuel can_resize t clock ms 1 0 d = Some (d', n)" "tables_inv t d'"
    "dict_bag d' = dict_bag d"
    "can_resize = DICT_RESIZE_ENABLE \<and> (\<forall>j. clock j - clock 0 \<le> ms) \<longrightarrow> \<not> dictIsRehashing d'"
    by (metis gr_zeroI less_nat_zero_code)
  show ?thesis
    using d' u False dict_map_bag_eq[OF u d'(3)] by (simp add: dictRehashMilliseconds_def dict_inv_def)
qed

theorem dict_rehash_ms_terminates_witness:
  "\<exists>d' n. dictRehashMilliseconds 5 DICT_RESIZE_ENABLE ex_type (\<lambda>_. 0) ex_dict 1 = Some (d', n) \<and>
     \<not> dictIsRehashing d' \<and> dict_map ex_type d' 2 = Some (Some 20)"
  using dict_rehash_ms_terminates[OF ex_type_ok ex_dict_inv, of 5 DICT_RESIZE_ENABLE "\<lambda>_. 0" 1]
  by (auto simp: ex_simps)

end
