(* ===== verification/Dict_Scan.thy ===== *)
theory Dict_Scan
  imports Dict_Map
begin

text \<open>
  The stateless iteration of \<open>dict.c\<close>: \<open>rev\<close>, \<open>dictScan\<close> (that is
  \<open>dictScanDefrag\<close> without a defragmenter). The callback is modelled by the list of the
  entries it is called with. The first part shows that the bit tricks of \<open>rev\<close> reverse the
  64 bits; the second reads a cursor as a position, the number its reversed bits represent, and
  shows that a call moves the position forward over an interval and emits every entry whose
  reversed hash lies in it, in either table; the last part concludes that a complete iteration
  misses no entry that was there all the time, however the tables are resized between the calls.
\<close>

section \<open>Reversing the bits of a cursor\<close>

function rev_loop :: "nat \<Rightarrow> u64 \<Rightarrow> u64 \<Rightarrow> u64" where
  "rev_loop s msk v =
     (let s' = s div 2
      in if s' > 0 then
           (let msk' = msk XOR push_bit s' msk
            in rev_loop s' msk' ((drop_bit s' v AND msk') OR (push_bit s' v AND NOT msk')))
         else v)"
  by pat_completeness auto
termination
  by (relation "measure (\<lambda>(s, msk, v). s)") auto

declare rev_loop.simps [simp del]

definition dict_rev :: "u64 \<Rightarrow> u64" where
  "dict_rev v = rev_loop 64 (NOT 0) v"

definition rev_stage :: "nat \<Rightarrow> u64 \<Rightarrow> u64 \<Rightarrow> u64" where
  "rev_stage s m v = (drop_bit s v AND m) OR (push_bit s v AND NOT m)"

lemma rev_loop_step:
  assumes "s > 1" "m' = m XOR push_bit (s div 2) m"
  shows "rev_loop s m v = rev_loop (s div 2) m' (rev_stage (s div 2) m' v)"
  using assms by (subst rev_loop.simps) (simp add: Let_def rev_stage_def)

lemma dict_rev_stages:
  "dict_rev v = rev_stage 1 0x5555555555555555 (rev_stage 2 0x3333333333333333
     (rev_stage 4 0x0F0F0F0F0F0F0F0F (rev_stage 8 0x00FF00FF00FF00FF
     (rev_stage 16 0x0000FFFF0000FFFF (rev_stage 32 0x00000000FFFFFFFF v)))))"
  unfolding dict_rev_def
  apply (subst rev_loop_step[of 64 "0x00000000FFFFFFFF"], simp, simp add: mask_eq_decr_exp)
  apply (subst rev_loop_step[of _ "0x0000FFFF0000FFFF"], simp, simp)
  apply (subst rev_loop_step[of _ "0x00FF00FF00FF00FF"], simp, simp)
  apply (subst rev_loop_step[of _ "0x0F0F0F0F0F0F0F0F"], simp, simp)
  apply (subst rev_loop_step[of _ "0x3333333333333333"], simp, simp)
  apply (subst rev_loop_step[of _ "0x5555555555555555"], simp, simp)
  by (simp add: rev_loop.simps del: One_nat_def)

text \<open>A stage exchanges the bits at a distance \<open>s\<close>.\<close>

definition flip :: "nat \<Rightarrow> nat \<Rightarrow> nat" where
  "flip s n = (if even (n div s) then n + s else n - s)"

text \<open>Complementing the lower bits of a number.\<close>

definition low_flip :: "nat \<Rightarrow> nat \<Rightarrow> nat" where
  "low_flip s n = n div s * s + (s - 1 - n mod s)"

lemma flip_low_flip:
  assumes "s > 0"
  shows "flip s (low_flip s n) = low_flip (s * 2) n"
proof -
  define q where "q = n div s div 2"
  have r: "n mod s < s" using assms by simp
  have div: "low_flip s n div s = n div s"
    using assms by (simp add: low_flip_def)
  have d2: "n div (s * 2) = q" and m2: "n mod (s * 2) = s * (n div s mod 2) + n mod s"
    by (simp_all add: q_def div_mult2_eq mod_mult2_eq)
  show ?thesis
  proof (cases "even (n div s)")
    case True
    have dq: "n div s = q * 2" using True unfolding q_def by (metis dvd_div_mult_self)
    have l: "low_flip s n = q * (s * 2) + (s - 1 - n mod s)"
      unfolding low_flip_def dq by (simp only: mult.assoc mult.commute[of 2])
    have m: "n div s mod 2 = 0" using True by simp
    have "flip s (low_flip s n) = low_flip s n + s" using True div by (simp add: flip_def)
    moreover have "low_flip (s * 2) n = q * (s * 2) + (s * 2 - 1 - (s * 0 + n mod s))"
      unfolding low_flip_def d2 m2 m ..
    ultimately show ?thesis unfolding l using r by linarith
  next
    case False
    have dq: "n div s = q * 2 + 1"
      using False unfolding q_def by (metis odd_two_times_div_two_succ mult.commute)
    have l: "low_flip s n = q * (s * 2) + s + (s - 1 - n mod s)"
      unfolding low_flip_def dq by (simp only: add_mult_distrib mult.assoc mult.commute[of 2] mult_1)
    have m: "n div s mod 2 = 1" using False by (simp add: odd_iff_mod_2_eq_one)
    have "flip s (low_flip s n) = low_flip s n - s" using False div by (simp add: flip_def)
    moreover have "low_flip (s * 2) n = q * (s * 2) + (s * 2 - 1 - (s * 1 + n mod s))"
      unfolding low_flip_def d2 m2 m ..
    ultimately show ?thesis unfolding l using r by linarith
  qed
qed

lemma low_flip_less:
  assumes "n < 64" "64 = s * c" "s > 0"
  shows "low_flip s n < 64"
proof -
  have "n div s < c" using assms by (metis less_mult_imp_div_less mult.commute)
  then have "(n div s + 1) * s \<le> c * s" by (intro mult_right_mono) auto
  then have "n div s * s + s \<le> 64" using assms(2) by (simp add: mult.commute)
  then show ?thesis using assms(3) unfolding low_flip_def by linarith
qed

lemma flips:
  assumes "n < 64"
  shows "flip 32 (flip 16 (flip 8 (flip 4 (flip 2 (flip 1 n))))) = 63 - n"
    and "flip 1 n < 64" "flip 2 (flip 1 n) < 64" "flip 4 (flip 2 (flip 1 n)) < 64"
    and "flip 8 (flip 4 (flip 2 (flip 1 n))) < 64" "flip 16 (flip 8 (flip 4 (flip 2 (flip 1 n)))) < 64"
proof -
  have f: "flip 1 n = low_flip 2 n" "flip 2 (low_flip 2 n) = low_flip 4 n" "flip 4 (low_flip 4 n) = low_flip 8 n"
    "flip 8 (low_flip 8 n) = low_flip 16 n" "flip 16 (low_flip 16 n) = low_flip 32 n"
    "flip 32 (low_flip 32 n) = low_flip 64 n"
    using flip_low_flip[of 1 n] flip_low_flip[of 2 n] flip_low_flip[of 4 n] flip_low_flip[of 8 n]
      flip_low_flip[of 16 n] flip_low_flip[of 32 n] by (simp_all add: low_flip_def[of 1] low_flip_def[of "Suc 0"])
  show "flip 32 (flip 16 (flip 8 (flip 4 (flip 2 (flip 1 n))))) = 63 - n"
    unfolding f using assms by (simp add: low_flip_def)
  show "flip 1 n < 64" "flip 2 (flip 1 n) < 64" "flip 4 (flip 2 (flip 1 n)) < 64"
    "flip 8 (flip 4 (flip 2 (flip 1 n))) < 64" "flip 16 (flip 8 (flip 4 (flip 2 (flip 1 n)))) < 64"
    unfolding f using low_flip_less[OF assms, of 2 32] low_flip_less[OF assms, of 4 16]
      low_flip_less[OF assms, of 8 8] low_flip_less[OF assms, of 16 4] low_flip_less[OF assms, of 32 2]
    by simp_all
qed

definition swaps :: "nat \<Rightarrow> u64 \<Rightarrow> bool" where
  "swaps s m \<longleftrightarrow> (\<forall>n < 64. bit m n = even (n div s) \<and> flip s n < 64 \<and> (odd (n div s) \<longrightarrow> s \<le> n))"

lemma flip_less:
  assumes "n < 64" "64 = s * (2 * c)" "s > 0"
  shows "flip s n < 64" "odd (n div s) \<Longrightarrow> s \<le> n"
proof -
  have a: "n div s < 2 * c" using assms by (metis less_mult_imp_div_less mult.commute)
  have "n + s < 64" if ev: "even (n div s)"
  proof -
    obtain b where "n div s = 2 * b" using ev by blast
    then have "b + 1 \<le> c" "n div s + 2 = 2 * (b + 1)" using a by simp_all
    then have "n div s + 2 \<le> 2 * c" by (simp only: mult_le_mono2)
    then have "(n div s + 2) * s \<le> 2 * c * s" by (rule mult_right_mono) simp
    then have "(n div s + 2) * s \<le> 64" using assms(2) by (simp only: mult.commute)
    moreover have "n < (n div s + 1) * s"
      using dividend_less_div_times[OF assms(3), of n] by simp
    ultimately show ?thesis by (simp add: algebra_simps)
  qed
  then show "flip s n < 64" using assms(1) unfolding flip_def by auto
  show "odd (n div s) \<Longrightarrow> s \<le> n" by (metis div_less not_less even_zero)
qed

lemma half_parity:
  fixes s n :: nat
  assumes "s > 0"
  shows "even (n div (2 * s)) \<noteq> (s \<le> n \<and> even ((n - s) div (2 * s))) \<longleftrightarrow> even (n div s)"
proof -
  have 1: "n div (2 * s) = n div s div 2" and 2: "(n - s) div (2 * s) = (n - s) div s div 2"
    by (simp_all add: mult.commute[of 2] div_mult2_eq)
  have le: "s \<le> n \<longleftrightarrow> 1 \<le> n div s"
    using assms by (simp add: div_greater_zero_iff Suc_le_eq)
  have 3: "(n - s) div s = n div s - 1" if "s \<le> n"
    using that assms by (simp add: le_div_geq)
  show ?thesis
  proof (cases "s \<le> n")
    case True
    have "even (a div 2) \<noteq> even ((a - 1) div 2) \<longleftrightarrow> even a" if "1 \<le> a" for a :: nat
      using that by presburger
    then show ?thesis unfolding 1 2 3[OF True] using True le by blast
  next
    case False
    then show ?thesis unfolding 1 by simp
  qed
qed

lemma swaps_half:
  assumes "swaps (2 * s) m" "m' = m XOR push_bit s m" "64 = s * (2 * c)" "s > 0"
  shows "swaps s m'"
  unfolding swaps_def
proof (intro allI impI)
  fix n :: nat assume n: "n < 64"
  have m: "bit m i = even (i div (2 * s))" if "i < 64" for i using assms(1) that by (simp add: swaps_def)
  have "bit m' n \<longleftrightarrow> even (n div (2 * s)) \<noteq> (s \<le> n \<and> even ((n - s) div (2 * s)))"
    using n by (auto simp: assms(2) bit_simps m)
  then show "bit m' n = even (n div s) \<and> flip s n < 64 \<and> (odd (n div s) \<longrightarrow> s \<le> n)"
    unfolding half_parity[OF assms(4)] using flip_less[OF n assms(3,4)] by blast
qed

lemma bit_M32: "bit (0x00000000FFFFFFFF :: u64) n \<longleftrightarrow> n < 32"
proof -
  have "(0x00000000FFFFFFFF :: u64) = mask 32" by (simp add: mask_eq_decr_exp)
  then show ?thesis by (simp only: bit_mask_iff) auto
qed

lemma swaps_32: "swaps 32 0x00000000FFFFFFFF"
  unfolding swaps_def
proof (intro allI impI)
  fix n :: nat assume n: "n < 64"
  have "n div 32 = 0 \<or> n div 32 = 1" using n by auto
  then have "n < 32 \<longleftrightarrow> even (n div 32)" by (auto simp: div_eq_0_iff)
  then show "bit (0x00000000FFFFFFFF :: u64) n = even (n div 32) \<and> flip 32 n < 64 \<and> (odd (n div 32) \<longrightarrow> 32 \<le> n)"
    unfolding bit_M32 using flip_less[OF n, of 32 1] by simp
qed

lemma stage_masks:
  "swaps 1 0x5555555555555555" "swaps 2 0x3333333333333333" "swaps 4 0x0F0F0F0F0F0F0F0F"
  "swaps 8 0x00FF00FF00FF00FF" "swaps 16 0x0000FFFF0000FFFF"
proof -
  show 16: "swaps 16 0x0000FFFF0000FFFF" using swaps_32 by (intro swaps_half[of 16 "0x00000000FFFFFFFF" _ 2]) simp_all
  show 8: "swaps 8 0x00FF00FF00FF00FF" using 16 by (intro swaps_half[of 8 "0x0000FFFF0000FFFF" _ 4]) simp_all
  show 4: "swaps 4 0x0F0F0F0F0F0F0F0F" using 8 by (intro swaps_half[of 4 "0x00FF00FF00FF00FF" _ 8]) simp_all
  show 2: "swaps 2 0x3333333333333333" using 4 by (intro swaps_half[of 2 "0x0F0F0F0F0F0F0F0F" _ 16]) simp_all
  show "swaps 1 0x5555555555555555" using 2 by (intro swaps_half[of 1 "0x3333333333333333" _ 32]) simp_all
qed
lemma bit_rev_stage:
  assumes "swaps s m"
  shows "bit (rev_stage s m v) n \<longleftrightarrow> n < 64 \<and> flip s n < 64 \<and> bit v (flip s n)"
proof (cases "n < 64")
  case True
  then have "bit m n = even (n div s)" "flip s n < 64" "odd (n div s) \<longrightarrow> s \<le> n"
    using assms by (auto simp: swaps_def)
  then show ?thesis
    using True by (auto simp: rev_stage_def bit_simps flip_def add.commute)
next
  case False
  then show ?thesis using bit_imp_le_length[of "rev_stage s m v" n] by auto
qed

lemma bit_dict_rev: "bit (dict_rev v) n \<longleftrightarrow> n < 64 \<and> bit v (63 - n)"
proof (cases "n < 64")
  case True
  then show ?thesis
    using flips[OF True]
    by (simp add: dict_rev_stages bit_rev_stage stage_masks swaps_32 del: One_nat_def) linarith
next
  case False
  then show ?thesis using bit_imp_le_length[of "dict_rev v" n] by auto
qed

lemma dict_rev_rev [simp]: "dict_rev (dict_rev v) = v"
  by (rule bit_word_eqI) (auto simp: bit_dict_rev)

lemma dict_rev_eq_0 [simp]: "dict_rev v = 0 \<longleftrightarrow> v = 0"
  by (metis dict_rev_rev bit_dict_rev bit_0_eq bit_word_eqI bot_apply bot_bool_def)

lemma dict_rev_or: "dict_rev (a OR b) = dict_rev a OR dict_rev b"
  by (rule bit_word_eqI) (auto simp: bit_dict_rev bit_or_iff)

section \<open>Definitions\<close>

lemma unat_less_64: "unat (w :: u64) < 2 ^ 64"
  using unsigned_less[of w] by simp

lemma word_le_or: "x \<le> x OR y" for x y :: u64
  by (simp add: word_le_def unsigned_or_eq or_greater_eq)

text \<open>\<open>v |= ~m; v = rev(v); v++; v = rev(v);\<close>\<close>

definition scan_next :: "u64 \<Rightarrow> u64 \<Rightarrow> u64" where
  "scan_next m v = dict_rev (dict_rev (v OR NOT m) + 1)"

lemma scan_next_progress:
  assumes "scan_next m v \<noteq> 0"
  shows "unat (dict_rev v) < unat (dict_rev (scan_next m v))"
proof -
  have "dict_rev (v OR NOT m) + 1 \<noteq> 0"
    using assms by (auto simp: scan_next_def)
  then have "unat (dict_rev (v OR NOT m) + 1) = unat (dict_rev (v OR NOT m)) + 1"
    by (metis Suc_eq_plus1 unatSuc add.commute)
  moreover have "dict_rev v \<le> dict_rev (v OR NOT m)"
    unfolding dict_rev_or by (rule word_le_or)
  ultimately show ?thesis
    by (simp add: scan_next_def word_le_nat_alt)
qed

text \<open>
  The loop over the larger table: it emits the bucket of the cursor and goes on while the bits
  between the two masks are not all zero.
\<close>

function scan_large ::
  "('k, 'v) dictEntry list \<Rightarrow> u64 \<Rightarrow> u64 \<Rightarrow> u64 \<Rightarrow> (u64 \<times> ('k \<times> 'v option) list) option" where
  "scan_large tbl m0 m1 v = do {
     de \<leftarrow> nth_opt tbl (unat (v AND m1));
     let v' = scan_next m1 v;
     if v' AND (m0 XOR m1) \<noteq> 0
     then do { (v'', es) \<leftarrow> scan_large tbl m0 m1 v'; Some (v'', chain_kvs de @ es) }
     else Some (v', chain_kvs de)
   }"
  by pat_completeness auto
termination
proof (relation "measure (\<lambda>(tbl, m0, m1, v). 2 ^ 64 - unat (dict_rev v))", goal_cases)
  case (2 tbl m0 m1 v de v')
  then have "unat (dict_rev v) < unat (dict_rev v')"
    by (intro scan_next_progress[of m1 v, folded 2(2)]) auto
  moreover have "unat (dict_rev v') < 2 ^ 64" by (rule unat_less_64)
  ultimately show ?case by simp
qed simp

declare scan_large.simps [simp del]

definition dictScan ::
  "('k, 'v) dict \<Rightarrow> u64 \<Rightarrow> (u64 \<times> ('k \<times> 'v option) list) option" where
  "dictScan d v =
     (if dictSize d = 0 then Some (0, [])
      else if \<not> dictIsRehashing d then
        (let m0 = DICTHT_SIZE_MASK (ht_size_exp (ht0 d))
         in do { de \<leftarrow> nth_opt (ht_table (ht0 d)) (unat (v AND m0));
                 Some (scan_next m0 v, chain_kvs de) })
      else
        (let swap = DICTHT_SIZE (ht_size_exp (ht0 d)) > DICTHT_SIZE (ht_size_exp (ht1 d));
             small = (if swap then ht1 d else ht0 d);
             large = (if swap then ht0 d else ht1 d);
             m0 = DICTHT_SIZE_MASK (ht_size_exp small);
             m1 = DICTHT_SIZE_MASK (ht_size_exp large)
         in do { de \<leftarrow> nth_opt (ht_table small) (unat (v AND m0));
                 (v', es) \<leftarrow> scan_large (ht_table large) m0 m1 v;
                 Some (v', chain_kvs de @ es) }))"

text \<open>
  A client's iteration over the states that the dictionary has at its calls: it ends when the
  cursor is zero again.
\<close>

fun scan_calls ::
  "('k, 'v) dict list \<Rightarrow> u64 \<Rightarrow> (bool \<times> ('k \<times> 'v option) list) option" where
  "scan_calls [] v = Some (False, [])"
| "scan_calls (d # ds) v = do {
     (v', es) \<leftarrow> dictScan d v;
     if v' = 0 then Some (True, es)
     else do { (fin, es') \<leftarrow> scan_calls ds v'; Some (fin, es @ es') }
   }"

section \<open>Positions\<close>

definition pos :: "u64 \<Rightarrow> nat" where
  "pos v = unat (dict_rev v)"

definition gran :: "nat \<Rightarrow> nat" where
  "gran e = 2 ^ (64 - e)"

definition pos_next :: "nat \<Rightarrow> nat \<Rightarrow> nat" where
  "pos_next e p = (p div gran e + 1) * gran e"

lemma pos_less: "pos v < 2 ^ 64"
  unfolding pos_def by (rule unat_less_64)

lemma pos_eq_0: "pos v = 0 \<longleftrightarrow> v = 0"
  by (simp add: pos_def unat_eq_0)

lemma pos_inj: "pos v = pos w \<longleftrightarrow> v = w"
  by (metis pos_def dict_rev_rev word_unat_eq_iff)

lemma gran_pos [simp]: "gran e > 0"
  by (simp add: gran_def)

lemma gran_mult: "e \<le> 64 \<Longrightarrow> 2 ^ e * gran e = 2 ^ 64"
  unfolding gran_def by (simp only: power_add[symmetric]) simp

lemma dict_rev_not_mask: "e \<le> 64 \<Longrightarrow> dict_rev (NOT (mask e)) = mask (64 - e)"
  by (rule bit_word_eqI) (auto simp: bit_dict_rev bit_simps)

lemma unat_or_mask:
  assumes "k \<le> 64"
  shows "unat (x OR mask k :: u64) + 1 = (unat x div 2 ^ k + 1) * 2 ^ k"
proof -
  have "unat (x OR mask k) = unat x OR mask k"
    using assms bit_imp_le_length[of x]
    by (intro bit_eqI) (auto simp: bit_unsigned_iff bit_or_iff bit_mask_iff)
  also have "\<dots> = push_bit k (drop_bit k (unat x)) OR mask k"
    by (rule bit_eqI) (auto simp: bit_simps)
  also have "\<dots> = push_bit k (drop_bit k (unat x)) + mask k"
    by (rule disjunctive_add[symmetric]) (auto simp: bit_simps)
  also have "\<dots> + 1 = (unat x div 2 ^ k + 1) * 2 ^ k"
    by (simp add: push_bit_eq_mult drop_bit_eq_div mask_eq_exp_minus_1 algebra_simps)
  finally show ?thesis .
qed

lemma pos_next_le:
  assumes "e \<le> 64" "p < 2 ^ 64"
  shows "p < pos_next e p" "pos_next e p \<le> 2 ^ 64"
proof -
  show "p < pos_next e p"
    unfolding pos_next_def using dividend_less_div_times[of "gran e" p] by (simp add: algebra_simps)
  have "p div gran e < 2 ^ e"
    using assms gran_mult[OF assms(1)] by (metis gran_pos div_less_iff_less_mult)
  then have "(p div gran e + 1) * gran e \<le> 2 ^ e * gran e"
    by (intro mult_right_mono) auto
  then show "pos_next e p \<le> 2 ^ 64"
    using gran_mult[OF assms(1)] by (simp add: pos_next_def)
qed

lemma pos_scan_next:
  assumes "e \<le> 64"
  shows "pos (scan_next (mask e) v) = pos_next e (pos v) mod 2 ^ 64"
proof -
  have "pos (scan_next (mask e) v) = unat ((dict_rev v OR mask (64 - e)) + 1)"
    using assms by (simp add: pos_def scan_next_def dict_rev_or dict_rev_not_mask)
  also have "\<dots> = (unat (dict_rev v OR mask (64 - e)) + 1) mod 2 ^ 64"
    by (simp add: unat_word_ariths)
  also have "\<dots> = pos_next e (pos v) mod 2 ^ 64"
    using assms by (simp only: unat_or_mask diff_le_self) (simp only: pos_next_def gran_def pos_def)
  finally show ?thesis .
qed

text \<open>Two hashes fall into the same bucket when their positions do into the same interval.\<close>

lemma drop_bit_eq_iff: "drop_bit k x = drop_bit k y \<longleftrightarrow> (\<forall>j \<ge> k. bit x j = bit y j)" for x y :: u64
proof safe
  fix j assume eq: "drop_bit k x = drop_bit k y" and j: "k \<le> j"
  have "bit (drop_bit k x) (j - k) = bit (drop_bit k y) (j - k)" using eq by simp
  then have "bit x j = bit y j" using j by (simp add: bit_drop_bit_eq)
  then show "bit x j \<Longrightarrow> bit y j" "bit y j \<Longrightarrow> bit x j" by simp_all
qed (auto intro: bit_word_eqI simp: bit_drop_bit_eq)

lemma and_mask_eq_iff: "x AND mask e = y AND mask e \<longleftrightarrow> (\<forall>i < e. bit x i = bit y i)" for x y :: u64
proof safe
  fix i assume eq: "x AND mask e = y AND mask e" and i: "i < e"
  have "bit (x AND mask e) i = bit (y AND mask e) i" using eq by simp
  then have "i < 64 \<Longrightarrow> bit x i = bit y i" using i by (simp add: bit_simps)
  then show "bit x i \<Longrightarrow> bit y i" "bit y i \<Longrightarrow> bit x i"
    using bit_imp_le_length[of x i] bit_imp_le_length[of y i] by auto
qed (rule bit_word_eqI, auto simp: bit_simps)

lemma same_bucket:
  assumes "e \<le> 64"
  shows "h AND mask e = v AND mask e \<longleftrightarrow> pos h div gran e = pos v div gran e"
proof -
  have "h AND mask e = v AND mask e \<longleftrightarrow> (\<forall>j \<ge> 64 - e. bit (dict_rev h) j = bit (dict_rev v) j)"
    unfolding and_mask_eq_iff
  proof safe
    fix i assume *: "\<forall>j \<ge> 64 - e. bit (dict_rev h) j = bit (dict_rev v) j" and i: "i < e"
    have "64 - e \<le> 63 - i" "63 - i < 64" "63 - (63 - i) = i" using i assms by linarith+
    then have "bit h i = bit v i" using *[rule_format, of "63 - i"] by (simp add: bit_dict_rev)
    then show "bit h i \<Longrightarrow> bit v i" "bit v i \<Longrightarrow> bit h i" by simp_all
  next
    fix j assume *: "\<forall>i < e. bit h i = bit v i" and j: "64 - e \<le> j"
    have "bit (dict_rev h) j = bit (dict_rev v) j"
      using *[rule_format, of "63 - j"] j by (cases "j < 64") (auto simp: bit_dict_rev)
    then show "bit (dict_rev h) j \<Longrightarrow> bit (dict_rev v) j" "bit (dict_rev v) j \<Longrightarrow> bit (dict_rev h) j"
      by simp_all
  qed
  also have "\<dots> \<longleftrightarrow> drop_bit (64 - e) (dict_rev h) = drop_bit (64 - e) (dict_rev v)"
    unfolding drop_bit_eq_iff ..
  also have "\<dots> \<longleftrightarrow> pos h div gran e = pos v div gran e"
    unfolding word_unat_eq_iff pos_def gran_def unat_drop_bit_eq unfolding drop_bit_eq_div ..
  finally show ?thesis .
qed

lemma in_interval:
  assumes "p \<le> q" "q < pos_next e p"
  shows "q div gran e = p div gran e"
proof (rule antisym)
  show "q div gran e \<le> p div gran e"
    using assms(2) less_mult_imp_div_less[of q "p div gran e + 1" "gran e"] unfolding pos_next_def by simp
  show "p div gran e \<le> q div gran e" using assms(1) by (rule div_le_mono)
qed


section \<open>One call\<close>

lemma cells_ok_bucket:
  assumes "cells_ok t (int e) tbl" "e \<le> 60" "x \<in># table_bag tbl"
    and "pos v \<le> pos (hashFunction t (fst x))" "pos (hashFunction t (fst x)) < pos_next e (pos v)"
  shows "x \<in> set (chain_kvs (tbl ! unat (v AND mask e)))"
proof -
  obtain i where i: "i < length tbl" "x \<in> set (chain_kvs (tbl ! i))"
    using assms(3) by (auto simp: in_table_bag)
  then have "unat (hashFunction t (fst x) AND mask e) = i"
    using assms(1) by (auto simp: cells_ok_def cell_ok_def DICTHT_SIZE_MASK_mask)
  moreover have "hashFunction t (fst x) AND mask e = v AND mask e"
    using same_bucket[of e "hashFunction t (fst x)" v] in_interval[OF assms(4,5)] assms(2) by simp
  ultimately show ?thesis using i by simp
qed

lemma cells_ok_index:
  fixes v :: u64
  shows "cells_ok t (int e) tbl \<Longrightarrow> e \<le> 60 \<Longrightarrow> unat (v AND mask e) < length tbl"
  using unat_and_mask_less[of e v] by (simp add: cells_ok_def DICTHT_SIZE_def)

text \<open>The exit condition of the loop over the larger table.\<close>

lemma mask_gap:
  assumes "e0 \<le> e1" "e1 \<le> 64" "gran e1 dvd pos v"
  shows "v AND (mask e0 XOR mask e1) = 0 \<longleftrightarrow> gran e0 dvd pos v"
proof -
  have low: "gran e dvd pos v \<longleftrightarrow> (\<forall>j < 64 - e. \<not> bit (dict_rev v) j)" for e
    unfolding gran_def pos_def
    by (auto simp: bit_unsigned_iff dvd_eq_mod_eq_0 take_bit_eq_mod[symmetric] bit_eq_iff bit_take_bit_iff)
  have "v AND (mask e0 XOR mask e1) = 0 \<longleftrightarrow> (\<forall>i. e0 \<le> i \<longrightarrow> i < e1 \<longrightarrow> \<not> bit v i)"
    using assms(1,2) by (auto simp: bit_eq_iff bit_simps) (meson less_le_trans leD leI)+
  also have "\<dots> \<longleftrightarrow> (\<forall>j. 64 - e1 \<le> j \<longrightarrow> j < 64 - e0 \<longrightarrow> \<not> bit v (63 - j))"
  proof safe
    fix i assume *: "\<forall>j. 64 - e1 \<le> j \<longrightarrow> j < 64 - e0 \<longrightarrow> \<not> bit v (63 - j)" and i: "e0 \<le> i" "i < e1" "bit v i"
    have "64 - e1 \<le> 63 - i" "63 - i < 64 - e0" "63 - (63 - i) = i" using i assms(2) by linarith+
    then show False using *[rule_format, of "63 - i"] i(3) by simp
  qed auto
  also have "\<dots> \<longleftrightarrow> gran e0 dvd pos v"
    using assms(3) unfolding low by (auto simp: bit_dict_rev) (meson leI)
  finally show ?thesis .
qed

lemma pos_next_dvd: "gran e dvd pos_next e p"
  by (simp add: pos_next_def)

lemma gran_dvd: "e0 \<le> e1 \<Longrightarrow> gran e1 dvd gran e0"
  unfolding gran_def by (rule le_imp_power_dvd) simp

text \<open>Between two multiples of the coarser unit there is none.\<close>

lemma pos_next_coarse:
  assumes "e0 \<le> e1"
  shows "pos_next e1 p \<le> pos_next e0 p"
    and "gran e0 dvd pos_next e1 p \<Longrightarrow> pos_next e1 p = pos_next e0 p"
    and "\<not> gran e0 dvd pos_next e1 p \<Longrightarrow> pos_next e0 (pos_next e1 p) = pos_next e0 p"
proof -
  obtain c where c: "gran e0 = gran e1 * c" using gran_dvd[OF assms] by (auto simp: dvd_def)
  have "p div gran e0 = p div gran e1 div c" unfolding c by (rule div_mult2_eq)
  have lt: "p < pos_next e1 p" "p < pos_next e0 p"
    unfolding pos_next_def using dividend_less_div_times[of "gran e1" p] dividend_less_div_times[of "gran e0" p]
    by (simp_all add: algebra_simps)
  have "pos_next e0 p = (p div gran e0 + 1) * c * gran e1"
    unfolding pos_next_def c by (simp only: mult_ac)
  then have "p div gran e1 < (p div gran e0 + 1) * c"
    using lt(2) less_mult_imp_div_less by metis
  then have "(p div gran e1 + 1) * gran e1 \<le> (p div gran e0 + 1) * c * gran e1"
    by (intro mult_right_mono) auto
  then show le: "pos_next e1 p \<le> pos_next e0 p"
    unfolding pos_next_def c by (simp only: mult_ac)
  show "pos_next e1 p = pos_next e0 p" if d: "gran e0 dvd pos_next e1 p"
  proof (rule antisym[OF le])
    obtain k where k: "pos_next e1 p = gran e0 * k" using d by (auto simp: dvd_def)
    have "p div gran e0 < k" using lt(1) unfolding k by (simp add: less_mult_imp_div_less mult.commute)
    then have "gran e0 * (p div gran e0 + 1) \<le> gran e0 * k" by (intro mult_le_mono2) simp
    then show "pos_next e0 p \<le> pos_next e1 p"
      unfolding k pos_next_def[of e0] by (simp only: mult.commute)
  qed
  show "pos_next e0 (pos_next e1 p) = pos_next e0 p" if "\<not> gran e0 dvd pos_next e1 p"
  proof -
    have "pos_next e1 p < pos_next e0 p"
      using le that pos_next_dvd[of e0 p] by (metis order.not_eq_order_implies_strict)
    then have "pos_next e1 p div gran e0 = p div gran e0"
      using in_interval[of p "pos_next e1 p" e0] lt(1) by simp
    then show ?thesis by (simp add: pos_next_def)
  qed
qed

lemma scan_large_ok:
  fixes tbl :: "('k, 'v) dictEntry list"
  assumes cells: "cells_ok t (int e1) tbl" and e: "e0 \<le> e1" "e1 \<le> 60"
  shows "\<exists>v' es. scan_large tbl (mask e0) (mask e1) v = Some (v', es) \<and>
    pos v' = pos_next e0 (pos v) mod 2 ^ 64 \<and>
    (\<forall>x. x \<in># table_bag tbl \<longrightarrow> pos v \<le> pos (hashFunction t (fst x)) \<longrightarrow>
      pos (hashFunction t (fst x)) < pos_next e0 (pos v) \<longrightarrow> x \<in> set es)"
proof (induction "2 ^ 64 - pos v" arbitrary: v rule: less_induct)
  case less
  let ?m0 = "mask e0 :: u64" and ?m1 = "mask e1 :: u64" and ?w = "scan_next (mask e1) v"
  let ?de = "tbl ! unat (v AND ?m1)"
  have get: "nth_opt tbl (unat (v AND ?m1)) = Some ?de"
    using cells_ok_index[OF cells e(2)] by (simp add: nth_opt_def)
  have w: "pos ?w = pos_next e1 (pos v) mod 2 ^ 64" using pos_scan_next[of e1 v] e(2) by simp
  have bound: "pos v < pos_next e1 (pos v)" "pos_next e1 (pos v) \<le> 2 ^ 64"
    using pos_next_le[of e1 "pos v"] e(2) pos_less by auto
  have "gran e dvd 2 ^ 64" if "e \<le> 64" for e using gran_mult[OF that] by (metis dvd_triv_right)
  then have dvd64: "gran e0 dvd 2 ^ 64" "gran e1 dvd 2 ^ 64" using e by auto
  then have dvdw: "gran e dvd pos ?w \<longleftrightarrow> gran e dvd pos_next e1 (pos v)" if "e = e0 \<or> e = e1" for e
    unfolding w using that by (auto simp: dvd_mod_iff)
  have gap: "?w AND (?m0 XOR ?m1) = 0 \<longleftrightarrow> gran e0 dvd pos_next e1 (pos v)"
    using mask_gap[of e0 e1 ?w] e dvdw pos_next_dvd by auto
  have here: "x \<in> set (chain_kvs ?de)" if "x \<in># table_bag tbl" "pos v \<le> pos (hashFunction t (fst x))"
    "pos (hashFunction t (fst x)) < pos_next e1 (pos v)" for x
    using cells_ok_bucket[OF cells e(2) that] .
  show ?case
  proof (cases "gran e0 dvd pos_next e1 (pos v)")
    case True
    then have "scan_large tbl ?m0 ?m1 v = Some (?w, chain_kvs ?de)"
      using get gap by (subst scan_large.simps) (simp add: Let_def)
    then show ?thesis
      using w here pos_next_coarse(2)[OF e(1) True] by auto
  next
    case False
    then have "pos_next e1 (pos v) \<noteq> 2 ^ 64" using dvd64 by metis
    then have w': "pos ?w = pos_next e1 (pos v)" using w bound(2) by simp
    have "2 ^ 64 - pos ?w < 2 ^ 64 - pos v" using w' bound pos_less[of ?w] by linarith
    from less.hyps[OF this] obtain v' es where rec:
      "scan_large tbl ?m0 ?m1 ?w = Some (v', es)" "pos v' = pos_next e0 (pos ?w) mod 2 ^ 64"
      "\<forall>x. x \<in># table_bag tbl \<longrightarrow> pos ?w \<le> pos (hashFunction t (fst x)) \<longrightarrow>
        pos (hashFunction t (fst x)) < pos_next e0 (pos ?w) \<longrightarrow> x \<in> set es"
      by blast
    have "scan_large tbl ?m0 ?m1 v = Some (v', chain_kvs ?de @ es)"
      using get gap False rec(1) by (subst scan_large.simps) (simp add: Let_def)
    moreover have "pos_next e0 (pos ?w) = pos_next e0 (pos v)"
      unfolding w' by (rule pos_next_coarse(3)[OF e(1) False])
    ultimately show ?thesis
      using rec(2,3) here w' by (auto simp del: split_paired_All)
  qed
qed


text \<open>
  What one call covers: the positions from the cursor up to the next multiple of the unit of the
  smaller table.
\<close>

definition small_exp :: "('k, 'v) dict \<Rightarrow> nat" where
  "small_exp d = nat (if dictIsRehashing d then min (ht_size_exp (ht0 d)) (ht_size_exp (ht1 d))
     else ht_size_exp (ht0 d))"

lemma DICTHT_SIZE_less_iff: "0 \<le> a \<Longrightarrow> 0 \<le> b \<Longrightarrow> DICTHT_SIZE a < DICTHT_SIZE b \<longleftrightarrow> a < b"
  by (auto simp: DICTHT_SIZE_nonneg)

lemma dictScan_single:
  assumes alloc: "ht_alloc t (ht0 d)" and "\<not> dictIsRehashing d" "dictSize d \<noteq> 0" "ht1 d = u_dictReset"
  shows "\<exists>v' es. dictScan d v = Some (v', es) \<and> pos v' = pos_next (small_exp d) (pos v) mod 2 ^ 64 \<and>
    (\<forall>x. x \<in># dict_bag d \<longrightarrow> pos v \<le> pos (hashFunction t (fst x)) \<longrightarrow>
      pos (hashFunction t (fst x)) < pos_next (small_exp d) (pos v) \<longrightarrow> x \<in> set es)"
proof -
  let ?e = "small_exp d"
  have e: "ht_size_exp (ht0 d) = int ?e" "?e \<le> 60"
    using alloc assms(2) by (auto simp: ht_alloc_def small_exp_def)
  have cells: "cells_ok t (int ?e) (ht_table (ht0 d))"
    using alloc e(1) by (simp add: ht_alloc_def)
  have mask: "DICTHT_SIZE_MASK (ht_size_exp (ht0 d)) = mask ?e"
    unfolding e(1) by (simp add: DICTHT_SIZE_MASK_mask)
  have "dictScan d v = Some (scan_next (mask ?e) v, chain_kvs (ht_table (ht0 d) ! unat (v AND mask ?e)))"
    using assms(2,3) cells_ok_index[OF cells e(2)] by (simp add: dictScan_def mask nth_opt_def Let_def)
  moreover have "dict_bag d = table_bag (ht_table (ht0 d))"
    using assms(4) by (simp add: dict_bag_def u_dictReset_def)
  ultimately show ?thesis
    using cells_ok_bucket[OF cells e(2)] pos_scan_next[of ?e v] e(2) by simp
qed

lemma dictScan_rehashing:
  assumes inv: "rehash_inv t d" and "dictIsRehashing d" "dictSize d \<noteq> 0"
  shows "\<exists>v' es. dictScan d v = Some (v', es) \<and> pos v' = pos_next (small_exp d) (pos v) mod 2 ^ 64 \<and>
    (\<forall>x. x \<in># dict_bag d \<longrightarrow> pos v \<le> pos (hashFunction t (fst x)) \<longrightarrow>
      pos (hashFunction t (fst x)) < pos_next (small_exp d) (pos v) \<longrightarrow> x \<in> set es)"
proof -
  define swap where "swap \<longleftrightarrow> DICTHT_SIZE (ht_size_exp (ht0 d)) > DICTHT_SIZE (ht_size_exp (ht1 d))"
  define small where "small = (if swap then ht1 d else ht0 d)"
  define large where "large = (if swap then ht0 d else ht1 d)"
  have a: "ht_alloc t (ht0 d)" "ht_alloc t (ht1 d)" using inv by (auto simp: rehash_inv_def)
  then have nn: "0 \<le> ht_size_exp (ht0 d)" "0 \<le> ht_size_exp (ht1 d)" by (auto simp: ht_alloc_def)
  have swap: "swap \<longleftrightarrow> ht_size_exp (ht1 d) < ht_size_exp (ht0 d)"
    unfolding swap_def by (rule DICTHT_SIZE_less_iff[OF nn(2,1)])
  let ?e0 = "small_exp d" and ?e1 = "nat (ht_size_exp large)"
  have e: "ht_size_exp small = int ?e0" "ht_size_exp large = int ?e1" "?e0 \<le> ?e1" "?e1 \<le> 60" "?e0 \<le> 60"
    using a nn swap assms(2) by (auto simp: small_def large_def small_exp_def ht_alloc_def)
  have cells: "cells_ok t (int ?e0) (ht_table small)" "cells_ok t (int ?e1) (ht_table large)"
    using a nn unfolding e(1)[symmetric] by (auto simp: ht_alloc_def small_def large_def)
  have masks: "DICTHT_SIZE_MASK (ht_size_exp small) = mask ?e0" "DICTHT_SIZE_MASK (ht_size_exp large) = mask ?e1"
    using nn e(1) DICTHT_SIZE_MASK_mask[of "ht_size_exp small"] DICTHT_SIZE_MASK_mask[of "ht_size_exp large"]
    by (auto simp: small_def large_def)
  let ?de = "ht_table small ! unat (v AND mask ?e0)"
  obtain v' es where l: "scan_large (ht_table large) (mask ?e0) (mask ?e1) v = Some (v', es)"
    "pos v' = pos_next ?e0 (pos v) mod 2 ^ 64"
    "\<forall>x. x \<in># table_bag (ht_table large) \<longrightarrow> pos v \<le> pos (hashFunction t (fst x)) \<longrightarrow>
      pos (hashFunction t (fst x)) < pos_next ?e0 (pos v) \<longrightarrow> x \<in> set es"
    using scan_large_ok[OF cells(2) e(3,4)] by blast
  have "dictScan d v = do { de \<leftarrow> nth_opt (ht_table small) (unat (v AND mask ?e0));
      (v', es) \<leftarrow> scan_large (ht_table large) (mask ?e0) (mask ?e1) v; Some (v', chain_kvs de @ es) }"
    using assms(2,3) unfolding dictScan_def Let_def swap_def[symmetric] small_def[symmetric] large_def[symmetric] masks
    by simp
  then have "dictScan d v = Some (v', chain_kvs ?de @ es)"
    using cells_ok_index[OF cells(1) e(5)] l(1) by (simp add: nth_opt_def)
  moreover have "dict_bag d = table_bag (ht_table small) + table_bag (ht_table large)"
    by (auto simp: dict_bag_def small_def large_def)
  ultimately show ?thesis
    using cells_ok_bucket[OF cells(1) e(5)] l(2,3) by (auto simp del: split_paired_All)
qed

lemma dictScan_ok:
  assumes "dict_inv t d" "dictSize d \<noteq> 0"
  shows "\<exists>v' es. dictScan d v = Some (v', es) \<and> pos v' = pos_next (small_exp d) (pos v) mod 2 ^ 64 \<and>
    small_exp d \<le> 60 \<and>
    (\<forall>x. x \<in># dict_bag d \<longrightarrow> pos v \<le> pos (hashFunction t (fst x)) \<longrightarrow>
      pos (hashFunction t (fst x)) < pos_next (small_exp d) (pos v) \<longrightarrow> x \<in> set es)"
proof (cases "dictIsRehashing d")
  case True
  then have ri: "rehash_inv t d" using assms(1) by (simp add: dict_inv_def tables_inv_def)
  then have "small_exp d \<le> 60" using True by (auto simp: small_exp_def rehash_inv_def ht_alloc_def)
  then show ?thesis using dictScan_rehashing[OF ri True assms(2), of v] by blast
next
  case False
  have "ht0 d \<noteq> u_dictReset" "ht1 d = u_dictReset"
    using assms False by (auto simp: dict_inv_def tables_inv_def dictSize_def u_dictReset_def)
  then have al: "ht_alloc t (ht0 d)" using assms(1) False by (auto simp: dict_inv_def tables_inv_def)
  then have "small_exp d \<le> 60" using False by (auto simp: small_exp_def ht_alloc_def)
  then show ?thesis using dictScan_single[OF al False assms(2) \<open>ht1 d = u_dictReset\<close>, of v] by blast
qed

section \<open>A whole iteration\<close>

lemma scan_calls_complete:
  assumes "\<forall>d \<in> set ds. dict_inv t d \<and> (\<exists>v. (k, v) \<in># dict_bag d)"
    and "scan_calls ds v = Some (True, es)" and "pos v \<le> pos (hashFunction t k)"
  shows "\<exists>val. (k, val) \<in> set es"
  using assms
proof (induction ds arbitrary: v es)
  case (Cons d ds)
  let ?h = "pos (hashFunction t k)"
  obtain val where k: "(k, val) \<in># dict_bag d" and inv: "dict_inv t d" using Cons.prems(1) by auto
  then have "dictSize d \<noteq> 0" using dictSize_bag[of t d] by (auto simp: dict_inv_def)
  from dictScan_ok[OF inv this, of v] obtain v' es1 where s: "dictScan d v = Some (v', es1)"
    "pos v' = pos_next (small_exp d) (pos v) mod 2 ^ 64" "small_exp d \<le> 60"
    "\<forall>x. x \<in># dict_bag d \<longrightarrow> pos v \<le> pos (hashFunction t (fst x)) \<longrightarrow>
      pos (hashFunction t (fst x)) < pos_next (small_exp d) (pos v) \<longrightarrow> x \<in> set es1"
    by blast
  let ?n = "pos_next (small_exp d) (pos v)"
  have n: "?n \<le> 2 ^ 64" using pos_next_le(2)[of "small_exp d" "pos v"] s(3) pos_less by simp
  show ?case
  proof (cases "?h < ?n")
    case True
    then have "(k, val) \<in> set es1" using s(4)[rule_format, of "(k, val)"] k Cons.prems(3) by simp
    then show ?thesis using Cons.prems(2) s(1) by (auto split: if_splits prod.splits elim!: bind_SomeE)
  next
    case False
    then have "?n \<noteq> 2 ^ 64" using pos_less[of "hashFunction t k"] by linarith
    then have v': "pos v' = ?n" "v' \<noteq> 0"
      using s(2) n pos_next_le(1)[of "small_exp d" "pos v"] s(3) pos_less pos_eq_0[of v'] by auto
    then obtain es2 where "scan_calls ds v' = Some (True, es2)" "es = es1 @ es2"
      using Cons.prems(2) s(1) by (auto split: if_splits elim!: bind_SomeE)
    then show ?thesis
      using Cons.IH[of v' es2] Cons.prems(1) False v'(1) by auto
  qed
qed simp


text \<open>With the dictionary left alone the iteration ends after as many calls as the smaller table has buckets.\<close>

lemma pos_next_div: "pos_next e p div gran e = p div gran e + 1"
  by (simp add: pos_next_def)

lemma scan_calls_ends:
  assumes "dict_inv t d" "dictSize d \<noteq> 0"
  shows "pos v div gran (small_exp d) + n \<ge> 2 ^ small_exp d \<Longrightarrow> n > 0 \<Longrightarrow>
    \<exists>es. scan_calls (replicate n d) v = Some (True, es)"
proof (induction n arbitrary: v)
  case (Suc n)
  let ?e = "small_exp d"
  obtain v' es where s: "dictScan d v = Some (v', es)" "pos v' = pos_next ?e (pos v) mod 2 ^ 64" "?e \<le> 60"
    using dictScan_ok[OF assms, of v] by blast
  show ?case
  proof (cases "v' = 0")
    case True
    then show ?thesis using s(1) by simp
  next
    case False
    have le: "pos_next ?e (pos v) \<le> 2 ^ 64" using pos_next_le(2)[of ?e "pos v"] s(3) pos_less by simp
    then have v': "pos v' = pos_next ?e (pos v)" and lt: "pos_next ?e (pos v) < 2 ^ 64"
      using s(2) False pos_eq_0[of v'] by (auto simp: le_less)
    have "pos_next ?e (pos v) div gran ?e < 2 ^ ?e"
      using lt gran_mult[of ?e] s(3) by (simp add: less_mult_imp_div_less)
    then have n: "n > 0" "pos v' div gran ?e + n \<ge> 2 ^ ?e"
      using Suc.prems(1) unfolding v' pos_next_div by auto
    obtain es' where "scan_calls (replicate n d) v' = Some (True, es')"
      using Suc.IH[OF n(2,1)] by blast
    then show ?thesis using s(1) False by simp
  qed
qed simp

section \<open>Properties\<close>

text \<open>
  (C3) An iteration with \<open>dictScan\<close> from cursor 0 until the cursor is 0 again calls the
  callback for every key that is in the dictionary at all the calls, even if between the calls
  the dictionary grows, shrinks, starts, continues or ends rehashings and changes otherwise.
\<close>

theorem dict_scan_complete:
  assumes "\<forall>d \<in> set ds. dict_inv t d \<and> (\<exists>v. (k, v) \<in># dict_bag d)"
    and "scan_calls ds 0 = Some (True, es)"
  shows "\<exists>val. (k, val) \<in> set es"
  by (rule scan_calls_complete[OF assms]) (simp add: pos_eq_0[THEN iffD2])

text \<open>The example dictionary before and after the end of its rehashing.\<close>

definition ex_dict_done :: "(nat, nat) dict" where
  "ex_dict_done =
     \<lparr>ht0 = \<lparr>ht_table = [DNull, DNormal 1 (Some 10) DNull, DNormal 2 (Some 20) DNull, DNull,
        DNormal 4 (Some 40) DNull, DNull, DNormal 6 (Some 60) DNull, DNull], ht_used = 4, ht_size_exp = 3\<rparr>,
      ht1 = u_dictReset, rehashidx = - 1, pauserehash = 0\<rparr>"

lemma ex_dict_done_inv: "dict_inv ex_type ex_dict_done"
proof -
  have "keys_unique ex_type (dict_bag ex_dict_done)"
    by (auto simp: keys_unique_def dict_bag_def ex_dict_done_def ex_type_def key_match_def dictCompareKeys_def
        u_dictReset_def)
  moreover have "tables_inv ex_type ex_dict_done"
    by (auto simp: tables_inv_def ht_alloc_def cells_ok_enumerate cell_ok_def ex_dict_done_def
        ex_type_def dictIsRehashing_def DICTHT_SIZE_def DICTHT_SIZE_MASK_def u_dictReset_def)
  ultimately show ?thesis by (simp add: dict_inv_def)
qed

lemma ex_pos:
  "pos 0 = 0" "pos 4 = 1 * 2 ^ 61" "pos 2 = 2 * 2 ^ 61" "pos 6 = 3 * 2 ^ 61" "pos 1 = 4 * 2 ^ 61"
  "pos 5 = 5 * 2 ^ 61" "pos 3 = 6 * 2 ^ 61" "pos 7 = 7 * 2 ^ 61"
  by (simp_all add: pos_def dict_rev_stages rev_stage_def)

lemma scan_next_7:
  assumes "pos v = i * 2 ^ 61" "pos w = (i + 1) * 2 ^ 61 mod 2 ^ 64"
  shows "scan_next 7 v = w"
proof -
  have "(7 :: u64) = mask 3" by (simp add: mask_eq_decr_exp)
  moreover have "pos_next 3 (pos v) = (i + 1) * 2 ^ 61" by (simp add: pos_next_def gran_def assms(1))
  ultimately have "pos (scan_next 7 v) = pos w" using pos_scan_next[of 3 v] assms(2) by simp
  then show ?thesis by (simp only: pos_inj)
qed

lemma ex_cursors:
  "scan_next 7 0 = 4" "scan_next 7 4 = 2" "scan_next 7 2 = 6" "scan_next 7 6 = 1" "scan_next 7 1 = 5"
  "scan_next 7 5 = 3" "scan_next 7 3 = 7" "scan_next 7 7 = 0"
  by (rule scan_next_7[of _ 0] scan_next_7[of _ 1] scan_next_7[of _ 2] scan_next_7[of _ 3] scan_next_7[of _ 4]
      scan_next_7[of _ 5] scan_next_7[of _ 6] scan_next_7[of _ 7]; simp add: ex_pos; fail)+

lemma ex_scan:
  "dictScan ex_dict 0 = Some (2, [(4, Some 40)])"
  "dictScan ex_dict_done 2 = Some (6, [(2, Some 20)])"
  "dictScan ex_dict_done 6 = Some (1, [(6, Some 60)])"
  "dictScan ex_dict_done 1 = Some (5, [(1, Some 10)])"
  "dictScan ex_dict_done 5 = Some (3, [])"
  "dictScan ex_dict_done 3 = Some (7, [])"
  "dictScan ex_dict_done 7 = Some (0, [])"
  by (simp_all add: dictScan_def dictSize_def dictIsRehashing_def ex_dict_def ex_dict_done_def u_dictReset_def
      DICTHT_SIZE_def DICTHT_SIZE_MASK_def nth_opt_def scan_large.simps ex_cursors)

theorem dict_scan_complete_witness:
  "\<exists>es. scan_calls [ex_dict, ex_dict_done, ex_dict_done, ex_dict_done, ex_dict_done, ex_dict_done, ex_dict_done] 0 =
     Some (True, es) \<and> (\<exists>val. (6, val) \<in> set es)"
proof -
  let ?ds = "[ex_dict, ex_dict_done, ex_dict_done, ex_dict_done, ex_dict_done, ex_dict_done, ex_dict_done]"
  let ?es = "[(4, Some 40), (2, Some 20), (6, Some 60), (1, Some 10)]"
  have "scan_calls ?ds 0 = Some (True, ?es)" by (simp add: ex_scan)
  moreover have "\<forall>d \<in> set ?ds. dict_inv ex_type d \<and> (\<exists>v. (6, v) \<in># dict_bag d)"
    using ex_dict_inv ex_dict_done_inv by (simp add: dict_bag_def ex_dict_def ex_dict_done_def u_dictReset_def)
  ultimately show ?thesis
    using dict_scan_complete[of ?ds ex_type 6 ?es] by blast
qed

text \<open>
  (C24) When the dictionary does not change, the iteration ends after at most as many calls as
  its smaller table has buckets, and it has returned every entry.
\<close>

theorem dict_scan_terminates:
  assumes "dict_inv t d" "dictSize d \<noteq> 0"
  shows "\<exists>es. scan_calls (replicate (2 ^ small_exp d) d) 0 = Some (True, es) \<and>
    (\<forall>k v. (k, v) \<in># dict_bag d \<longrightarrow> (\<exists>val. (k, val) \<in> set es))"
proof -
  obtain es where es: "scan_calls (replicate (2 ^ small_exp d) d) 0 = Some (True, es)"
    using scan_calls_ends[OF assms, of 0 "2 ^ small_exp d"] by auto
  moreover have "\<exists>val. (k, val) \<in> set es" if "(k, v) \<in># dict_bag d" for k v
    by (rule scan_calls_complete[OF _ es]) (use assms(1) that in \<open>auto simp: pos_eq_0[THEN iffD2]\<close>)
  ultimately show ?thesis by blast
qed

theorem dict_scan_terminates_witness:
  "\<exists>es. scan_calls (replicate 4 ex_dict) 0 = Some (True, es) \<and> (\<exists>val. (6, val) \<in> set es)"
proof -
  have "(6, Some 60) \<in># dict_bag ex_dict" by (simp add: ex_dict_def dict_bag_def)
  moreover have "small_exp ex_dict = 2" by (simp add: small_exp_def ex_dict_def dictIsRehashing_def)
  moreover obtain es where "scan_calls (replicate 4 ex_dict) 0 = Some (True, es)"
    "\<forall>k v. (k, v) \<in># dict_bag ex_dict \<longrightarrow> (\<exists>val. (k, val) \<in> set es)"
    using dict_scan_terminates[OF ex_dict_inv] calculation(2) by (auto simp: ex_simps)
  ultimately show ?thesis by blast
qed

end
