(* ===== verification/Listpack.thy ===== *)
theory Listpack
  imports Redis_Prelude Util_Numbers
begin

text \<open>
  The listpack of \<open>listpack.c\<close>: a list of strings and integers packed in one heap
  block. A header holds the total number of bytes (4 bytes) and the number of elements (2
  bytes, 65535 when it is not known), then come the entries, then the byte \<open>0xFF\<close>.
  An entry is a type byte with length or value bytes, the data, and its own length again
  written backwards, so that the block can be walked from both ends.

  The block is the list of its bytes (the length of the list is
  \<open>lp_malloc_size\<close>), a pointer into it is the offset from \<open>lp\<close>, and
  \<open>None\<close> is an access outside the block or a failed \<open>assert\<close>. Several
  bytes that the code shifts and ors together are read by \<open>shift_or\<close>.
\<close>

section \<open>Header and integrity macros\<close>

abbreviation (input) LP_HDR_SIZE :: nat where "LP_HDR_SIZE \<equiv> 6"
abbreviation (input) LP_HDR_NUMELE_UNKNOWN :: nat where "LP_HDR_NUMELE_UNKNOWN \<equiv> 65535"
abbreviation (input) LP_EOF :: byte where "LP_EOF \<equiv> 0xFF"

fun shift_or :: "bytes \<Rightarrow> nat" where
  "shift_or [] = 0"
| "shift_or (b # bs) = unat b OR push_bit 8 (shift_or bs)"

definition lp_is_7bit_uint :: "byte \<Rightarrow> bool" where "lp_is_7bit_uint b \<longleftrightarrow> b AND 0x80 = 0"
definition lp_is_6bit_str :: "byte \<Rightarrow> bool" where "lp_is_6bit_str b \<longleftrightarrow> b AND 0xC0 = 0x80"
definition lp_is_13bit_int :: "byte \<Rightarrow> bool" where "lp_is_13bit_int b \<longleftrightarrow> b AND 0xE0 = 0xC0"
definition lp_is_12bit_str :: "byte \<Rightarrow> bool" where "lp_is_12bit_str b \<longleftrightarrow> b AND 0xF0 = 0xE0"
definition lp_is_16bit_int :: "byte \<Rightarrow> bool" where "lp_is_16bit_int b \<longleftrightarrow> b AND 0xFF = 0xF1"
definition lp_is_24bit_int :: "byte \<Rightarrow> bool" where "lp_is_24bit_int b \<longleftrightarrow> b AND 0xFF = 0xF2"
definition lp_is_32bit_int :: "byte \<Rightarrow> bool" where "lp_is_32bit_int b \<longleftrightarrow> b AND 0xFF = 0xF3"
definition lp_is_64bit_int :: "byte \<Rightarrow> bool" where "lp_is_64bit_int b \<longleftrightarrow> b AND 0xFF = 0xF4"
definition lp_is_32bit_str :: "byte \<Rightarrow> bool" where "lp_is_32bit_str b \<longleftrightarrow> b AND 0xFF = 0xF0"

definition lp_6bit_str_len :: "bytes \<Rightarrow> nat \<Rightarrow> nat option" where
  "lp_6bit_str_len m p = do { b \<leftarrow> mem_byte m p; Some (unat (b AND 0x3F)) }"

definition lp_12bit_str_len :: "bytes \<Rightarrow> nat \<Rightarrow> nat option" where
  "lp_12bit_str_len m p = do {
     b0 \<leftarrow> mem_byte m p;
     b1 \<leftarrow> mem_byte m (p + 1);
     Some (push_bit 8 (unat (b0 AND 0xF)) OR unat b1)
   }"

definition lp_32bit_str_len :: "bytes \<Rightarrow> nat \<Rightarrow> nat option" where
  "lp_32bit_str_len m p = do { bs \<leftarrow> mem_get m (p + 1) 4; Some (shift_or bs) }"

definition lpGetTotalBytes :: "bytes \<Rightarrow> nat option" where
  "lpGetTotalBytes m = do { bs \<leftarrow> mem_get m 0 4; Some (shift_or bs) }"

definition lpGetNumElements :: "bytes \<Rightarrow> nat option" where
  "lpGetNumElements m = do { bs \<leftarrow> mem_get m 4 2; Some (shift_or bs) }"

definition lpSetTotalBytes :: "bytes \<Rightarrow> nat \<Rightarrow> bytes option" where
  "lpSetTotalBytes m v =
     mem_put m 0 [of_nat v, of_nat (drop_bit 8 v), of_nat (drop_bit 16 v), of_nat (drop_bit 24 v)]"

definition lpSetNumElements :: "bytes \<Rightarrow> nat \<Rightarrow> bytes option" where
  "lpSetNumElements m v = mem_put m 4 [of_nat v, of_nat (drop_bit 8 v)]"

definition assert_integrity :: "bytes \<Rightarrow> nat \<Rightarrow> unit option" where
  "assert_integrity m p = do {
     t \<leftarrow> lpGetTotalBytes m;
     c_assert (p \<ge> LP_HDR_SIZE \<and> p < t)
   }"

definition assert_integrity_len :: "bytes \<Rightarrow> nat \<Rightarrow> nat \<Rightarrow> unit option" where
  "assert_integrity_len m p len = do {
     t \<leftarrow> lpGetTotalBytes m;
     c_assert (p \<ge> LP_HDR_SIZE \<and> p + len < t)
   }"

text \<open>\<open>lpSafeToAdd\<close>; \<open>None\<close> as first argument is the null pointer.\<close>

definition lpSafeToAdd :: "bytes option \<Rightarrow> nat \<Rightarrow> bool option" where
  "lpSafeToAdd lp add = do {
     len \<leftarrow> (case lp of None \<Rightarrow> Some 0 | Some m \<Rightarrow> lpGetTotalBytes m);
     Some (if len + add > 2 ^ 30 then False else True)
   }"

section \<open>Encodings\<close>

text \<open>
  \<open>lpStringToInt64\<close>: \<open>None\<close> is the return value 0. The scan of the digits
  after the first one keeps the value and the part of the string not yet read.
\<close>

fun lp_digits :: "nat \<Rightarrow> bytes \<Rightarrow> (nat \<times> bytes) option" where
  "lp_digits v [] = Some (v, [])"
| "lp_digits v (c # p) =
     (if c \<ge> 48 \<and> c \<le> 57 then
        if v > 18446744073709551615 div 10 then None
        else if v * 10 > 18446744073709551615 - (unat c - 48) then None
        else lp_digits (v * 10 + (unat c - 48)) p
      else Some (v, c # p))"

definition lpStringToInt64 :: "bytes \<Rightarrow> int option" where
  "lpStringToInt64 s =
     (if length s = 0 \<or> length s \<ge> LONG_STR_SIZE then None
      else if length s = 1 \<and> hd s = 48 then Some 0
      else
        let negative = (hd s = 45);
            p = (if negative then tl s else s)
        in if negative \<and> p = [] then None
           else if hd p \<ge> 49 \<and> hd p \<le> 57 then
             (case lp_digits (unat (hd p) - 48) (tl p) of
                None \<Rightarrow> None
              | Some (v, rest) \<Rightarrow>
                  if rest \<noteq> [] then None
                  else if negative then
                    (if int v > - (INT64_MIN + 1) + 1 then None else Some (- int v))
                  else if int v > INT64_MAX then None else Some (int v))
           else None)"

text \<open>
  \<open>lpEncodeIntegerGetType\<close> returns the bytes it leaves in \<open>intenc\<close>;
  \<open>*enclen\<close> is their number.
\<close>

definition lpEncodeIntegerGetType :: "int \<Rightarrow> bytes" where
  "lpEncodeIntegerGetType v =
     (if v \<ge> 0 \<and> v \<le> 127 then [word_of_int v]
      else if v \<ge> - 4096 \<and> v \<le> 4095 then
        let v = (if v < 0 then 2 ^ 13 + v else v)
        in [word_of_int (drop_bit 8 v) OR 0xC0, word_of_int v]
      else if v \<ge> - 32768 \<and> v \<le> 32767 then
        let v = (if v < 0 then 2 ^ 16 + v else v)
        in [0xF1, word_of_int v, word_of_int (drop_bit 8 v)]
      else if v \<ge> - 8388608 \<and> v \<le> 8388607 then
        let v = (if v < 0 then 2 ^ 24 + v else v)
        in [0xF2, word_of_int v, word_of_int (drop_bit 8 v), word_of_int (drop_bit 16 v)]
      else if v \<ge> - 2147483648 \<and> v \<le> 2147483647 then
        let v = (if v < 0 then 2 ^ 32 + v else v)
        in [0xF3, word_of_int v, word_of_int (drop_bit 8 v), word_of_int (drop_bit 16 v),
            word_of_int (drop_bit 24 v)]
      else
        let uv = v mod 2 ^ 64
        in [0xF4, word_of_int uv, word_of_int (drop_bit 8 uv), word_of_int (drop_bit 16 uv),
            word_of_int (drop_bit 24 uv), word_of_int (drop_bit 32 uv),
            word_of_int (drop_bit 40 uv), word_of_int (drop_bit 48 uv),
            word_of_int (drop_bit 56 uv)])"

datatype lp_enctype = LP_ENCODING_INT | LP_ENCODING_STRING

definition lpEncodeGetType :: "bytes \<Rightarrow> lp_enctype \<times> bytes \<times> nat" where
  "lpEncodeGetType ele =
     (let size = length ele
      in case lpStringToInt64 ele of
           Some v \<Rightarrow>
             let intenc = lpEncodeIntegerGetType v in (LP_ENCODING_INT, intenc, length intenc)
         | None \<Rightarrow>
             (LP_ENCODING_STRING, [],
              if size < 64 then 1 + size else if size < 4096 then 2 + size else 5 + size))"

text \<open>
  \<open>lpEncodeBacklen\<close> returns the bytes it stores when \<open>buf\<close> is given; the
  return value of the C function is their number.
\<close>

definition lpEncodeBacklen :: "nat \<Rightarrow> bytes" where
  "lpEncodeBacklen l =
     (if l \<le> 127 then [of_nat l]
      else if l < 16383 then [of_nat (drop_bit 7 l), of_nat (l AND 127) OR 128]
      else if l < 2097151 then
        [of_nat (drop_bit 14 l), of_nat (drop_bit 7 l AND 127) OR 128, of_nat (l AND 127) OR 128]
      else if l < 268435455 then
        [of_nat (drop_bit 21 l), of_nat (drop_bit 14 l AND 127) OR 128,
         of_nat (drop_bit 7 l AND 127) OR 128, of_nat (l AND 127) OR 128]
      else
        [of_nat (drop_bit 28 l), of_nat (drop_bit 21 l AND 127) OR 128,
         of_nat (drop_bit 14 l AND 127) OR 128, of_nat (drop_bit 7 l AND 127) OR 128,
         of_nat (l AND 127) OR 128])"

text \<open>
  \<open>lpDecodeBacklen\<close> walks backwards from \<open>p\<close>; \<open>UINT64_MAX\<close> reports
  an encoding of more than five bytes.
\<close>

function lp_backlen_loop :: "bytes \<Rightarrow> nat \<Rightarrow> nat \<Rightarrow> nat \<Rightarrow> nat option" where
  "lp_backlen_loop m p val shift = do {
     b \<leftarrow> mem_byte m p;
     let val = val OR push_bit shift (unat (b AND 127));
     if b AND 128 = 0 then Some val
     else if shift + 7 > 28 then Some 18446744073709551615
     else if p = 0 then None
     else lp_backlen_loop m (p - 1) val (shift + 7)
   }"
  by pat_completeness auto
termination by (relation "measure (\<lambda>(m, p, val, shift). 35 - shift)") auto

definition lpDecodeBacklen :: "bytes \<Rightarrow> nat \<Rightarrow> nat option" where
  "lpDecodeBacklen m p = lp_backlen_loop m p 0 0"

text \<open>\<open>lpEncodeString\<close> returns the bytes it stores at \<open>buf\<close>.\<close>

definition lpEncodeString :: "bytes \<Rightarrow> bytes" where
  "lpEncodeString s =
     (let len = length s
      in if len < 64 then (of_nat len OR 0x80) # s
         else if len < 4096 then [of_nat (drop_bit 8 len) OR 0xE0, of_nat len] @ s
         else [0xF0, of_nat len, of_nat (drop_bit 8 len), of_nat (drop_bit 16 len),
               of_nat (drop_bit 24 len)] @ s)"

text \<open>The sizes are \<open>uint32_t\<close>: the sum for a 32 bit string wraps around.\<close>

definition lpCurrentEncodedSizeUnsafe :: "bytes \<Rightarrow> nat \<Rightarrow> nat option" where
  "lpCurrentEncodedSizeUnsafe m p = do {
     b \<leftarrow> mem_byte m p;
     if lp_is_7bit_uint b then Some 1
     else if lp_is_6bit_str b then do { n \<leftarrow> lp_6bit_str_len m p; Some (1 + n) }
     else if lp_is_13bit_int b then Some 2
     else if lp_is_16bit_int b then Some 3
     else if lp_is_24bit_int b then Some 4
     else if lp_is_32bit_int b then Some 5
     else if lp_is_64bit_int b then Some 9
     else if lp_is_12bit_str b then do { n \<leftarrow> lp_12bit_str_len m p; Some (2 + n) }
     else if lp_is_32bit_str b then do { n \<leftarrow> lp_32bit_str_len m p; Some ((5 + n) mod 2 ^ 32) }
     else if b = LP_EOF then Some 1
     else Some 0
   }"

definition lpCurrentEncodedSizeBytes :: "bytes \<Rightarrow> nat \<Rightarrow> nat option" where
  "lpCurrentEncodedSizeBytes m p = do {
     b \<leftarrow> mem_byte m p;
     if lp_is_7bit_uint b then Some 1
     else if lp_is_6bit_str b then Some 1
     else if lp_is_13bit_int b then Some 1
     else if lp_is_16bit_int b then Some 1
     else if lp_is_24bit_int b then Some 1
     else if lp_is_32bit_int b then Some 1
     else if lp_is_64bit_int b then Some 1
     else if lp_is_12bit_str b then Some 2
     else if lp_is_32bit_str b then Some 5
     else if b = LP_EOF then Some 1
     else Some 0
   }"

section \<open>Walking\<close>

definition lpBytes :: "bytes \<Rightarrow> nat option" where "lpBytes m = lpGetTotalBytes m"

definition lpSkip :: "bytes \<Rightarrow> nat \<Rightarrow> nat option" where
  "lpSkip m p = do {
     entrylen \<leftarrow> lpCurrentEncodedSizeUnsafe m p;
     Some (p + (entrylen + length (lpEncodeBacklen entrylen)))
   }"

text \<open>
  \<open>lpValidateNext\<close> returns its result and the new value of \<open>*pp\<close>, a null
  pointer being \<open>None\<close>.
\<close>

definition lp_out_of_range :: "nat \<Rightarrow> nat \<Rightarrow> bool" where
  "lp_out_of_range lpbytes p \<longleftrightarrow> p < LP_HDR_SIZE \<or> int p > int lpbytes - 1"

definition lpValidateNext :: "bytes \<Rightarrow> nat option \<Rightarrow> nat \<Rightarrow> (bool \<times> nat option) option" where
  "lpValidateNext m pp lpbytes =
     (case pp of
        None \<Rightarrow> Some (False, None)
      | Some p \<Rightarrow>
          if lp_out_of_range lpbytes p then Some (False, pp)
          else do {
            b \<leftarrow> mem_byte m p;
            if b = LP_EOF then Some (True, None)
            else do {
              lenbytes \<leftarrow> lpCurrentEncodedSizeBytes m p;
              if lenbytes = 0 then Some (False, pp)
              else if lp_out_of_range lpbytes (p + lenbytes) then Some (False, pp)
              else do {
                entrylen \<leftarrow> lpCurrentEncodedSizeUnsafe m p;
                let encodedBacklen = length (lpEncodeBacklen entrylen);
                let entrylen = entrylen + encodedBacklen;
                if lp_out_of_range lpbytes (p + entrylen) then Some (False, pp)
                else do {
                  prevlen \<leftarrow> lpDecodeBacklen m (p + entrylen - 1);
                  if (prevlen + encodedBacklen) mod 2 ^ 64 \<noteq> entrylen then Some (False, pp)
                  else Some (True, Some (p + entrylen))
                }
              }
            }
          })"

definition lpAssertValidEntry :: "bytes \<Rightarrow> nat \<Rightarrow> nat \<Rightarrow> unit option" where
  "lpAssertValidEntry m lpbytes p = do {
     (valid, _) \<leftarrow> lpValidateNext m (Some p) lpbytes;
     c_assert valid
   }"

text \<open>A null result pointer is \<open>Some None\<close>.\<close>

definition lpNext :: "bytes \<Rightarrow> nat \<Rightarrow> nat option option" where
  "lpNext m p = do {
     p \<leftarrow> lpSkip m p;
     b \<leftarrow> mem_byte m p;
     if b = LP_EOF then Some None
     else do {
       t \<leftarrow> lpBytes m;
       lpAssertValidEntry m t p;
       Some (Some p)
     }
   }"

definition lpPrev :: "bytes \<Rightarrow> nat \<Rightarrow> nat option option" where
  "lpPrev m p =
     (if p = LP_HDR_SIZE then Some None
      else if p = 0 then None
      else do {
        let p = p - 1;
        prevlen \<leftarrow> lpDecodeBacklen m p;
        let prevlen = (prevlen + length (lpEncodeBacklen prevlen)) mod 2 ^ 64;
        let back = (prevlen + (2 ^ 64 - 1)) mod 2 ^ 64;
        c_assert (back \<le> p);
        t \<leftarrow> lpBytes m;
        lpAssertValidEntry m t (p - back);
        Some (Some (p - back))
      })"

definition lpFirst :: "bytes \<Rightarrow> nat option option" where
  "lpFirst m = do {
     b \<leftarrow> mem_byte m LP_HDR_SIZE;
     if b = LP_EOF then Some None
     else do {
       t \<leftarrow> lpBytes m;
       lpAssertValidEntry m t LP_HDR_SIZE;
       Some (Some LP_HDR_SIZE)
     }
   }"

definition lpLast :: "bytes \<Rightarrow> nat option option" where
  "lpLast m = do {
     t \<leftarrow> lpGetTotalBytes m;
     c_assert (t \<ge> 1);
     lpPrev m (t - 1)
   }"

text \<open>
  \<open>lpLength\<close> returns the block too, because it may store the count it found.
  A step of the scan strictly advances inside the listpack, so the scan ends.
\<close>

lemma lpAssertValidEntry_range:
  "lpAssertValidEntry m t p = Some () \<Longrightarrow> 6 \<le> p \<and> p < t"
  unfolding lpAssertValidEntry_def lpValidateNext_def
  by (auto simp: lp_out_of_range_def c_assert_def split: if_splits)

lemma lpSkip_greater: "lpSkip m p = Some q \<Longrightarrow> p < q"
proof -
  have "0 < length (lpEncodeBacklen n)" for n by (simp add: lpEncodeBacklen_def)
  then show "lpSkip m p = Some q \<Longrightarrow> p < q"
    unfolding lpSkip_def by (auto simp del: length_greater_0_conv elim!: bind_SomeE)
qed

lemma lpNext_range:
  assumes "lpNext m p = Some (Some q)"
  shows "p < q \<and> q < the (lpGetTotalBytes m)"
  using assms unfolding lpNext_def lpBytes_def
  by (auto elim!: bind_SomeE split: if_splits 
      dest: lpSkip_greater) (simp add: lpAssertValidEntry_range)

function lp_count :: "bytes \<Rightarrow> nat option \<Rightarrow> nat \<Rightarrow> nat option" where
  "lp_count m None count = Some count"
| "lp_count m (Some p) count = do {
     q \<leftarrow> lpNext m p;
     lp_count m q ((count + 1) mod 2 ^ 32)
   }"
  by pat_completeness auto
termination
  by (relation "measure (\<lambda>(m, p, _).
        case p of None \<Rightarrow> 0 | Some p \<Rightarrow> Suc (the (lpGetTotalBytes m) - p))")
    (auto split: option.splits dest!: lpNext_range)

definition lpLength :: "bytes \<Rightarrow> (bytes \<times> nat) option" where
  "lpLength m = do {
     numele \<leftarrow> lpGetNumElements m;
     if numele \<noteq> LP_HDR_NUMELE_UNKNOWN then Some (m, numele)
     else do {
       p \<leftarrow> lpFirst m;
       count \<leftarrow> lp_count m p 0;
       m \<leftarrow> (if count < LP_HDR_NUMELE_UNKNOWN then lpSetNumElements m count else Some m);
       Some (m, count)
     }
   }"

section \<open>Reading an element\<close>

text \<open>
  The three ways \<open>lpGetWithSize\<close> returns: a pointer into the listpack with
  \<open>*count\<close> the length, the caller's \<open>intbuf\<close> (whose new contents are given)
  with \<open>*count\<close> the length, or NULL with \<open>*count\<close> the integer.
  \<open>*entry_size\<close> stays as it was, \<open>None\<close>, for an unknown type byte.
\<close>

datatype lp_value = LpPtr nat nat | LpBuf bytes nat | LpNull int

abbreviation (input) LP_INTBUF_SIZE :: nat where "LP_INTBUF_SIZE \<equiv> 21"

definition lp_get_int :: "bytes option \<Rightarrow> nat \<Rightarrow> nat \<Rightarrow> nat \<Rightarrow> lp_value option" where
  "lp_get_int intbuf uval negstart negmax =
     (let val = (if uval \<ge> negstart then - (int negmax - int uval) - 1 else int uval)
      in case intbuf of
           Some buf \<Rightarrow> do { (buf, n) \<leftarrow> ll2string buf 0 LP_INTBUF_SIZE val; Some (LpBuf buf n) }
         | None \<Rightarrow> Some (LpNull val))"

definition lpGetWithSize ::
  "bytes \<Rightarrow> nat \<Rightarrow> bytes option \<Rightarrow> (lp_value \<times> nat option) option" where
  "lpGetWithSize m p intbuf = do {
     b \<leftarrow> mem_byte m p;
     if lp_is_7bit_uint b then do {
       v \<leftarrow> lp_get_int intbuf (unat (b AND 0x7f)) 18446744073709551615 0;
       Some (v, Some 2) }
     else if lp_is_6bit_str b then do {
       n \<leftarrow> lp_6bit_str_len m p;
       Some (LpPtr (p + 1) n, Some (1 + n + length (lpEncodeBacklen (n + 1)))) }
     else if lp_is_13bit_int b then do {
       b1 \<leftarrow> mem_byte m (p + 1);
       v \<leftarrow> lp_get_int intbuf (push_bit 8 (unat (b AND 0x1f)) OR unat b1) (2 ^ 12) 8191;
       Some (v, Some 3) }
     else if lp_is_16bit_int b then do {
       bs \<leftarrow> mem_get m (p + 1) 2;
       v \<leftarrow> lp_get_int intbuf (shift_or bs) (2 ^ 15) 65535;
       Some (v, Some 4) }
     else if lp_is_24bit_int b then do {
       bs \<leftarrow> mem_get m (p + 1) 3;
       v \<leftarrow> lp_get_int intbuf (shift_or bs) (2 ^ 23) (drop_bit 8 4294967295);
       Some (v, Some 5) }
     else if lp_is_32bit_int b then do {
       bs \<leftarrow> mem_get m (p + 1) 4;
       v \<leftarrow> lp_get_int intbuf (shift_or bs) (2 ^ 31) 4294967295;
       Some (v, Some 6) }
     else if lp_is_64bit_int b then do {
       bs \<leftarrow> mem_get m (p + 1) 8;
       v \<leftarrow> lp_get_int intbuf (shift_or bs) (2 ^ 63) 18446744073709551615;
       Some (v, Some 10) }
     else if lp_is_12bit_str b then do {
       n \<leftarrow> lp_12bit_str_len m p;
       Some (LpPtr (p + 2) n, Some (2 + n + length (lpEncodeBacklen (n + 2)))) }
     else if lp_is_32bit_str b then do {
       n \<leftarrow> lp_32bit_str_len m p;
       Some (LpPtr (p + 5) n, Some (5 + n + length (lpEncodeBacklen (n + 5)))) }
     else do {
       v \<leftarrow> lp_get_int intbuf (12345678900000000 + unat b) 18446744073709551615 0;
       Some (v, None) }
   }"

definition lpGet :: "bytes \<Rightarrow> nat \<Rightarrow> bytes option \<Rightarrow> lp_value option" where
  "lpGet m p intbuf = do { (v, _) \<leftarrow> lpGetWithSize m p intbuf; Some v }"

text \<open>
  \<open>lpGetValue\<close>: \<open>*slen\<close> is an \<open>unsigned int\<close>, set for a string;
  \<open>*lval\<close> is set for an integer.
\<close>

definition lpGetValue :: "bytes \<Rightarrow> nat \<Rightarrow> lp_value option" where
  "lpGetValue m p = do {
     vstr \<leftarrow> lpGet m p None;
     (case vstr of
        LpPtr q ele_len \<Rightarrow> Some (LpPtr q (ele_len mod 2 ^ 32))
      | LpBuf b n \<Rightarrow> Some (LpBuf b n)
      | LpNull ele_len \<Rightarrow> Some (LpNull ele_len))
   }"

text \<open>
  \<open>lpFind\<close>. The state of its loop: the cursor, \<open>skipcnt\<close>,
  \<open>vencoding\<close>, \<open>vll\<close> (0 while it is not set) and \<open>entry_size\<close>. One
  pass ends in \<open>Inl\<close> of the return value or in the next state.
\<close>

record lp_find_state =
  fp :: nat
  skipcnt :: nat
  vencoding :: nat
  vll :: int
  entry_size :: nat

definition lp_find_check :: "bytes \<Rightarrow> nat \<Rightarrow> lp_find_state \<Rightarrow> (nat option + lp_find_state) option" where
  "lp_find_check m lp_bytes st = do {
     (if fp st + 8 \<ge> lp_bytes then lpAssertValidEntry m lp_bytes (fp st)
      else c_assert (fp st \<ge> LP_HDR_SIZE \<and> fp st < lp_bytes));
     b \<leftarrow> mem_byte m (fp st);
     Some (if b = LP_EOF then Inl None else Inr st)
   }"

definition lp_find_step ::
  "bytes \<Rightarrow> bytes \<Rightarrow> nat \<Rightarrow> nat \<Rightarrow> lp_find_state \<Rightarrow> (nat option + lp_find_state) option" where
  "lp_find_step m s skip lp_bytes st =
     (let p = fp st; slen = length s
      in if skipcnt st = 0 then do {
           (value, es) \<leftarrow> lpGetWithSize m p None;
           let es = (case es of Some n \<Rightarrow> n | None \<Rightarrow> entry_size st);
           (case value of
              LpNull ll \<Rightarrow>
                let venc = (if vencoding st = 0 then
                              (if slen \<ge> 32 \<or> slen = 0 \<or> lpStringToInt64 s = None then 255 else 1)
                            else vencoding st);
                    vl = (if vencoding st = 0 \<and> venc = 1 then the (lpStringToInt64 s) else vll st)
                in if venc \<noteq> 255 \<and> ll = vl then Some (Inl (Some p))
                   else lp_find_check m lp_bytes
                          \<lparr>fp = p + es, skipcnt = skip, vencoding = venc, vll = vl, entry_size = es\<rparr>
            | LpBuf _ _ \<Rightarrow> None
            | LpPtr q ll \<Rightarrow> do {
                c_assert (p \<ge> LP_HDR_SIZE \<and> p + es < lp_bytes);
                same \<leftarrow> (if slen = ll then do { v \<leftarrow> mem_get m q slen; Some (v = s) }
                        else Some False);
                if same then Some (Inl (Some p))
                else lp_find_check m lp_bytes
                       (st\<lparr>fp := p + es, skipcnt := skip, entry_size := es\<rparr>)
              })
         }
         else do {
           q \<leftarrow> lpSkip m p;
           lp_find_check m lp_bytes (st\<lparr>fp := q, skipcnt := skipcnt st - 1\<rparr>)
         })"

partial_function (option) lp_find_loop ::
  "bytes \<Rightarrow> bytes \<Rightarrow> nat \<Rightarrow> nat \<Rightarrow> lp_find_state \<Rightarrow> nat option option" where
  "lp_find_loop m s skip lp_bytes st =
     Option.bind (lp_find_step m s skip lp_bytes st)
       (\<lambda>r. case r of Inl res \<Rightarrow> Some res | Inr st' \<Rightarrow> lp_find_loop m s skip lp_bytes st')"

definition lpFind :: "bytes \<Rightarrow> nat \<Rightarrow> bytes \<Rightarrow> nat \<Rightarrow> nat option option" where
  "lpFind m p s skip = do {
     lp_bytes \<leftarrow> lpBytes m;
     lp_find_loop m s skip lp_bytes
       \<lparr>fp = p, skipcnt = 0, vencoding = 0, vll = 0, entry_size = 123456789\<rparr>
   }"

definition lpCompare :: "bytes \<Rightarrow> nat \<Rightarrow> bytes \<Rightarrow> bool option" where
  "lpCompare m p s = do {
     b \<leftarrow> mem_byte m p;
     if b = LP_EOF then Some False
     else do {
       v \<leftarrow> lpGet m p None;
       (case v of
          LpPtr q sz \<Rightarrow>
            if length s = sz then do { v \<leftarrow> mem_get m q (length s); Some (v = s) } else Some False
        | LpBuf _ _ \<Rightarrow> None
        | LpNull sz \<Rightarrow>
            (case lpStringToInt64 s of Some sval \<Rightarrow> Some (sz = sval) | None \<Rightarrow> Some False))
     }
   }"

section \<open>Seeking\<close>

fun lp_seek_fwd :: "bytes \<Rightarrow> nat \<Rightarrow> nat option \<Rightarrow> nat option option" where
  "lp_seek_fwd m 0 ele = Some ele"
| "lp_seek_fwd m (Suc index) None = Some None"
| "lp_seek_fwd m (Suc index) (Some p) = do { q \<leftarrow> lpNext m p; lp_seek_fwd m index q }"

fun lp_seek_bwd :: "bytes \<Rightarrow> nat \<Rightarrow> nat option \<Rightarrow> nat option option" where
  "lp_seek_bwd m 0 ele = Some ele"
| "lp_seek_bwd m (Suc index) None = Some None"
| "lp_seek_bwd m (Suc index) (Some p) = do { q \<leftarrow> lpPrev m p; lp_seek_bwd m index q }"

definition lp_seek_from :: "bytes \<Rightarrow> bool \<Rightarrow> int \<Rightarrow> nat option option" where
  "lp_seek_from m forward index =
     (if forward then do { ele \<leftarrow> lpFirst m; lp_seek_fwd m (nat index) ele }
      else do { ele \<leftarrow> lpLast m; lp_seek_bwd m (nat (- 1 - index)) ele })"

definition lpSeek :: "bytes \<Rightarrow> int \<Rightarrow> nat option option" where
  "lpSeek m index = do {
     numele \<leftarrow> lpGetNumElements m;
     if numele \<noteq> LP_HDR_NUMELE_UNKNOWN then
       let index = (if index < 0 then int numele + index else index)
       in if index < 0 then Some None
          else if index \<ge> int numele then Some None
          else if index > int numele div 2 then lp_seek_from m False (index - int numele)
          else lp_seek_from m True index
     else lp_seek_from m (\<not> index < 0) index
   }"

section \<open>Allocation\<close>

text \<open>
  The allocator: the contents of fresh memory by offset and the usable size of an allocation
  of a given size, which \<open>zmalloc_usable\<close> and \<open>zrealloc_usable\<close> make
  available in full. Both abort the process when there is no memory and never return NULL.
\<close>

record lp_allocator =
  junk :: "nat \<Rightarrow> byte"
  usable :: "nat \<Rightarrow> nat"

definition lp_malloc :: "lp_allocator \<Rightarrow> nat \<Rightarrow> bytes" where
  "lp_malloc A n = map (junk A) [0..<usable A n]"

definition lp_realloc :: "lp_allocator \<Rightarrow> bytes \<Rightarrow> nat \<Rightarrow> bytes" where
  "lp_realloc A m n = mem_realloc (junk A) m (usable A n)"

definition lpNew :: "lp_allocator \<Rightarrow> nat \<Rightarrow> bytes option" where
  "lpNew A capacity = do {
     let m = lp_malloc A (if capacity > LP_HDR_SIZE + 1 then capacity else LP_HDR_SIZE + 1);
     m \<leftarrow> lpSetTotalBytes m (LP_HDR_SIZE + 1);
     m \<leftarrow> lpSetNumElements m 0;
     mem_put m LP_HDR_SIZE [LP_EOF]
   }"

definition lpShrinkToFit :: "lp_allocator \<Rightarrow> bytes \<Rightarrow> bytes option" where
  "lpShrinkToFit A m = do {
     size \<leftarrow> lpGetTotalBytes m;
     Some (if size < length m then lp_realloc A m size else m)
   }"

definition lpDup :: "lp_allocator \<Rightarrow> bytes \<Rightarrow> bytes option" where
  "lpDup A m = do {
     lpbytes \<leftarrow> lpBytes m;
     bs \<leftarrow> mem_get m 0 lpbytes;
     mem_put (lp_malloc A lpbytes) 0 bs
   }"

definition lpEstimateBytesRepeatedInteger :: "int \<Rightarrow> nat \<Rightarrow> nat" where
  "lpEstimateBytesRepeatedInteger lval rep =
     (let enclen = length (lpEncodeIntegerGetType lval);
          backlen = length (lpEncodeBacklen enclen)
      in LP_HDR_SIZE + (enclen + backlen) * rep + 1)"

section \<open>Updates\<close>

text \<open>
  \<open>lpInsert\<close>: the result is \<open>None\<close> for the return value NULL, else the
  block and \<open>*newp\<close> (\<open>want_newp\<close> tells that \<open>newp\<close> is given).
  A length that would be negative is a huge \<open>size_t\<close>, for which the move fails.
\<close>

datatype lp_where = LP_BEFORE | LP_AFTER | LP_REPLACE

definition lp_ins_encode ::
  "bytes option \<Rightarrow> bytes option \<Rightarrow> lp_enctype option \<times> bytes option \<times> nat" where
  "lp_ins_encode elestr eleint =
     (case elestr of
        Some s \<Rightarrow>
          (case lpEncodeGetType s of
             (LP_ENCODING_INT, intenc, enclen) \<Rightarrow> (Some LP_ENCODING_INT, Some intenc, enclen)
           | (LP_ENCODING_STRING, intenc, enclen) \<Rightarrow> (Some LP_ENCODING_STRING, eleint, enclen))
      | None \<Rightarrow>
          (case eleint of
             Some e \<Rightarrow> (Some LP_ENCODING_INT, eleint, length e)
           | None \<Rightarrow> (None, None, 0)))"

definition lp_ins_room ::
  "lp_allocator \<Rightarrow> bytes \<Rightarrow> lp_where \<Rightarrow> nat \<Rightarrow> nat \<Rightarrow> nat \<Rightarrow> nat \<Rightarrow> nat \<Rightarrow> bytes option" where
  "lp_ins_room A m where poff room replaced_len old new = do {
     let m = (if new > old \<and> new > length m then lp_realloc A m new else m);
     c_assert (poff + replaced_len \<le> old);
     m \<leftarrow> (if where = LP_BEFORE then mem_move m (poff + room) poff (old - poff)
           else mem_move m (poff + room) (poff + replaced_len) (old - poff - replaced_len));
     Some (if new < old then lp_realloc A m new else m)
   }"

definition lp_ins_store ::
  "bytes \<Rightarrow> nat \<Rightarrow> lp_enctype option \<Rightarrow> bytes option \<Rightarrow> bytes option \<Rightarrow> nat \<Rightarrow> bytes \<Rightarrow> bytes option" where
  "lp_ins_store m dst enctype elestr eleint enclen backlen = do {
     m \<leftarrow> (if enctype = Some LP_ENCODING_INT then
             (case eleint of Some e \<Rightarrow> mem_put m dst (take enclen e) | None \<Rightarrow> None)
           else (case elestr of Some s \<Rightarrow> mem_put m dst (lpEncodeString s) | None \<Rightarrow> None));
     mem_put m (dst + enclen) backlen
   }"

definition lp_ins_header :: "bytes \<Rightarrow> bool \<Rightarrow> bool \<Rightarrow> nat \<Rightarrow> bytes option" where
  "lp_ins_header m counts del new = do {
     m \<leftarrow> (if counts then do {
             num \<leftarrow> lpGetNumElements m;
             if num \<noteq> LP_HDR_NUMELE_UNKNOWN then
               (if \<not> del then lpSetNumElements m (num + 1)
                else lpSetNumElements m (nat ((int num - 1) mod 2 ^ 32)))
             else Some m }
           else Some m);
     lpSetTotalBytes m new
   }"

definition lpInsert ::
  "lp_allocator \<Rightarrow> bytes \<Rightarrow> bytes option \<Rightarrow> bytes option \<Rightarrow> nat \<Rightarrow> lp_where \<Rightarrow> bool \<Rightarrow>
   (bytes \<times> nat option) option option" where
  "lpInsert A m elestr eleint p where want_newp = do {
     let del = (elestr = None \<and> eleint = None);
     let where = (if del then LP_REPLACE else where);
     (p, where) \<leftarrow>
       (if where = LP_AFTER then do {
          p \<leftarrow> lpSkip m p;
          assert_integrity m p;
          Some (p, LP_BEFORE) }
        else Some (p, where));
     let (enctype, eleint, enclen) = lp_ins_encode elestr eleint;
     let backlen = (if \<not> del then lpEncodeBacklen enclen else []);
     old \<leftarrow> lpGetTotalBytes m;
     replaced_len \<leftarrow>
       (if where = LP_REPLACE then do {
          n \<leftarrow> lpCurrentEncodedSizeUnsafe m p;
          let n = (n + length (lpEncodeBacklen n)) mod 2 ^ 32;
          assert_integrity_len m p n;
          Some n }
        else Some 0);
     let new = old + enclen + length backlen - replaced_len;
     if new > 4294967295 then Some None
     else do {
       m \<leftarrow> lp_ins_room A m where p (enclen + length backlen) replaced_len old new;
       newp \<leftarrow> (if want_newp then
                  (if del then do { b \<leftarrow> mem_byte m p; Some (if b = LP_EOF then None else Some p) }
                   else Some (Some p))
                else Some None);
       m \<leftarrow> (if \<not> del then lp_ins_store m p enctype elestr eleint enclen backlen else Some m);
       m \<leftarrow> lp_ins_header m (where \<noteq> LP_REPLACE \<or> del) del new;
       Some (Some (m, newp))
     }
   }"

definition lpInsertString ::
  "lp_allocator \<Rightarrow> bytes \<Rightarrow> bytes \<Rightarrow> nat \<Rightarrow> lp_where \<Rightarrow> bool \<Rightarrow> (bytes \<times> nat option) option option" where
  "lpInsertString A m s p where want_newp = lpInsert A m (Some s) None p where want_newp"

definition lpInsertInteger ::
  "lp_allocator \<Rightarrow> bytes \<Rightarrow> int \<Rightarrow> nat \<Rightarrow> lp_where \<Rightarrow> bool \<Rightarrow> (bytes \<times> nat option) option option" where
  "lpInsertInteger A m lval p where want_newp =
     lpInsert A m None (Some (lpEncodeIntegerGetType lval)) p where want_newp"

definition lpAppend :: "lp_allocator \<Rightarrow> bytes \<Rightarrow> bytes \<Rightarrow> (bytes \<times> nat option) option option" where
  "lpAppend A m ele = do {
     t \<leftarrow> lpGetTotalBytes m;
     c_assert (t \<ge> 1);
     lpInsert A m (Some ele) None (t - 1) LP_BEFORE False
   }"

definition lpAppendInteger :: "lp_allocator \<Rightarrow> bytes \<Rightarrow> int \<Rightarrow> (bytes \<times> nat option) option option" where
  "lpAppendInteger A m lval = do {
     t \<leftarrow> lpGetTotalBytes m;
     c_assert (t \<ge> 1);
     lpInsertInteger A m lval (t - 1) LP_BEFORE False
   }"

definition lpPrepend :: "lp_allocator \<Rightarrow> bytes \<Rightarrow> bytes \<Rightarrow> (bytes \<times> nat option) option option" where
  "lpPrepend A m s = do {
     p \<leftarrow> lpFirst m;
     (case p of
        None \<Rightarrow> lpAppend A m s
      | Some p \<Rightarrow> lpInsert A m (Some s) None p LP_BEFORE False)
   }"

definition lpPrependInteger :: "lp_allocator \<Rightarrow> bytes \<Rightarrow> int \<Rightarrow> (bytes \<times> nat option) option option" where
  "lpPrependInteger A m lval = do {
     p \<leftarrow> lpFirst m;
     (case p of
        None \<Rightarrow> lpAppendInteger A m lval
      | Some p \<Rightarrow> lpInsertInteger A m lval p LP_BEFORE False)
   }"

definition lpReplace ::
  "lp_allocator \<Rightarrow> bytes \<Rightarrow> nat \<Rightarrow> bytes \<Rightarrow> (bytes \<times> nat option) option option" where
  "lpReplace A m p s = lpInsert A m (Some s) None p LP_REPLACE True"

definition lpReplaceInteger ::
  "lp_allocator \<Rightarrow> bytes \<Rightarrow> nat \<Rightarrow> int \<Rightarrow> (bytes \<times> nat option) option option" where
  "lpReplaceInteger A m p lval = lpInsertInteger A m lval p LP_REPLACE True"

definition lpDelete ::
  "lp_allocator \<Rightarrow> bytes \<Rightarrow> nat \<Rightarrow> bool \<Rightarrow> (bytes \<times> nat option) option option" where
  "lpDelete A m p want_newp = lpInsert A m None None p LP_REPLACE want_newp"

text \<open>Deleting a range: the block and the new value of \<open>*p\<close>.\<close>

fun lp_range_tail :: "bytes \<Rightarrow> nat \<Rightarrow> nat \<Rightarrow> nat \<Rightarrow> nat \<Rightarrow> (nat \<times> nat) option" where
  "lp_range_tail m t 0 tail deleted = Some (tail, deleted)"
| "lp_range_tail m t (Suc num) tail deleted = do {
     tail \<leftarrow> lpSkip m tail;
     b \<leftarrow> mem_byte m tail;
     if b = LP_EOF then Some (tail, deleted + 1)
     else do {
       lpAssertValidEntry m t tail;
       lp_range_tail m t num tail (deleted + 1)
     }
   }"

definition lpDeleteRangeWithEntry ::
  "lp_allocator \<Rightarrow> bytes \<Rightarrow> nat \<Rightarrow> nat \<Rightarrow> (bytes \<times> nat option) option" where
  "lpDeleteRangeWithEntry A m p num = do {
     t \<leftarrow> lpBytes m;
     if num = 0 then Some (m, Some p)
     else do {
       (tail, deleted) \<leftarrow> lp_range_tail m t num p 0;
       c_assert (tail \<le> t);
       m \<leftarrow> mem_move m p tail (t - tail);
       m \<leftarrow> lpSetTotalBytes m (t - (tail - p));
       numele \<leftarrow> lpGetNumElements m;
       m \<leftarrow> (if numele \<noteq> LP_HDR_NUMELE_UNKNOWN
             then lpSetNumElements m (nat ((int numele - int deleted) mod 2 ^ 64)) else Some m);
       m \<leftarrow> lpShrinkToFit A m;
       b \<leftarrow> mem_byte m p;
       Some (m, if b = LP_EOF then None else Some p)
     }
   }"

definition lpDeleteRange :: "lp_allocator \<Rightarrow> bytes \<Rightarrow> int \<Rightarrow> nat \<Rightarrow> bytes option" where
  "lpDeleteRange A m index num = do {
     numele \<leftarrow> lpGetNumElements m;
     if num = 0 then Some m
     else do {
       p \<leftarrow> lpSeek m index;
       (case p of
          None \<Rightarrow> Some m
        | Some p \<Rightarrow>
            let index = (if numele \<noteq> LP_HDR_NUMELE_UNKNOWN \<and> index < 0
                         then int numele + index else index)
            in if numele \<noteq> LP_HDR_NUMELE_UNKNOWN \<and> (int numele - index) mod 2 ^ 64 \<le> int num then do {
                 m \<leftarrow> mem_put m p [LP_EOF];
                 m \<leftarrow> lpSetTotalBytes m (p + 1);
                 m \<leftarrow> lpSetNumElements m (nat (index mod 2 ^ 64));
                 lpShrinkToFit A m
               }
               else do {
                 (m, _) \<leftarrow> lpDeleteRangeWithEntry A m p num;
                 Some m
               })
     }
   }"

fun lp_batch_loop :: "nat \<Rightarrow> bytes \<Rightarrow> nat \<Rightarrow> nat list \<Rightarrow> (bytes \<times> nat) option" where
  "lp_batch_loop lp_end m dst [] = Some (m, dst)"
| "lp_batch_loop lp_end m dst (skip # ps) = do {
     b \<leftarrow> mem_byte m skip;
     c_assert (b \<noteq> LP_EOF);
     keep_start \<leftarrow> lpSkip m skip;
     let keep_end = (case ps of q # _ \<Rightarrow> q | [] \<Rightarrow> lp_end);
     if ps \<noteq> [] \<and> keep_start = keep_end then lp_batch_loop lp_end m dst ps
     else do {
       c_assert (keep_end > keep_start);
       m \<leftarrow> mem_move m dst keep_start (keep_end - keep_start);
       lp_batch_loop lp_end m (dst + (keep_end - keep_start)) ps
     }
   }"

definition lpBatchDelete :: "lp_allocator \<Rightarrow> bytes \<Rightarrow> nat list \<Rightarrow> bytes option" where
  "lpBatchDelete A m ps =
     (case ps of
        [] \<Rightarrow> Some m
      | p # _ \<Rightarrow> do {
          total_bytes \<leftarrow> lpGetTotalBytes m;
          c_assert (total_bytes \<ge> 1);
          b \<leftarrow> mem_byte m (total_bytes - 1);
          c_assert (b = LP_EOF);
          (m, dst) \<leftarrow> lp_batch_loop total_bytes m p ps;
          let total_bytes = dst;
          c_assert (total_bytes \<ge> 1);
          b \<leftarrow> mem_byte m (total_bytes - 1);
          c_assert (b = LP_EOF);
          m \<leftarrow> lpSetTotalBytes m total_bytes;
          numele \<leftarrow> lpGetNumElements m;
          m \<leftarrow> (if numele \<noteq> LP_HDR_NUMELE_UNKNOWN
                then lpSetNumElements m (nat ((int numele - int (length ps)) mod 2 ^ 64)) else Some m);
          lpShrinkToFit A m
        })"

text \<open>
  \<open>lpMerge\<close>: \<open>same\<close> tells that the two pointers are equal. The result is
  \<open>None\<close> for NULL, else \<open>*first\<close> and \<open>*second\<close>, one of which is the
  merged listpack and the other NULL.
\<close>

definition lpMerge ::
  "lp_allocator \<Rightarrow> bytes option \<Rightarrow> bytes option \<Rightarrow> bool \<Rightarrow>
   (bytes option \<times> bytes option) option option" where
  "lpMerge A first second same =
     (case (first, second) of
        (Some m1, Some m2) \<Rightarrow>
          if same then Some None
          else do {
            first_bytes \<leftarrow> lpBytes m1;
            (m1, first_len) \<leftarrow> lpLength m1;
            second_bytes \<leftarrow> lpBytes m2;
            (m2, second_len) \<leftarrow> lpLength m2;
            let app = (first_bytes \<ge> second_bytes);
            let (target, target_bytes, source, source_bytes) =
              (if app then (m1, first_bytes, m2, second_bytes)
               else (m2, second_bytes, m1, first_bytes));
            c_assert (first_bytes + second_bytes \<ge> LP_HDR_SIZE + 1);
            let lpbytes = first_bytes + second_bytes - LP_HDR_SIZE - 1;
            c_assert (lpbytes < 4294967295);
            let lplength = first_len + second_len;
            let lplength = (if lplength < 65535 then lplength else 65535);
            let target = lp_realloc A target lpbytes;
            c_assert (source_bytes \<ge> LP_HDR_SIZE \<and> target_bytes \<ge> LP_HDR_SIZE);
            target \<leftarrow>
              (if app then do {
                 bs \<leftarrow> mem_get source LP_HDR_SIZE (source_bytes - LP_HDR_SIZE);
                 mem_put target (target_bytes - 1) bs }
               else do {
                 target \<leftarrow> mem_move target (source_bytes - 1) LP_HDR_SIZE
                            (target_bytes - LP_HDR_SIZE);
                 bs \<leftarrow> mem_get source 0 (source_bytes - 1);
                 mem_put target 0 bs });
            target \<leftarrow> lpSetNumElements target lplength;
            target \<leftarrow> lpSetTotalBytes target lpbytes;
            Some (Some (if app then (Some target, None) else (None, Some target)))
          }
      | _ \<Rightarrow> Some None)"

section \<open>Validation\<close>

definition lpValidateFirst :: "bytes \<Rightarrow> nat option option" where
  "lpValidateFirst m = do {
     b \<leftarrow> mem_byte m LP_HDR_SIZE;
     Some (if b = LP_EOF then None else Some LP_HDR_SIZE)
   }"

lemma lpValidateNext_range:
  "lpValidateNext m (Some p) t = Some (True, Some q) \<Longrightarrow> p < q \<and> q < t"
proof -
  have "0 < length (lpEncodeBacklen n)" for n by (simp add: lpEncodeBacklen_def)
  then show "lpValidateNext m (Some p) t = Some (True, Some q) \<Longrightarrow> p < q \<and> q < t"
    unfolding lpValidateNext_def
    by (auto simp: lp_out_of_range_def Let_def simp del: length_greater_0_conv
        elim!: bind_SomeE split: if_splits)
qed

text \<open>
  \<open>lpValidateIntegrity\<close> on a buffer of \<open>size\<close> bytes; \<open>entry_cb\<close> is
  the optional callback, which gets the entry and the number of elements. The loop ends with
  \<open>None\<close> for the return value 0, else with the last pointer and the count.
\<close>

function lp_validate_loop ::
  "bytes \<Rightarrow> nat \<Rightarrow> nat \<Rightarrow> (nat \<Rightarrow> nat \<Rightarrow> bool option) option \<Rightarrow> nat option \<Rightarrow> nat \<Rightarrow>
   (nat option \<times> nat) option option" where
  "lp_validate_loop m t numele cb None count = Some (Some (None, count))"
| "lp_validate_loop m t numele cb (Some p) count = do {
     b \<leftarrow> mem_byte m p;
     if b = LP_EOF then Some (Some (Some p, count))
     else do {
       (valid, q) \<leftarrow> lpValidateNext m (Some p) t;
       if \<not> valid then Some None
       else do {
         accepted \<leftarrow> (case cb of None \<Rightarrow> Some True | Some f \<Rightarrow> f p numele);
         if \<not> accepted then Some None
         else lp_validate_loop m t numele cb q ((count + 1) mod 2 ^ 32)
       }
     }
   }"
  by pat_completeness auto
termination
  by (relation "measure (\<lambda>(m, t, _, _, p, _). case p of None \<Rightarrow> 0 | Some p \<Rightarrow> Suc (t - p))")
    (auto split: option.splits dest!: lpValidateNext_range)

definition lpValidateIntegrity ::
  "bytes \<Rightarrow> nat \<Rightarrow> bool \<Rightarrow> (nat \<Rightarrow> nat \<Rightarrow> bool option) option \<Rightarrow> bool option" where
  "lpValidateIntegrity m sz deep cb =
     (if sz < LP_HDR_SIZE + 1 then Some False
      else do {
        t \<leftarrow> lpGetTotalBytes m;
        if t \<noteq> sz then Some False
        else do {
          b \<leftarrow> mem_byte m (sz - 1);
          if b \<noteq> LP_EOF then Some False
          else if \<not> deep then Some True
          else do {
            numele \<leftarrow> lpGetNumElements m;
            r \<leftarrow> lp_validate_loop m t numele cb (Some LP_HDR_SIZE) 0;
            Some (case r of
                    None \<Rightarrow> False
                  | Some (p, count) \<Rightarrow>
                      p = Some (sz - 1) \<and> (numele = LP_HDR_NUMELE_UNKNOWN \<or> numele = count))
          }
        }
      })"

text \<open>\<open>lpRandomPair\<close>, with the value \<open>r\<close> that \<open>rand()\<close> returned.\<close>

definition lpRandomPair ::
  "bytes \<Rightarrow> nat \<Rightarrow> nat \<Rightarrow> bool \<Rightarrow> (lp_value \<times> lp_value option) option" where
  "lpRandomPair m total_count r want_val = do {
     c_assert (total_count \<noteq> 0);
     p \<leftarrow> lpSeek m (int (r mod total_count * 2));
     (case p of
        None \<Rightarrow> None
      | Some p \<Rightarrow> do {
          key \<leftarrow> lpGetValue m p;
          if \<not> want_val then Some (key, None)
          else do {
            q \<leftarrow> lpNext m p;
            (case q of
               None \<Rightarrow> None
             | Some q \<Rightarrow> do { val \<leftarrow> lpGetValue m q; Some (key, Some val) })
          }
        })
   }"

end
