(* ===== verification/Listpack_Rep.thy ===== *)
theory Listpack_Rep
  imports Listpack
begin

text \<open>
  What the bytes of a listpack mean. The first part shows that the encodings of integers,
  strings and back lengths are read back by the decoders of \<open>listpack.c\<close>. The second
  part defines when a block represents a list of elements and shows that walking the block
  visits exactly these elements.
\<close>

section \<open>Bits and bytes\<close>

lemma nat_or_shift: "x < 2 ^ k \<Longrightarrow> x OR push_bit k y = x + 2 ^ k * (y :: nat)"
proof -
  assume x: "x < 2 ^ k"
  have "x = take_bit k x" using x by (simp add: take_bit_nat_eq_self)
  moreover have "\<not> bit (take_bit k x) n \<or> \<not> bit (push_bit k y) n" for n
    by (auto simp: bit_simps)
  ultimately have "x + push_bit k y = x OR push_bit k y"
    using disjunctive_add[of x "push_bit k y"] by metis
  then show ?thesis by (simp add: push_bit_eq_mult mult.commute)
qed

lemma unat_byte_less: "unat (b :: byte) < 256"
  by (rule order_less_le_trans[OF unsigned_less]) simp

lemma shift_or_le_dec: "int (shift_or bs) = le_dec bs"
proof (induction bs)
  case Nil
  then show ?case by simp
next
  case (Cons b bs)
  have "shift_or (b # bs) = unat b + 256 * shift_or bs"
    using nat_or_shift[of "unat b" 8 "shift_or bs"] unat_byte_less[of b] by simp
  moreover have "uint b = int (unat b)" by simp
  ultimately show ?case using Cons by (simp only: le_dec.simps of_nat_add of_nat_mult of_nat_numeral)
qed

lemma byte_and_masks:
  fixes b :: byte
  shows "b AND 0x80 = push_bit 7 (drop_bit 7 b)" "b AND 0xC0 = push_bit 6 (drop_bit 6 b)"
    "b AND 0xE0 = push_bit 5 (drop_bit 5 b)" "b AND 0xF0 = push_bit 4 (drop_bit 4 b)"
    "b AND 0xFF = b" "b AND 0x7F = take_bit 7 b" "b AND 0x3F = take_bit 6 b"
    "b AND 0x1F = take_bit 5 b" "b AND 0xF = take_bit 4 b"
proof -
  have cases8: "n < 8 \<Longrightarrow> n = 0 \<or> n = 1 \<or> n = 2 \<or> n = 3 \<or> n = 4 \<or> n = 5 \<or> n = 6 \<or> n = (7::nat)" for n
    by auto
  show "b AND 0x80 = push_bit 7 (drop_bit 7 b)" "b AND 0xC0 = push_bit 6 (drop_bit 6 b)"
    "b AND 0xE0 = push_bit 5 (drop_bit 5 b)" "b AND 0xF0 = push_bit 4 (drop_bit 4 b)"
    by (rule bit_word_eqI; auto simp: bit_simps dest!: cases8)+
  show "b AND 0xFF = b" "b AND 0x7F = take_bit 7 b" "b AND 0x3F = take_bit 6 b"
    "b AND 0x1F = take_bit 5 b" "b AND 0xF = take_bit 4 b"
    by (rule bit_word_eqI; auto simp: bit_simps dest!: cases8)+
qed

lemma push_drop_eq:
  fixes b :: byte
  assumes "k < 8" "c < 2 ^ (8 - k)"
  shows "push_bit k (drop_bit k b) = of_nat (c * 2 ^ k) \<longleftrightarrow> unat b div 2 ^ k = c"
proof -
  have p: "(2::nat) ^ (8 - k) * 2 ^ k = 256"
    using assms(1) by (simp flip: power_add)
  have "c * 2 ^ k < 256" using assms(2) p by (metis mult_less_mono1 zero_less_numeral zero_less_power)
  then have "unat (of_nat (c * 2 ^ k) :: byte) = c * 2 ^ k"
    by (simp add: unat_of_nat del: of_nat_mult of_nat_power)
  moreover have "unat (push_bit k (drop_bit k b)) = unat b div 2 ^ k * 2 ^ k"
  proof -
    have "unat b div 2 ^ k * 2 ^ k < 256"
      using unat_byte_less[of b] by (meson div_times_less_eq_dividend le_less_trans)
    then have "take_bit 8 (push_bit k (drop_bit k (unat b))) = unat b div 2 ^ k * 2 ^ k"
      by (simp add: drop_bit_eq_div push_bit_eq_mult take_bit_nat_eq_self)
    then show ?thesis by (simp only: unsigned_push_bit_eq unat_drop_bit_eq len_num1 len_bit0
          len_bit1) simp
  qed
  ultimately show ?thesis unfolding word_unat_eq_iff by auto
qed

lemma lp_type_iff:
  "lp_is_7bit_uint b \<longleftrightarrow> unat b < 128"
  "lp_is_6bit_str b \<longleftrightarrow> 128 \<le> unat b \<and> unat b < 192"
  "lp_is_13bit_int b \<longleftrightarrow> 192 \<le> unat b \<and> unat b < 224"
  "lp_is_12bit_str b \<longleftrightarrow> 224 \<le> unat b \<and> unat b < 240"
  "lp_is_32bit_str b \<longleftrightarrow> unat b = 240"
  "lp_is_16bit_int b \<longleftrightarrow> unat b = 241"
  "lp_is_24bit_int b \<longleftrightarrow> unat b = 242"
  "lp_is_32bit_int b \<longleftrightarrow> unat b = 243"
  "lp_is_64bit_int b \<longleftrightarrow> unat b = 244"
  "b = 0xFF \<longleftrightarrow> unat b = 255"
proof -
  show "lp_is_7bit_uint b \<longleftrightarrow> unat b < 128"
    using push_drop_eq[of 7 0 b] by (auto simp: lp_is_7bit_uint_def byte_and_masks)
  show "lp_is_6bit_str b \<longleftrightarrow> 128 \<le> unat b \<and> unat b < 192"
    using push_drop_eq[of 6 2 b] by (auto simp: lp_is_6bit_str_def byte_and_masks)
  show "lp_is_13bit_int b \<longleftrightarrow> 192 \<le> unat b \<and> unat b < 224"
    using push_drop_eq[of 5 6 b] by (auto simp: lp_is_13bit_int_def byte_and_masks)
  show "lp_is_12bit_str b \<longleftrightarrow> 224 \<le> unat b \<and> unat b < 240"
    using push_drop_eq[of 4 14 b] by (auto simp: lp_is_12bit_str_def byte_and_masks)
qed (simp_all add: lp_is_32bit_str_def lp_is_16bit_int_def lp_is_24bit_int_def lp_is_32bit_int_def
    lp_is_64bit_int_def byte_and_masks word_unat_eq_iff)

lemma unat_tag_or:
  assumes "x < 2 ^ k" "c * 2 ^ k + x < 256"
  shows "unat (of_nat x OR of_nat (c * 2 ^ k) :: byte) = c * 2 ^ k + x"
proof -
  have "unat (of_nat x OR of_nat (c * 2 ^ k) :: byte) = x OR c * 2 ^ k"
    using assms by (simp add: unsigned_or_eq unat_of_nat del: of_nat_mult of_nat_power)
  also have "\<dots> = x OR push_bit k c" by (simp add: push_bit_eq_mult)
  also have "\<dots> = c * 2 ^ k + x" using nat_or_shift[OF assms(1)] by simp
  finally show ?thesis .
qed


lemma mem_read_append [mem_simps]:
  "mem_byte (pre @ xs) (length pre + i) = mem_byte xs i"
  "mem_get (pre @ xs) (length pre + i) n = mem_get xs i n"
  by (simp_all add: mem_byte_def mem_get_def nth_append)

lemma mem_read_append0 [mem_simps]:
  "mem_byte (pre @ xs) (length pre) = mem_byte xs 0"
  "mem_get (pre @ xs) (length pre) n = mem_get xs 0 n"
  using mem_read_append[of pre xs 0] by simp_all

lemma le_enc_list:
  "le_enc 2 v = [word_of_int v, word_of_int (drop_bit 8 v)]"
  "le_enc 3 v = [word_of_int v, word_of_int (drop_bit 8 v), word_of_int (drop_bit 16 v)]"
  "le_enc 4 v = [word_of_int v, word_of_int (drop_bit 8 v), word_of_int (drop_bit 16 v),
     word_of_int (drop_bit 24 v)]"
  "le_enc 8 v = [word_of_int v, word_of_int (drop_bit 8 v), word_of_int (drop_bit 16 v),
     word_of_int (drop_bit 24 v), word_of_int (drop_bit 32 v), word_of_int (drop_bit 40 v),
     word_of_int (drop_bit 48 v), word_of_int (drop_bit 56 v)]"
  by (simp_all add: le_enc_numeral drop_bit_eq_div numeral_2_eq_2 flip: zdiv_zmult2_eq)

lemma mod_neg_wrap: "- m \<le> v \<Longrightarrow> v < 0 \<Longrightarrow> v mod m = v + (m :: int)"
  using mod_pos_pos_trivial[of "v + m" m] by simp

lemma le_enc_wrap: "le_enc n (256 ^ n + v) = le_enc n v"
  using le_enc_mod[of n "256 ^ n + v"] le_enc_mod[of n v] by simp

definition enc_int_spec :: "int \<Rightarrow> bytes" where
  "enc_int_spec v =
     (if 0 \<le> v \<and> v \<le> 127 then [word_of_int v]
      else if -4096 \<le> v \<and> v \<le> 4095 then
        [of_nat (nat (v mod 8192) div 256) OR of_nat (6 * 2 ^ 5), word_of_int v]
      else if -32768 \<le> v \<and> v \<le> 32767 then 0xF1 # le_enc 2 v
      else if -8388608 \<le> v \<and> v \<le> 8388607 then 0xF2 # le_enc 3 v
      else if -2147483648 \<le> v \<and> v \<le> 2147483647 then 0xF3 # le_enc 4 v
      else 0xF4 # le_enc 8 v)"

lemma enc_int_eq: "lpEncodeIntegerGetType v = enc_int_spec v"
proof -
  let ?u = "if v < 0 then 8192 + v else v"
  have w: "le_enc 2 (65536 + v) = le_enc 2 v" "le_enc 3 (16777216 + v) = le_enc 3 v"
    "le_enc 4 (4294967296 + v) = le_enc 4 v"
    using le_enc_wrap[of 2 v] le_enc_wrap[of 3 v] le_enc_wrap[of 4 v] by simp_all
  have m: "le_enc 8 (v mod 18446744073709551616) = le_enc 8 v"
    using le_enc_mod[of 8 v] by simp
  have "lpEncodeIntegerGetType v =
     (if 0 \<le> v \<and> v \<le> 127 then [word_of_int v]
      else if -4096 \<le> v \<and> v \<le> 4095 then
        [word_of_int (drop_bit 8 ?u) OR 0xC0, word_of_int ?u]
      else if -32768 \<le> v \<and> v \<le> 32767 then 0xF1 # le_enc 2 v
      else if -8388608 \<le> v \<and> v \<le> 8388607 then 0xF2 # le_enc 3 v
      else if -2147483648 \<le> v \<and> v \<le> 2147483647 then 0xF3 # le_enc 4 v
      else 0xF4 # le_enc 8 v)"
    unfolding lpEncodeIntegerGetType_def Let_def using w m by (simp add: le_enc_list)
  moreover have "[word_of_int (drop_bit 8 ?u) OR 0xC0, word_of_int ?u :: byte] =
      [of_nat (nat (v mod 8192) div 256) OR of_nat (6 * 2 ^ 5), word_of_int v]"
    if r: "-4096 \<le> v" "v \<le> 4095"
  proof -
    have u: "?u = v mod 8192" using r by (auto simp: mod_pos_pos_trivial mod_neg_wrap)
    have "word_of_int (v mod 8192) = (word_of_int v :: byte)"
      using le_enc_mod[of 1 "v mod 8192"] le_enc_mod[of 1 v] by (simp add: mod_mod_cancel)
    moreover have "(word_of_int (v mod 8192 div 256) :: byte) = of_nat (nat (v mod 8192) div 256)"
      by (simp add: pos_imp_zdiv_nonneg_iff nat_div_distrib flip: of_nat_nat)
    ultimately show ?thesis unfolding u by (simp add: drop_bit_eq_div)
  qed
  ultimately show ?thesis unfolding enc_int_spec_def by simp
qed

lemma lp_get_int_decode:
  assumes "0 < w" "in_sbits w v"
  shows "lp_get_int None (nat (v mod 2 ^ w)) (2 ^ (w - 1)) (2 ^ w - 1) = Some (LpNull v)"
proof -
  have p: "(2::int) ^ w = 2 * 2 ^ (w - 1)" using assms(1) by (cases w) auto
  have pn: "(2::nat) ^ w = 2 * 2 ^ (w - 1)" using assms(1) by (cases w) auto
  have r: "- (2 ^ (w - 1)) \<le> v" "v < 2 ^ (w - 1)" using assms(2) by (auto simp: in_sbits_def)
  show ?thesis
  proof (cases "v < 0")
    case True
    then have "v mod 2 ^ w = v + 2 ^ w" using r p
      by (intro mod_neg_wrap) auto
    moreover have "2 ^ (w - 1) \<le> nat (v + 2 ^ w)" "int (nat (v + 2 ^ w)) = v + 2 ^ w"
      using r p by (simp_all add: le_nat_iff)
    moreover have "int (2 ^ w - 1) = 2 ^ w - 1" by (simp add: of_nat_diff)
    ultimately show ?thesis by (simp add: lp_get_int_def Let_def)
  next
    case False
    then have "v mod 2 ^ w = v" using r p by (intro mod_pos_pos_trivial) auto
    then show ?thesis using False r by (auto simp: lp_get_int_def Let_def le_nat_iff)
  qed
qed


text \<open>The elements of a listpack and their entries.\<close>

datatype lp_ele = LpInt int | LpStr bytes

fun enc_ele :: "lp_ele \<Rightarrow> bytes" where
  "enc_ele (LpInt v) = lpEncodeIntegerGetType v"
| "enc_ele (LpStr s) = lpEncodeString s"

fun ele_ok :: "lp_ele \<Rightarrow> bool" where
  "ele_ok (LpInt v) = in_sbits 64 v"
| "ele_ok (LpStr s) = (length s + 5 < 2 ^ 32)"

definition enc_entry :: "lp_ele \<Rightarrow> bytes" where
  "enc_entry e = enc_ele e @ lpEncodeBacklen (length (enc_ele e))"

fun ele_value :: "nat \<Rightarrow> lp_ele \<Rightarrow> lp_value" where
  "ele_value p (LpInt v) = LpNull v"
| "ele_value p (LpStr s) = LpPtr (p + (if length s < 64 then 1 else if length s < 4096 then 2 else 5)) (length s)"

lemma nat_le_dec_enc: "shift_or (le_enc n v) = nat (v mod 256 ^ n)"
  using shift_or_le_dec[of "le_enc n v"] by (simp add: le_dec_enc)

lemma le_enc_nat:
  "[of_nat n, of_nat (drop_bit 8 n)] = le_enc 2 (int n)"
  "[of_nat n, of_nat (drop_bit 8 n), of_nat (drop_bit 16 n), of_nat (drop_bit 24 n)] = le_enc 4 (int n)"
  by (simp_all add: le_enc_list drop_bit_of_nat)

definition str_hdr :: "nat \<Rightarrow> bytes" where
  "str_hdr len =
     (if len < 64 then [of_nat len OR of_nat (2 * 2 ^ 6)]
      else if len < 4096 then [of_nat (len div 256) OR of_nat (14 * 2 ^ 4), of_nat len]
      else 0xF0 # le_enc 4 (int len))"

lemma enc_str_eq: "lpEncodeString s = str_hdr (length s) @ s"
  unfolding lpEncodeString_def str_hdr_def Let_def
  using le_enc_nat(2)[of "length s"] by (simp add: drop_bit_eq_div)

lemma mem_byte_Cons [mem_simps]:
  "mem_byte (x # xs) 0 = Some x"
  "mem_byte (x # xs) (Suc i) = mem_byte xs i"
  "mem_get (x # xs) (Suc i) n = mem_get xs i n"
  by (simp_all add: mem_byte_def mem_get_def)

lemma mem_get_prefix [mem_simps]: "mem_get (le_enc n v @ xs) 0 n = Some (le_enc n v)"
  by (simp add: mem_get_def)

lemma in_sbits_leD:
  "in_sbits 64 v \<longleftrightarrow> - 9223372036854775808 \<le> v \<and> v < 9223372036854775808"
  by (simp add: in_sbits_def)

lemma tag_mod: "h < m \<Longrightarrow> (c * m + h) mod m = (h :: nat)"
  by simp

lemma int13_decode:
  assumes "-4096 \<le> v" "v \<le> 4095"
  defines "t \<equiv> of_nat (nat (v mod 8192) div 256) OR of_nat (6 * 2 ^ 5) :: byte"
  shows "192 \<le> unat t" "unat t < 224"
    "push_bit 8 (unat (t AND 0x1f)) OR unat (word_of_int v :: byte) = nat (v mod 8192)"
proof -
  let ?h = "nat (v mod 8192) div 256"
  have h: "?h < 32" by (simp add: div_less_iff_less_mult nat_less_iff)
  have t: "unat t = 192 + ?h" unfolding t_def using unat_tag_or[of ?h 5 6] h by simp
  show "192 \<le> unat t" "unat t < 224" using t h by simp_all
  have "unat (t AND 0x1f) = (192 + ?h) mod 32"
    by (simp only: byte_and_masks unsigned_take_bit_eq t) (simp add: take_bit_eq_mod)
  also have "\<dots> = ?h" using tag_mod[OF h, of 6] by simp
  finally have a: "unat (t AND 0x1f) = ?h" .
  have "unat (word_of_int v :: byte) = nat (v mod 256)"
    by (simp add: unsigned_of_int take_bit_eq_mod)
  also have "\<dots> = nat (v mod 8192) mod 256" using nat_mod_distrib[of "v mod 8192" 256]
    by (simp add: mod_mod_cancel)
  finally have b: "unat (word_of_int v :: byte) = nat (v mod 8192) mod 256" .
  show "push_bit 8 (unat (t AND 0x1f)) OR unat (word_of_int v :: byte) = nat (v mod 8192)"
    unfolding a b using nat_or_shift[of "nat (v mod 8192) mod 256" 8 ?h] by (simp add: or.commute)
qed


lemma tag6:
  assumes "n < 64" defines "t \<equiv> of_nat n OR of_nat (2 * 2 ^ 6) :: byte"
  shows "unat t = 128 + n" "unat (t AND 0x3f) = n"
proof -
  show t: "unat t = 128 + n" unfolding t_def using unat_tag_or[of n 6 2] assms(1) by simp
  have "unat (t AND 0x3f) = (128 + n) mod 64"
    by (simp only: byte_and_masks unsigned_take_bit_eq t) (simp add: take_bit_eq_mod)
  then show "unat (t AND 0x3f) = n" using tag_mod[OF assms(1), of 2] by simp
qed

lemma tag12:
  assumes "n < 4096" defines "t \<equiv> of_nat (n div 256) OR of_nat (14 * 2 ^ 4) :: byte"
  shows "224 \<le> unat t" "unat t < 240"
    "push_bit 8 (unat (t AND 0xf)) OR unat (of_nat n :: byte) = n"
proof -
  let ?h = "n div 256"
  have h: "?h < 16" using assms(1) by (simp add: div_less_iff_less_mult)
  have t: "unat t = 224 + ?h" unfolding t_def using unat_tag_or[of ?h 4 14] h by simp
  show "224 \<le> unat t" "unat t < 240" using t h by simp_all
  have "unat (t AND 0xf) = (224 + ?h) mod 16"
    by (simp only: byte_and_masks unsigned_take_bit_eq t) (simp add: take_bit_eq_mod)
  also have "\<dots> = ?h" using tag_mod[OF h, of 14] by simp
  finally have a: "unat (t AND 0xf) = ?h" .
  have b: "unat (of_nat n :: byte) = n mod 256" by (simp add: unat_of_nat)
  show "push_bit 8 (unat (t AND 0xf)) OR unat (of_nat n :: byte) = n"
    unfolding a b using nat_or_shift[of "n mod 256" 8 ?h] by (simp add: or.commute)
qed

lemmas read_simps = mem_simps lp_type_iff lp_6bit_str_len_def lp_12bit_str_len_def
  lp_32bit_str_len_def nat_le_dec_enc

lemma get_int_entry:
  assumes "in_sbits 64 v"
  shows "lpGetWithSize (lpEncodeIntegerGetType v @ rest) 0 None =
    Some (LpNull v, Some (length (lpEncodeIntegerGetType v) + 1))"
proof -
  consider "0 \<le> v \<and> v \<le> 127" | "\<not> (0 \<le> v \<and> v \<le> 127)" "-4096 \<le> v \<and> v \<le> 4095"
    | "\<not> (-4096 \<le> v \<and> v \<le> 4095)" "-32768 \<le> v \<and> v \<le> 32767"
    | "\<not> (-32768 \<le> v \<and> v \<le> 32767)" "-8388608 \<le> v \<and> v \<le> 8388607"
    | "\<not> (-8388608 \<le> v \<and> v \<le> 8388607)" "-2147483648 \<le> v \<and> v \<le> 2147483647"
    | "\<not> (-2147483648 \<le> v \<and> v \<le> 2147483647)" by blast
  then show ?thesis
  proof cases
    case 1
    have u: "unat (word_of_int v :: byte) = nat v"
      using 1 by (simp add: unsigned_of_int take_bit_int_eq_self)
    have "unat ((word_of_int v :: byte) AND 0x7f) = nat v"
      by (simp only: byte_and_masks unsigned_take_bit_eq u)
        (use 1 in \<open>simp add: take_bit_nat_eq_self nat_less_iff\<close>)
    then show ?thesis using 1 u
      by (simp add: lpGetWithSize_def enc_int_eq enc_int_spec_def read_simps lp_get_int_def nat_less_iff
          le_nat_iff)
  next
    case 2
    note d = int13_decode[OF conjunct1[OF 2(2)] conjunct2[OF 2(2)]]
    have "enc_int_spec v = [of_nat (nat (v mod 8192) div 256) OR of_nat (6 * 2 ^ 5), word_of_int v]"
      unfolding enc_int_spec_def by (simp only: 2 if_False if_True simp_thms)
    then show ?thesis using 2 d lp_get_int_decode[of 13 v]
      by (simp add: lpGetWithSize_def enc_int_eq read_simps in_sbits_def)
  next
    case 3
    then have "enc_int_spec v = 0xF1 # le_enc 2 v" by (auto simp: enc_int_spec_def)
    then show ?thesis using 3 lp_get_int_decode[of 16 v]
      by (simp add: lpGetWithSize_def enc_int_eq read_simps in_sbits_def)
  next
    case 4
    then have "enc_int_spec v = 0xF2 # le_enc 3 v" by (auto simp: enc_int_spec_def)
    then show ?thesis using 4 lp_get_int_decode[of 24 v]
      by (simp add: lpGetWithSize_def enc_int_eq read_simps in_sbits_def)
  next
    case 5
    then have "enc_int_spec v = 0xF3 # le_enc 4 v" by (auto simp: enc_int_spec_def)
    then show ?thesis using 5 lp_get_int_decode[of 32 v]
      by (simp add: lpGetWithSize_def enc_int_eq read_simps in_sbits_def)
  next
    case 6
    then have "enc_int_spec v = 0xF4 # le_enc 8 v" by (auto simp: enc_int_spec_def)
    then show ?thesis using assms lp_get_int_decode[of 64 v]
      by (simp add: lpGetWithSize_def enc_int_eq read_simps in_sbits_def)
  qed
qed


lemma hd_enc_int:
  "\<exists>b bs. lpEncodeIntegerGetType v = b # bs \<and>
     (unat b < 128 \<and> bs = [] \<or> 192 \<le> unat b \<and> unat b < 224 \<and> length bs = 1 \<or>
      unat b = 241 \<and> length bs = 2 \<or> unat b = 242 \<and> length bs = 3 \<or>
      unat b = 243 \<and> length bs = 4 \<or> unat b = 244 \<and> length bs = 8)"
proof -
  have u: "unat (word_of_int v :: byte) = nat v" if "0 \<le> v \<and> v \<le> 127"
    using that by (simp add: unsigned_of_int take_bit_int_eq_self)
  show ?thesis
  proof (cases "0 \<le> v \<and> v \<le> 127")
    case True
    then show ?thesis using u by (simp add: enc_int_eq enc_int_spec_def nat_less_iff)
  next
    case False
    then show ?thesis using int13_decode(1,2)[of v]
      by (cases "-4096 \<le> v \<and> v \<le> 4095") (auto simp: enc_int_eq enc_int_spec_def)
  qed
qed

lemma size_int_entry:
  "lpCurrentEncodedSizeUnsafe (lpEncodeIntegerGetType v @ rest) 0 = Some (length (lpEncodeIntegerGetType v))"
  "lpCurrentEncodedSizeBytes (lpEncodeIntegerGetType v @ rest) 0 = Some 1"
proof -
  obtain b bs where e: "lpEncodeIntegerGetType v = b # bs"
    and c: "unat b < 128 \<and> bs = [] \<or> 192 \<le> unat b \<and> unat b < 224 \<and> length bs = 1 \<or>
      unat b = 241 \<and> length bs = 2 \<or> unat b = 242 \<and> length bs = 3 \<or>
      unat b = 243 \<and> length bs = 4 \<or> unat b = 244 \<and> length bs = 8"
    using hd_enc_int[of v] by blast
  show "lpCurrentEncodedSizeUnsafe (lpEncodeIntegerGetType v @ rest) 0 = Some (length (lpEncodeIntegerGetType v))"
    unfolding e lpCurrentEncodedSizeUnsafe_def using c by (auto simp: read_simps)
  show "lpCurrentEncodedSizeBytes (lpEncodeIntegerGetType v @ rest) 0 = Some 1"
    unfolding e lpCurrentEncodedSizeBytes_def using c by (auto simp: read_simps)
qed

lemma str_entry:
  assumes "length s + 5 < 2 ^ 32"
  shows "lpGetWithSize (lpEncodeString s @ rest) 0 buf =
      Some (ele_value 0 (LpStr s),
            Some (length (lpEncodeString s) + length (lpEncodeBacklen (length (lpEncodeString s)))))"
    "lpCurrentEncodedSizeUnsafe (lpEncodeString s @ rest) 0 = Some (length (lpEncodeString s))"
    "\<exists>k. lpCurrentEncodedSizeBytes (lpEncodeString s @ rest) 0 = Some k \<and> 0 < k \<and> k \<le> length (lpEncodeString s)"
    "\<exists>b bs. lpEncodeString s = b # bs \<and> 128 \<le> unat b \<and> unat b \<le> 240"
proof -
  note dd = lpGetWithSize_def lpCurrentEncodedSizeUnsafe_def lpCurrentEncodedSizeBytes_def enc_str_eq
    read_simps str_hdr_def
  have "lpGetWithSize (lpEncodeString s @ rest) 0 buf =
      Some (ele_value 0 (LpStr s),
            Some (length (lpEncodeString s) + length (lpEncodeBacklen (length (lpEncodeString s))))) \<and>
    lpCurrentEncodedSizeUnsafe (lpEncodeString s @ rest) 0 = Some (length (lpEncodeString s)) \<and>
    (\<exists>k. lpCurrentEncodedSizeBytes (lpEncodeString s @ rest) 0 = Some k \<and> 0 < k \<and> k \<le> length (lpEncodeString s)) \<and>
    (\<exists>b bs. lpEncodeString s = b # bs \<and> 128 \<le> unat b \<and> unat b \<le> 240)"
  proof (cases "length s < 64")
    case True
    then show ?thesis using tag6[of "length s"] by (simp add: dd add.commute)
  next
    case nl: False
    show ?thesis
    proof (cases "length s < 4096")
      case True
      then show ?thesis using nl tag12[of "length s"] by (simp add: dd add.commute)
    next
      case False
      then show ?thesis using nl assms by (simp add: dd add.commute[of "length s" 5])
    qed
  qed
  then show "lpGetWithSize (lpEncodeString s @ rest) 0 buf =
      Some (ele_value 0 (LpStr s),
            Some (length (lpEncodeString s) + length (lpEncodeBacklen (length (lpEncodeString s)))))"
    "lpCurrentEncodedSizeUnsafe (lpEncodeString s @ rest) 0 = Some (length (lpEncodeString s))"
    "\<exists>k. lpCurrentEncodedSizeBytes (lpEncodeString s @ rest) 0 = Some k \<and> 0 < k \<and> k \<le> length (lpEncodeString s)"
    "\<exists>b bs. lpEncodeString s = b # bs \<and> 128 \<le> unat b \<and> unat b \<le> 240"
    by blast+
qed

lemma backlen_byte:
  assumes "x < 128"
  shows "unat ((of_nat x OR 128 :: byte) AND 127) = x" "(of_nat x OR 128 :: byte) AND 128 \<noteq> 0"
    "unat ((of_nat x :: byte) AND 127) = x" "(of_nat x :: byte) AND 128 = 0"
proof -
  let ?t = "of_nat x OR 128 :: byte"
  have t: "unat ?t = 128 + x" using unat_tag_or[of x 7 1] assms by simp
  have "unat (?t AND 0x7f) = (128 + x) mod 128"
    by (simp only: byte_and_masks unsigned_take_bit_eq t) (simp add: take_bit_eq_mod)
  then show "unat (?t AND 127) = x" using assms by simp
  have "\<not> lp_is_7bit_uint ?t" unfolding lp_type_iff t by simp
  then show "?t AND 128 \<noteq> 0" by (simp add: lp_is_7bit_uint_def)
  have u: "unat (of_nat x :: byte) = x" using assms by (simp add: unat_of_nat)
  have "unat ((of_nat x :: byte) AND 0x7f) = x mod 128"
    by (simp only: byte_and_masks unsigned_take_bit_eq u) (simp add: take_bit_eq_mod)
  then show "unat ((of_nat x :: byte) AND 127) = x" using assms by simp
  have "lp_is_7bit_uint (of_nat x)" unfolding lp_type_iff u using assms by simp
  then show "(of_nat x :: byte) AND 128 = 0" by (simp add: lp_is_7bit_uint_def)
qed

text \<open>The bytes of a back length: the base 128 digits of the number, most significant first.\<close>

fun backlen_digits :: "nat \<Rightarrow> nat \<Rightarrow> bytes" where
  "backlen_digits 0 l = [of_nat l]"
| "backlen_digits (Suc k) l = backlen_digits k (l div 128) @ [of_nat (l mod 128) OR 128]"

lemma backlen_digits_numeral:
  "backlen_digits (numeral n) l =
     backlen_digits (pred_numeral n) (l div 128) @ [of_nat (l mod 128) OR 128]"
  unfolding numeral_eq_Suc[of n] backlen_digits.simps ..

lemma backlen_eq:
  "lpEncodeBacklen l =
     backlen_digits (if l \<le> 127 then 0 else if l < 16383 then 1 else if l < 2097151 then 2
                     else if l < 268435455 then 3 else 4) l"
proof -
  have "(x::nat) AND 127 = x mod 128" for x
    using take_bit_eq_mask[of 7 x] by (simp add: take_bit_eq_mod mask_eq_exp_minus_1)
  then show ?thesis
    unfolding lpEncodeBacklen_def by (simp add: backlen_digits_numeral drop_bit_eq_div flip: div_mult2_eq)
qed

lemma length_backlen_digits [simp]: "length (backlen_digits k l) = Suc k"
  by (induction k arbitrary: l) auto

lemma backlen_loop_digits:
  assumes "l < 128 ^ Suc k" "k * 7 + shift \<le> 28" "val < 2 ^ shift"
  shows "lp_backlen_loop (pre @ backlen_digits k l @ post) (length pre + k) val shift =
    Some (val + l * 2 ^ shift)"
  using assms
proof (induction k arbitrary: l val shift post)
  case 0
  then show ?case
    by (simp add: mem_simps backlen_byte nat_or_shift del: lp_backlen_loop.simps
        add: lp_backlen_loop.simps[of _ "length pre"] mult.commute)
next
  case (Suc k)
  let ?m = "pre @ backlen_digits (Suc k) l @ post"
  have b: "mem_byte ?m (length pre + Suc k) = Some (of_nat (l mod 128) OR 128)"
    by (simp add: mem_byte_def nth_append)
  have v: "val OR push_bit shift (l mod 128) = val + 2 ^ shift * (l mod 128)"
    using Suc.prems(3) by (rule nat_or_shift)
  have "val + 2 ^ shift * (l mod 128) < 2 ^ (shift + 7)"
  proof -
    have "2 ^ shift * (l mod 128) \<le> 2 ^ shift * 127" by (intro mult_left_mono) auto
    moreover have "(2::nat) ^ (shift + 7) = 2 ^ shift * 127 + 2 ^ shift" by (simp add: power_add)
    ultimately show ?thesis using Suc.prems(3) by linarith
  qed
  then have "lp_backlen_loop (pre @ backlen_digits k (l div 128) @ [of_nat (l mod 128) OR 128] @ post)
      (length pre + k) (val + 2 ^ shift * (l mod 128)) (shift + 7) =
    Some (val + 2 ^ shift * (l mod 128) + (l div 128) * 2 ^ (shift + 7))"
    using Suc.prems by (intro Suc.IH) (auto simp: less_mult_imp_div_less mult.commute)
  moreover have "val + 2 ^ shift * (l mod 128) + (l div 128) * 2 ^ (shift + 7) = val + l * 2 ^ shift"
  proof -
    have "2 ^ shift * (l mod 128) + (l div 128) * 2 ^ (shift + 7) = 2 ^ shift * (l mod 128 + 128 * (l div 128))"
      unfolding add_mult_distrib2 power_add by simp
    then show ?thesis by (metis add.assoc mod_mult_div_eq mult.commute)
  qed
  ultimately show ?case using Suc.prems(2) b v
    by (subst lp_backlen_loop.simps) (simp add: backlen_byte Let_def del: lp_backlen_loop.simps)
qed

lemma decode_backlen:
  assumes "l < 2 ^ 35"
  shows "lpDecodeBacklen (pre @ lpEncodeBacklen l @ post) (length pre + length (lpEncodeBacklen l) - 1) = Some l"
proof -
  define k :: nat where "k = (if l \<le> 127 then 0 else if l < 16383 then 1 else if l < 2097151 then 2
                     else if l < 268435455 then 3 else 4)"
  have "l < 128 ^ Suc k" "k * 7 + 0 \<le> 28" using assms by (auto simp: k_def)
  from backlen_loop_digits[OF this, of 0 pre post] show ?thesis
    by (simp add: lpDecodeBacklen_def backlen_eq k_def del: lp_backlen_loop.simps)
qed


lemma enc_ele_facts:
  assumes "ele_ok e"
  shows "lpCurrentEncodedSizeUnsafe (pre @ enc_ele e @ rest) (length pre) = Some (length (enc_ele e))"
    "\<exists>k. lpCurrentEncodedSizeBytes (pre @ enc_ele e @ rest) (length pre) = Some k \<and>
       0 < k \<and> k \<le> length (enc_ele e)"
    "\<exists>b. mem_byte (pre @ enc_ele e @ rest) (length pre) = Some b \<and> b \<noteq> 0xFF"
    "enc_ele e \<noteq> []" "length (enc_ele e) < 2 ^ 32"
proof -
  have sh: "lpCurrentEncodedSizeUnsafe (pre @ xs) (length pre) = lpCurrentEncodedSizeUnsafe xs 0"
    "lpCurrentEncodedSizeBytes (pre @ xs) (length pre) = lpCurrentEncodedSizeBytes xs 0" for xs
    using mem_read_append[of pre xs 1]
    by (cases "mem_byte xs 0"; simp add: lpCurrentEncodedSizeUnsafe_def mem_simps
        lpCurrentEncodedSizeBytes_def lp_6bit_str_len_def lp_12bit_str_len_def lp_32bit_str_len_def)+
  show "lpCurrentEncodedSizeUnsafe (pre @ enc_ele e @ rest) (length pre) = Some (length (enc_ele e))"
    unfolding sh using assms by (cases e) (simp_all add: size_int_entry str_entry(2))
  show "\<exists>k. lpCurrentEncodedSizeBytes (pre @ enc_ele e @ rest) (length pre) = Some k \<and>
       0 < k \<and> k \<le> length (enc_ele e)"
  proof (cases e)
    case (LpInt v)
    then show ?thesis unfolding sh using hd_enc_int[of v] by (auto simp: size_int_entry)
  next
    case (LpStr s)
    then show ?thesis unfolding sh using assms str_entry(3)[of s rest] by simp
  qed
  have h: "\<exists>b bs. enc_ele e = b # bs \<and> unat b \<noteq> 255"
  proof (cases e)
    case (LpInt v)
    then show ?thesis using hd_enc_int[of v] by auto
  next
    case (LpStr s)
    then show ?thesis using assms str_entry(4)[of s] by auto
  qed
  then show "\<exists>b. mem_byte (pre @ enc_ele e @ rest) (length pre) = Some b \<and> b \<noteq> 0xFF"
    unfolding lp_type_iff(10) by (auto simp: mem_simps)
  show "enc_ele e \<noteq> []" using h by auto
  show "length (enc_ele e) < 2 ^ 32"
  proof (cases e)
    case (LpInt v)
    then show ?thesis using hd_enc_int[of v] by auto
  next
    case (LpStr s)
    then show ?thesis using assms by (simp add: enc_str_eq str_hdr_def)
  qed
qed

lemma get_entry:
  assumes "ele_ok e"
  shows "lpGetWithSize (pre @ enc_ele e @ rest) (length pre) None =
    Some (ele_value (length pre) e, Some (length (enc_entry e)))"
proof -
  define sv where "sv = (\<lambda>v. case v of LpPtr p n \<Rightarrow> LpPtr (length pre + p) n | x \<Rightarrow> x)"
  have sh: "lpGetWithSize (pre @ xs) (length pre) None =
      map_option (\<lambda>(v, es). (sv v, es)) (lpGetWithSize xs 0 None)" for xs
    using mem_read_append[of pre xs 1]
    by (cases "mem_byte xs 0"; cases "mem_byte xs 1")
      (simp_all add: lpGetWithSize_def mem_simps lp_6bit_str_len_def lp_12bit_str_len_def
        lp_32bit_str_len_def lp_get_int_def sv_def map_option_bind Let_def o_def)
  show ?thesis
  proof (cases e)
    case (LpInt v)
    have "length (lpEncodeBacklen (length (lpEncodeIntegerGetType v))) = 1"
      using hd_enc_int[of v] by (auto simp: lpEncodeBacklen_def)
    then show ?thesis using assms LpInt
      by (simp add: sh get_int_entry enc_entry_def sv_def)
  next
    case (LpStr s)
    then show ?thesis using assms
      by (simp add: sh str_entry(1) enc_entry_def sv_def)
  qed
qed

lemma skip_entry:
  assumes "ele_ok e"
  shows "lpSkip (pre @ enc_entry e @ rest) (length pre) = Some (length (pre @ enc_entry e))"
  using enc_ele_facts(1)[OF assms, of pre "lpEncodeBacklen (length (enc_ele e)) @ rest"]
  by (simp add: lpSkip_def enc_entry_def)

section \<open>The list a block represents\<close>

definition lp_body :: "lp_ele list \<Rightarrow> bytes" where
  "lp_body es = concat (map enc_entry es)"

definition lp_hdr :: "nat \<Rightarrow> nat \<Rightarrow> bytes" where
  "lp_hdr t n = le_enc 4 (int t) @ le_enc 2 (int n)"

text \<open>
  \<open>lp_rep m es\<close>: the block \<open>m\<close> holds the elements \<open>es\<close>, followed by
  the end byte and unused memory; the element count of the header is right or unknown.
\<close>

definition lp_rep_at :: "bytes \<Rightarrow> nat \<Rightarrow> bytes \<Rightarrow> lp_ele list \<Rightarrow> bool" where
  "lp_rep_at m n slack es \<longleftrightarrow>
     m = lp_hdr (7 + length (lp_body es)) n @ lp_body es @ 0xFF # slack \<and>
     7 + length (lp_body es) < 2 ^ 32 \<and> list_all ele_ok es \<and>
     (n = 65535 \<or> n = length es \<and> n < 65535)"

definition lp_rep :: "bytes \<Rightarrow> lp_ele list \<Rightarrow> bool" where
  "lp_rep m es \<longleftrightarrow> (\<exists>n slack. lp_rep_at m n slack es)"

definition lp_pos :: "lp_ele list \<Rightarrow> nat \<Rightarrow> nat" where
  "lp_pos es i = 6 + length (lp_body (take i es))"

lemma lp_body_simps [simp]:
  "lp_body [] = []" "lp_body (e # es) = enc_entry e @ lp_body es"
  "lp_body (xs @ ys) = lp_body xs @ lp_body ys"
  by (simp_all add: lp_body_def)

lemma length_lp_hdr [simp]: "length (lp_hdr t n) = 6"
  by (simp add: lp_hdr_def)

lemma lp_pos_0 [simp]: "lp_pos es 0 = 6"
  by (simp add: lp_pos_def)

lemma lp_pos_Suc: "i < length es \<Longrightarrow> lp_pos es (Suc i) = lp_pos es i + length (enc_entry (es ! i))"
  by (simp add: lp_pos_def take_Suc_conv_app_nth)

lemma lp_pos_end: "length es \<le> i \<Longrightarrow> lp_pos es i = 6 + length (lp_body es)"
  by (simp add: lp_pos_def)

lemma hdr_total: "t < 2 ^ 32 \<Longrightarrow> lpGetTotalBytes (lp_hdr t n @ xs) = Some t"
  by (simp add: lpGetTotalBytes_def lp_hdr_def mem_simps nat_le_dec_enc)

lemma hdr_num:
  assumes "n < 65536"
  shows "lpGetNumElements (lp_hdr t n @ xs) = Some n"
proof -
  have "mem_get (le_enc 4 (int t) @ le_enc 2 (int n) @ xs) (length (le_enc 4 (int t))) 2 =
      Some (le_enc 2 (int n))"
    by (simp only: mem_read_append0 mem_get_prefix)
  then show ?thesis using assms by (simp add: lpGetNumElements_def lp_hdr_def nat_le_dec_enc)
qed

lemma hdr_set_total:
  "lpSetTotalBytes (lp_hdr t n @ xs) t' = Some (lp_hdr t' n @ xs)"
  unfolding lpSetTotalBytes_def le_enc_nat lp_hdr_def by (simp add: mem_put_def)

lemma hdr_set_num:
  "lpSetNumElements (lp_hdr t n @ xs) n' = Some (lp_hdr t n' @ xs)"
  unfolding lpSetNumElements_def le_enc_nat lp_hdr_def by (simp add: mem_put_def)

lemma lp_rep_total: "lp_rep_at m n slack es \<Longrightarrow> lpGetTotalBytes m = Some (7 + length (lp_body es))"
  by (simp add: lp_rep_at_def hdr_total)

lemma lp_rep_num: "lp_rep_at m n slack es \<Longrightarrow> lpGetNumElements m = Some n"
  by (auto simp: lp_rep_at_def hdr_num)

text \<open>Where an entry lies in the block.\<close>

lemma lp_rep_split:
  assumes "lp_rep_at m n slack es" "i < length es"
  shows "m = (lp_hdr (7 + length (lp_body es)) n @ lp_body (take i es)) @ enc_entry (es ! i) @
      lp_body (drop (Suc i) es) @ 0xFF # slack"
    and "ele_ok (es ! i)"
proof -
  have "es = take i es @ es ! i # drop (Suc i) es" using assms(2) by (rule id_take_nth_drop)
  then have "lp_body es = lp_body (take i es) @ enc_entry (es ! i) @ lp_body (drop (Suc i) es)"
    by (metis lp_body_simps(2,3))
  then show "m = (lp_hdr (7 + length (lp_body es)) n @ lp_body (take i es)) @ enc_entry (es ! i) @
      lp_body (drop (Suc i) es) @ 0xFF # slack"
    using assms(1) by (simp add: lp_rep_at_def)
  show "ele_ok (es ! i)" using assms by (simp add: lp_rep_at_def list_all_length)
qed

lemma lp_rep_entry:
  assumes "lp_rep_at m n slack es" "i < length es"
  obtains pre rest where "m = pre @ enc_entry (es ! i) @ rest" "length pre = lp_pos es i"
    "ele_ok (es ! i)" "lp_pos es (Suc i) < 7 + length (lp_body es)" "length rest > 0"
proof -
  let ?pre = "lp_hdr (7 + length (lp_body es)) n @ lp_body (take i es)"
  have "lp_pos es (Suc i) + length (lp_body (drop (Suc i) es)) = 6 + length (lp_body es)"
    by (simp add: lp_pos_def flip: lp_body_simps(3) length_append)
  then show ?thesis
    using that[of ?pre "lp_body (drop (Suc i) es) @ 0xFF # slack"] lp_rep_split[OF assms]
    by (simp add: lp_pos_def)
qed

lemma lp_rep_eof:
  assumes "lp_rep_at m n slack es"
  shows "mem_byte m (6 + length (lp_body es)) = Some 0xFF"
proof -
  have "mem_byte ((lp_hdr (7 + length (lp_body es)) n @ lp_body es) @ 0xFF # slack)
      (length (lp_hdr (7 + length (lp_body es)) n @ lp_body es)) = Some 0xFF"
    unfolding mem_read_append0 mem_byte_Cons ..
  then show ?thesis using assms by (simp add: lp_rep_at_def)
qed

lemma lp_rep_get:
  assumes "lp_rep_at m n slack es" "i < length es"
  shows "lpGetWithSize m (lp_pos es i) None =
      Some (ele_value (lp_pos es i) (es ! i), Some (length (enc_entry (es ! i))))"
    and "lpSkip m (lp_pos es i) = Some (lp_pos es (Suc i))"
    and "\<exists>b. mem_byte m (lp_pos es i) = Some b \<and> b \<noteq> 0xFF"
    and "lpCurrentEncodedSizeUnsafe m (lp_pos es i) = Some (length (enc_ele (es ! i)))"
proof -
  obtain pre rest where m: "m = pre @ enc_entry (es ! i) @ rest" and p: "length pre = lp_pos es i"
    and ok: "ele_ok (es ! i)" using lp_rep_entry[OF assms] by metis
  note f = enc_ele_facts(1-3)[OF ok, of pre "lpEncodeBacklen (length (enc_ele (es ! i))) @ rest"]
  note g = get_entry[OF ok, of pre "lpEncodeBacklen (length (enc_ele (es ! i))) @ rest"]
  show "lpGetWithSize m (lp_pos es i) None =
      Some (ele_value (lp_pos es i) (es ! i), Some (length (enc_entry (es ! i))))"
    using g m p by (simp add: enc_entry_def)
  show "lpSkip m (lp_pos es i) = Some (lp_pos es (Suc i))"
    using skip_entry[OF ok, of pre rest] m p assms(2) by (simp add: lp_pos_Suc)
  show "\<exists>b. mem_byte m (lp_pos es i) = Some b \<and> b \<noteq> 0xFF"
    using f(3) m p by (simp add: enc_entry_def)
  show "lpCurrentEncodedSizeUnsafe m (lp_pos es i) = Some (length (enc_ele (es ! i)))"
    using f(1) m p by (simp add: enc_entry_def)
qed

lemma length_enc_entry:
  "length (enc_entry e) = length (enc_ele e) + length (lpEncodeBacklen (length (enc_ele e)))"
  by (simp add: enc_entry_def)

lemma length_backlen: "0 < length (lpEncodeBacklen l)" "length (lpEncodeBacklen l) \<le> 5"
  by (simp_all add: backlen_eq)

lemma lp_rep_valid:
  assumes "lp_rep_at m n slack es" "i < length es"
  shows "lpValidateNext m (Some (lp_pos es i)) (7 + length (lp_body es)) = Some (True, Some (lp_pos es (Suc i)))"
proof -
  let ?e = "enc_ele (es ! i)" and ?t = "7 + length (lp_body es)"
  let ?bl = "length (lpEncodeBacklen (length ?e))"
  obtain pre rest where m: "m = pre @ enc_entry (es ! i) @ rest" and p: "length pre = lp_pos es i"
    and ok: "ele_ok (es ! i)" and lt: "lp_pos es (Suc i) < ?t"
    using lp_rep_entry[OF assms] by metis
  note f = enc_ele_facts(1-3)[OF ok, of pre "lpEncodeBacklen (length ?e) @ rest"]
  note lt32 = enc_ele_facts(5)[OF ok]
  obtain k where k: "lpCurrentEncodedSizeBytes m (lp_pos es i) = Some k" "0 < k" "k \<le> length ?e"
    using f(2) m p by (auto simp: enc_entry_def)
  have d: "lpDecodeBacklen m (lp_pos es (Suc i) - 1) = Some (length ?e)"
    using decode_backlen[of "length ?e" "pre @ ?e" rest] lt32 m p assms(2)
    by (simp add: enc_entry_def lp_pos_Suc add.assoc)
  have s: "lp_pos es (Suc i) = lp_pos es i + (length ?e + ?bl)"
    using assms(2) by (simp add: lp_pos_Suc length_enc_entry)
  have ge: "6 \<le> lp_pos es i" by (simp add: lp_pos_def)
  have r: "\<not> lp_out_of_range ?t (lp_pos es i)" "\<not> lp_out_of_range ?t (lp_pos es i + k)"
    "\<not> lp_out_of_range ?t (lp_pos es i + (length ?e + ?bl))"
    using lt s ge k(3) by (auto simp: lp_out_of_range_def)
  have w: "(length ?e + ?bl) mod 2 ^ 64 = length ?e + ?bl"
    using lt32 length_backlen(2)[of "length ?e"] by simp
  obtain b where b: "mem_byte m (lp_pos es i) = Some b" "b \<noteq> 0xFF"
    using lp_rep_get(3)[OF assms] by blast
  show ?thesis
    unfolding lpValidateNext_def
    using r k b lp_rep_get(4)[OF assms] d[unfolded s] w s by (simp add: Let_def)
qed

lemma lp_rep_valid_eof:
  assumes "lp_rep_at m n slack es"
  shows "lpValidateNext m (Some (6 + length (lp_body es))) (7 + length (lp_body es)) = Some (True, None)"
  using lp_rep_eof[OF assms] by (simp add: lpValidateNext_def lp_out_of_range_def)

lemma lp_rep_assert:
  assumes "lp_rep_at m n slack es" "i \<le> length es"
  shows "lpAssertValidEntry m (7 + length (lp_body es)) (lp_pos es i) = Some ()"
  using lp_rep_valid[OF assms(1)] lp_rep_valid_eof[OF assms(1)] assms(2)
  by (cases "i < length es") (auto simp: lpAssertValidEntry_def lp_pos_end)

lemma lp_rep_next:
  assumes "lp_rep_at m n slack es" "i < length es"
  shows "lpNext m (lp_pos es i) = Some (if Suc i < length es then Some (lp_pos es (Suc i)) else None)"
proof (cases "Suc i < length es")
  case True
  then show ?thesis
    using lp_rep_get(2,3)[OF assms(1)] assms lp_rep_assert[OF assms(1), of "Suc i"] lp_rep_total[OF assms(1)]
    by (fastforce simp: lpNext_def lpBytes_def)
next
  case False
  then have "lp_pos es (Suc i) = 6 + length (lp_body es)" by (simp add: lp_pos_end)
  then show ?thesis using False lp_rep_get(2)[OF assms] lp_rep_eof[OF assms(1)]
    by (simp add: lpNext_def)
qed


lemma lp_rep_backlen:
  assumes "lp_rep_at m n slack es" "i < length es"
  shows "lpDecodeBacklen m (lp_pos es (Suc i) - 1) = Some (length (enc_ele (es ! i)))"
proof -
  obtain pre rest where m: "m = pre @ enc_entry (es ! i) @ rest" and p: "length pre = lp_pos es i"
    and ok: "ele_ok (es ! i)"
    using lp_rep_entry[OF assms] by metis
  show ?thesis
    using decode_backlen[of "length (enc_ele (es ! i))" "pre @ enc_ele (es ! i)" rest]
      enc_ele_facts(5)[OF ok] m p assms(2)
    by (simp add: enc_entry_def lp_pos_Suc add.assoc)
qed

lemma lp_rep_prev:
  assumes "lp_rep_at m n slack es" "i < length es"
  shows "lpPrev m (lp_pos es (Suc i)) = Some (Some (lp_pos es i))"
proof -
  let ?e = "enc_ele (es ! i)"
  let ?bl = "length (lpEncodeBacklen (length ?e))"
  have ok: "ele_ok (es ! i)" using lp_rep_split(2)[OF assms] .
  have s: "lp_pos es (Suc i) = lp_pos es i + (length ?e + ?bl)"
    using assms(2) by (simp add: lp_pos_Suc length_enc_entry)
  have ge: "6 \<le> lp_pos es i" by (simp add: lp_pos_def)
  have pos: "0 < ?bl" by (rule length_backlen(1))
  have small: "length ?e + ?bl < 2 ^ 64"
    using enc_ele_facts(5)[OF ok] length_backlen(2)[of "length ?e"] by simp
  have w: "(length ?e + ?bl) mod 2 ^ 64 = length ?e + ?bl" using small by simp
  have w2: "(length ?e + ?bl + (2 ^ 64 - 1)) mod 2 ^ 64 = length ?e + ?bl - 1"
  proof -
    have "length ?e + ?bl + (2 ^ 64 - 1) = (length ?e + ?bl - 1) + 2 ^ 64"
      using pos one_le_power[of "2::nat" 64] by linarith
    moreover have "length ?e + ?bl - 1 < 2 ^ 64" using small by linarith
    ultimately show ?thesis by (metis mod_add_self2 mod_less)
  qed
  have q: "lp_pos es (Suc i) - 1 - (length ?e + ?bl - 1) = lp_pos es i" using s pos by linarith
  have c: "length ?e + ?bl - 1 \<le> lp_pos es (Suc i) - 1" using s by linarith
  have n6: "lp_pos es (Suc i) \<noteq> 6" "lp_pos es (Suc i) \<noteq> 0" using s ge pos by linarith+
  have a: "lpAssertValidEntry m (7 + length (lp_body es)) (lp_pos es i) = Some ()"
    using lp_rep_assert[OF assms(1), of i] assms(2) by simp
  show ?thesis
    unfolding lpPrev_def Let_def lpBytes_def
    by (simp only: n6 if_False lp_rep_backlen[OF assms] Option.bind_lunit w w2 c c_assert_True
        lp_rep_total[OF assms(1)] q a)
qed

lemma lp_rep_first:
  assumes "lp_rep_at m n slack es"
  shows "lpFirst m = Some (if es = [] then None else Some 6)"
proof (cases "es = []")
  case True
  then show ?thesis using lp_rep_eof[OF assms] by (simp add: lpFirst_def)
next
  case False
  then show ?thesis
    using lp_rep_get(3)[OF assms, of 0] lp_rep_assert[OF assms, of 0] lp_rep_total[OF assms]
    by (auto simp: lpFirst_def lpBytes_def)
qed

lemma lp_rep_last:
  assumes "lp_rep_at m n slack es"
  shows "lpLast m = Some (if es = [] then None else Some (lp_pos es (length es - 1)))"
proof (cases "es = []")
  case True
  then show ?thesis using lp_rep_total[OF assms] by (simp add: lpLast_def lpPrev_def)
next
  case False
  then obtain k where k: "length es = Suc k" by (cases "length es") auto
  then have "lp_pos es (Suc k) = 6 + length (lp_body es)" by (simp add: lp_pos_end)
  then show ?thesis
    using k lp_rep_prev[OF assms, of k] lp_rep_total[OF assms] False by (simp add: lpLast_def)
qed

lemma length_es_body:
  assumes "list_all ele_ok es"
  shows "length es \<le> length (lp_body es)"
  using assms
proof (induction es)
  case (Cons e es)
  then have "0 < length (enc_entry e)" using length_backlen(1) by (simp add: length_enc_entry)
  then have "1 \<le> length (enc_entry e)" by linarith
  moreover have "length es \<le> length (lp_body es)" using Cons by simp
  ultimately show ?case unfolding lp_body_simps length_append list.size by linarith
qed simp

lemma lp_rep_short: "lp_rep_at m n slack es \<Longrightarrow> length es < 2 ^ 32"
  unfolding lp_rep_at_def using length_es_body[of es] by simp

lemma lp_rep_count:
  assumes "lp_rep_at m n slack es" "i < length es"
  shows "lp_count m (Some (lp_pos es i)) i = Some (length es)"
  using assms(2)
proof (induction "length es - i" arbitrary: i)
  case (Suc k)
  have "Suc i < 2 ^ 32" using Suc.prems lp_rep_short[OF assms(1)] by simp
  then show ?case
    using Suc lp_rep_next[OF assms(1), of i]
    by (cases "Suc i < length es") (auto simp: less_Suc_eq)
qed simp

lemma lp_rep_seek_fwd:
  assumes "lp_rep_at m n slack es" "i < length es"
  shows "lp_seek_fwd m k (Some (lp_pos es i)) =
    Some (if i + k < length es then Some (lp_pos es (i + k)) else None)"
  using assms(2)
proof (induction k arbitrary: i)
  case (Suc k)
  show ?case
  proof (cases "Suc i < length es")
    case True
    then show ?thesis using Suc.IH[of "Suc i"] Suc.prems lp_rep_next[OF assms(1), of i] by simp
  next
    case False
    then show ?thesis using Suc.prems lp_rep_next[OF assms(1), of i] by (cases k) simp_all
  qed
qed simp

lemma lpPrev_6 [simp]: "lpPrev m 6 = Some None"
  by (simp add: lpPrev_def)

lemma lp_rep_seek_bwd:
  assumes "lp_rep_at m n slack es" "i < length es"
  shows "lp_seek_bwd m k (Some (lp_pos es i)) =
    Some (if k \<le> i then Some (lp_pos es (i - k)) else None)"
  using assms(2)
proof (induction k arbitrary: i)
  case (Suc k)
  show ?case
  proof (cases i)
    case 0
    then show ?thesis by (cases k) simp_all
  next
    case (Suc j)
    then show ?thesis using Suc.IH[of j] Suc.prems lp_rep_prev[OF assms(1), of j] by simp
  qed
qed simp

lemma lp_rep_seek:
  assumes "lp_rep_at m n slack es"
  shows "lpSeek m index =
    Some (let i = (if index < 0 then int (length es) + index else index)
          in if 0 \<le> i \<and> i < int (length es) then Some (lp_pos es (nat i)) else None)"
proof -
  have fwd: "lp_seek_from m True i =
      Some (if i < int (length es) then Some (lp_pos es (nat i)) else None)" if "0 \<le> i" for i
    using that lp_rep_first[OF assms] lp_rep_seek_fwd[OF assms, of 0 "nat i"]
    by (cases "es = []"; cases "nat i") (auto simp: lp_seek_from_def nat_less_iff)
  have bwd: "lp_seek_from m False i =
      Some (if - int (length es) \<le> i then Some (lp_pos es (nat (int (length es) + i))) else None)"
    if "i < 0" for i
  proof (cases "es = []")
    case True
    then show ?thesis using that lp_rep_last[OF assms]
      by (cases "nat (- 1 - i)") (auto simp: lp_seek_from_def)
  next
    case False
    have "nat (- 1 - i) \<le> length es - 1 \<longleftrightarrow> - int (length es) \<le> i"
      using that False by (simp add: nat_le_iff of_nat_diff Suc_le_eq) linarith
    moreover have "length es - 1 - nat (- 1 - i) = nat (int (length es) + i)"
      using that by linarith
    ultimately show ?thesis
      using False lp_rep_last[OF assms] lp_rep_seek_bwd[OF assms, of "length es - 1" "nat (- 1 - i)"]
      by (simp add: lp_seek_from_def)
  qed
  have num: "lpGetNumElements m = Some n" "n = 65535 \<or> n = length es \<and> n < 65535"
    using lp_rep_num[OF assms] assms by (auto simp: lp_rep_at_def)
  show ?thesis
  proof (cases "n = 65535")
    case True
    then show ?thesis using num fwd[of index] bwd[of index]
      by (cases "index < 0") (auto simp: lpSeek_def Let_def)
  next
    case False
    let ?i = "if index < 0 then int (length es) + index else index"
    have "n = length es" using num False by simp
    then show ?thesis
      using num False fwd[of ?i] bwd[of "?i - int (length es)"]
      by (auto simp: lpSeek_def Let_def)
  qed
qed


section \<open>Reading\<close>

definition ele_bytes :: "lp_ele \<Rightarrow> bytes" where
  "ele_bytes e = (case e of LpInt v \<Rightarrow> dec_int v | LpStr s \<Rightarrow> s)"

text \<open>The element that stands for a string: an integer when it is the canonical form of one.\<close>

definition to_ele :: "bytes \<Rightarrow> lp_ele" where
  "to_ele s = (case lpStringToInt64 s of Some v \<Rightarrow> LpInt v | None \<Rightarrow> LpStr s)"

lemma lp_digits_eq: "lp_digits v p = string2ll_loop v p"
  by (induction v p rule: lp_digits.induct)
    (auto simp only: lp_digits.simps string2ll_loop.simps Let_def split: if_split)

lemma lpStringToInt64_string2ll: "lpStringToInt64 s = string2ll s"
proof (cases "s = []")
  case False
  then have "hd s = 45 \<or> s \<noteq> []" by simp
  show ?thesis
    unfolding lpStringToInt64_def string2ll_def lp_digits_eq using False
    by (auto simp: Let_def split: option.splits)
qed (simp add: lpStringToInt64_def string2ll_def)

lemma lpStringToInt64_iff:
  "lpStringToInt64 s = Some v \<longleftrightarrow> s = dec_int v \<and> in_sbits 64 v"
  unfolding lpStringToInt64_string2ll string2ll_iff by (auto simp: in_sbits_leD)

lemma to_ele_bytes: "ele_bytes (to_ele s) = s"
  by (auto simp: to_ele_def ele_bytes_def lpStringToInt64_iff split: option.splits)

lemma to_ele_ok: "length s + 5 < 2 ^ 32 \<Longrightarrow> ele_ok (to_ele s)"
  by (auto simp: to_ele_def lpStringToInt64_iff split: option.splits)

text \<open>
  A listpack element equals a string when it reads as that string. An element that was stored
  as a string although it is a number in canonical form would not be found; \<open>ele_canon\<close>
  rules it out, and \<open>to_ele\<close> never produces one.
\<close>

definition ele_canon :: "lp_ele \<Rightarrow> bool" where
  "ele_canon e \<longleftrightarrow> (case e of LpInt v \<Rightarrow> True | LpStr s \<Rightarrow> lpStringToInt64 s = None)"

lemma str_data:
  assumes "lp_rep_at m n slack es" "i < length es" "es ! i = LpStr s"
  shows "ele_value (lp_pos es i) (es ! i) = LpPtr q k \<Longrightarrow> mem_get m q k = Some s"
proof -
  assume v: "ele_value (lp_pos es i) (es ! i) = LpPtr q k"
  obtain pre rest where m: "m = pre @ enc_entry (es ! i) @ rest" and p: "length pre = lp_pos es i"
    using lp_rep_entry[OF assms(1,2)] by metis
  let ?h = "str_hdr (length s)"
  have q: "q = length (pre @ ?h)" "k = length s" using v p assms(3) by (auto simp: str_hdr_def)
  have "m = (pre @ ?h) @ s @ lpEncodeBacklen (length (enc_ele (es ! i))) @ rest"
    using m assms(3) by (simp add: enc_entry_def enc_str_eq)
  then show "mem_get m q k = Some s" unfolding q by (simp only: mem_read_append0) (simp add: mem_get_def)
qed

lemma dec_int_inj: "dec_int v = dec_int w \<Longrightarrow> in_sbits 64 v \<Longrightarrow> in_sbits 64 w \<Longrightarrow> v = w"
  by (metis lpStringToInt64_iff option.inject)

lemma lp_rep_compare:
  assumes "lp_rep_at m n slack es" "i < length es" "ele_canon (es ! i)"
  shows "lpCompare m (lp_pos es i) s = Some (ele_bytes (es ! i) = s)"
proof -
  have ok: "ele_ok (es ! i)" using lp_rep_split(2)[OF assms(1,2)] .
  obtain b where b: "mem_byte m (lp_pos es i) = Some b" "b \<noteq> 0xFF"
    using lp_rep_get(3)[OF assms(1,2)] by blast
  show ?thesis
  proof (cases "es ! i")
    case (LpInt v)
    then have v: "in_sbits 64 v" using ok by simp
    have "(case lpStringToInt64 s of None \<Rightarrow> Some False | Some w \<Rightarrow> Some (v = w)) = Some (dec_int v = s)"
    proof (cases "lpStringToInt64 s")
      case None
      then show ?thesis using lpStringToInt64_iff[of s v] v by auto
    next
      case (Some w)
      then show ?thesis using lpStringToInt64_iff[of s w] lpStringToInt64_iff[of s v] v by auto
    qed
    then show ?thesis using b lp_rep_get(1)[OF assms(1,2)] LpInt
      by (simp add: lpCompare_def lpGet_def ele_bytes_def)
  next
    case (LpStr x)
    note d = str_data[OF assms(1,2) LpStr]
    show ?thesis using d b lp_rep_get(1)[OF assms(1,2)] LpStr
      by (auto simp: lpCompare_def lpGet_def ele_bytes_def)
  qed
qed

end
