(* ===== verification/Listpack_Ops.thy ===== *)
theory Listpack_Ops
  imports Listpack_Rep
begin

text \<open>
  The operations of \<open>listpack.c\<close> that change a listpack, on blocks that represent a list
  (\<open>lp_rep\<close>). \<open>lpInsert\<close> implements insertion before or after an element, replacement
  and deletion by moving the tail of the block inside a block that is grown before or shrunk
  after; the lemmas follow its stages (room, store, header).
\<close>

section \<open>Insertion, replacement and deletion\<close>

text \<open>An allocation has at least the requested size.\<close>

definition alloc_ok :: "lp_allocator \<Rightarrow> bool" where
  "alloc_ok A \<longleftrightarrow> (\<forall>n. n \<le> usable A n)"

definition lp_fits :: "lp_ele list \<Rightarrow> bool" where
  "lp_fits es \<longleftrightarrow> 7 + length (lp_body es) < 2 ^ 32"

text \<open>
  The list after \<open>lpInsert\<close> at the element of index \<open>i\<close>; \<open>None\<close> deletes.
\<close>

definition lp_edit :: "lp_where \<Rightarrow> nat \<Rightarrow> lp_ele option \<Rightarrow> lp_ele list \<Rightarrow> lp_ele list" where
  "lp_edit where i x es =
     (case x of
        None \<Rightarrow> take i es @ drop (Suc i) es
      | Some e \<Rightarrow>
          (case where of
             LP_BEFORE \<Rightarrow> take i es @ e # drop i es
           | LP_AFTER \<Rightarrow> take (Suc i) es @ e # drop (Suc i) es
           | LP_REPLACE \<Rightarrow> take i es @ e # drop (Suc i) es))"

text \<open>The arguments \<open>elestr\<close> and \<open>eleint\<close> that stand for an element.\<close>

definition ins_arg :: "bytes option \<Rightarrow> bytes option \<Rightarrow> lp_ele option \<Rightarrow> bool" where
  "ins_arg elestr eleint x \<longleftrightarrow>
     (case x of
        None \<Rightarrow> elestr = None \<and> eleint = None
      | Some e \<Rightarrow> (\<exists>s. elestr = Some s \<and> eleint = None \<and> e = to_ele s \<and> length s + 5 < 2 ^ 32) \<or>
          (\<exists>v. elestr = None \<and> eleint = Some (lpEncodeIntegerGetType v) \<and> e = LpInt v \<and> in_sbits 64 v))"

lemma mem_put_mid [mem_simps]:
  "length x = length y \<Longrightarrow> mem_put (pre @ x @ post) (length pre) y = Some (pre @ y @ post)"
  by (simp add: mem_put_def)

lemma realloc_prefix:
  assumes "alloc_ok A" "length Y \<le> n"
  obtains s' where "lp_realloc A (Y @ s) n = Y @ s'" "n \<le> length (Y @ s')"
proof
  let ?u = "usable A n"
  have u: "n \<le> ?u" using assms(1) by (simp add: alloc_ok_def)
  then show "lp_realloc A (Y @ s) n = Y @ (take (?u - length Y) s @ map (junk A) [length (Y @ s)..<?u])"
    using assms(2) by (simp add: lp_realloc_def mem_realloc_def)
  then have "length (Y @ (take (?u - length Y) s @ map (junk A) [length (Y @ s)..<?u])) = ?u"
    by (metis length_mem_realloc lp_realloc_def)
  then show "n \<le> length (Y @ (take (?u - length Y) s @ map (junk A) [length (Y @ s)..<?u]))"
    using u by linarith
qed

lemma move_room:
  assumes "room + length B \<le> length R + length B + length s1"
  obtains X s2 where "mem_move (pre @ R @ B @ s1) (length pre + room) (length pre + length R) (length B) =
      Some ((pre @ X @ B) @ s2)" "length X = room"
proof
  show "mem_move (pre @ R @ B @ s1) (length pre + room) (length pre + length R) (length B) =
      Some ((pre @ take room (R @ B @ s1) @ B) @ drop (room + length B) (R @ B @ s1))"
    using assms by (subst mem_move_Some) (simp_all add: ac_simps)
  show "length (take room (R @ B @ s1)) = room" using assms by simp
qed

lemma ins_room:
  assumes A: "alloc_ok A"
    and m: "m = pre @ R @ B @ slack" and old: "old = length pre + length R + length B"
    and new: "new = length pre + room + length B" and w: "where = LP_BEFORE \<Longrightarrow> R = []"
  obtains X slack2 where "lp_ins_room A m where (length pre) room (length R) old new =
      Some (pre @ X @ B @ slack2)" "length X = room"
proof -
  obtain s1 where s1: "(if new > old \<and> new > length m then lp_realloc A m new else m) = pre @ R @ B @ s1"
    and l1: "room + length B \<le> length R + length B + length s1"
  proof (cases "new > old \<and> new > length m")
    case True
    then obtain s' where "lp_realloc A ((pre @ R @ B) @ slack) new = (pre @ R @ B) @ s'"
      "new \<le> length ((pre @ R @ B) @ s')"
      using realloc_prefix[OF A, of "pre @ R @ B" new slack] m by auto
    then show ?thesis using that[of s'] True m new by simp
  next
    case False
    then show ?thesis using that[of slack] m old new by auto
  qed
  obtain X s2 where mv: "mem_move (pre @ R @ B @ s1) (length pre + room) (length pre + length R) (length B) =
      Some ((pre @ X @ B) @ s2)" and X: "length X = room"
    using move_room[OF l1] by blast
  obtain s3 where s3: "(if new < old then lp_realloc A ((pre @ X @ B) @ s2) new else (pre @ X @ B) @ s2) = (pre @ X @ B) @ s3"
    using realloc_prefix[OF A, of "pre @ X @ B" new s2] X new by (metis length_append order_refl add.assoc)
  have b: "old - length pre = length B" "length R = 0" if "where = LP_BEFORE" using that old w by simp_all
  have c: "old - length pre - length R = length B" using old by simp
  have "lp_ins_room A m where (length pre) room (length R) old new =
      Some (if new < old then lp_realloc A ((pre @ X @ B) @ s2) new else (pre @ X @ B) @ s2)"
    unfolding lp_ins_room_def s1 using mv b c old w by (cases "where = LP_BEFORE") simp_all
  then show ?thesis using that[of X s3] X s3 by simp
qed

lemma ins_store:
  assumes "ins_arg elestr eleint (Some e)" "lp_ins_encode elestr eleint = (ty, ei, k)"
  shows "k = length (enc_ele e)"
    and "length X = length (enc_ele e) + length bl \<Longrightarrow>
      lp_ins_store (pre @ X @ post) (length pre) ty elestr ei k bl = Some (pre @ enc_ele e @ bl @ post)"
proof -
  have st: "mem_put (pre @ X @ post) (length pre) x \<bind> (\<lambda>m. mem_put m (length pre + length x) bl) =
      Some (pre @ x @ bl @ post)" if "length X = length x + length bl" for x
  proof -
    define X1 X2 where "X1 = take (length x) X" and "X2 = drop (length x) X"
    then have X: "X = X1 @ X2" "length X1 = length x" "length X2 = length bl" using that by simp_all
    have "mem_put ((pre @ x) @ X2 @ post) (length (pre @ x)) bl = Some ((pre @ x) @ bl @ post)"
      using X by (intro mem_put_mid) simp
    then show ?thesis using X mem_put_mid[of X1 x pre "X2 @ post"] by simp
  qed
  have "k = length (enc_ele e) \<and> (length X = length (enc_ele e) + length bl \<longrightarrow>
      lp_ins_store (pre @ X @ post) (length pre) ty elestr ei k bl = Some (pre @ enc_ele e @ bl @ post))"
  proof (cases "\<exists>s. elestr = Some s \<and> eleint = None \<and> e = to_ele s")
    case True
    then obtain s where s: "elestr = Some s" "eleint = None" "e = to_ele s" by blast
    show ?thesis
    proof (cases "lpStringToInt64 s")
      case None
      then have "k = length (lpEncodeString s)" "ty = Some LP_ENCODING_STRING" "e = LpStr s"
        using assms(2) s
        by (auto simp: lp_ins_encode_def lpEncodeGetType_def to_ele_def Let_def lpEncodeString_def)
      then show ?thesis using st[of "lpEncodeString s"] s by (simp add: lp_ins_store_def)
    next
      case (Some v)
      then have "k = length (lpEncodeIntegerGetType v)" "ty = Some LP_ENCODING_INT" "e = LpInt v"
        "ei = Some (lpEncodeIntegerGetType v)"
        using assms(2) s by (auto simp: lp_ins_encode_def lpEncodeGetType_def to_ele_def Let_def)
      then show ?thesis using st[of "lpEncodeIntegerGetType v"] s by (simp add: lp_ins_store_def)
    qed
  next
    case False
    then obtain v where v: "elestr = None" "eleint = Some (lpEncodeIntegerGetType v)" "e = LpInt v"
      using assms(1) by (auto simp: ins_arg_def)
    then have "k = length (lpEncodeIntegerGetType v)" "ty = Some LP_ENCODING_INT"
        "ei = Some (lpEncodeIntegerGetType v)"
      using assms(2) by (auto simp: lp_ins_encode_def)
    then show ?thesis using st[of "lpEncodeIntegerGetType v"] v by (simp add: lp_ins_store_def)
  qed
  then show "k = length (enc_ele e)"
    and "length X = length (enc_ele e) + length bl \<Longrightarrow>
      lp_ins_store (pre @ X @ post) (length pre) ty elestr ei k bl = Some (pre @ enc_ele e @ bl @ post)"
    by auto
qed

lemma ins_arg_ok: "ins_arg elestr eleint (Some e) \<Longrightarrow> ele_ok e"
  by (auto simp: ins_arg_def to_ele_ok)

lemma ins_header:
  assumes "n = 65535 \<or> n = k \<and> n < 65535" "del \<Longrightarrow> counts \<and> 0 < k"
  shows "\<exists>n'. lp_ins_header (lp_hdr t n @ xs) counts del new = Some (lp_hdr new n' @ xs) \<and>
    (let k' = (if \<not> counts then k else if del then k - 1 else k + 1)
     in n' = 65535 \<or> n' = k' \<and> n' < 65535)"
proof -
  have "n < 65536" using assms(1) by auto
  moreover have "nat ((int n - 1) mod 4294967296) = n - 1" if "0 < n" "n < 65535"
    using that by (simp add: nat_diff_distrib mod_pos_pos_trivial)
  ultimately show ?thesis
    using assms by (cases "n = 65535") (auto simp: lp_ins_header_def hdr_num hdr_set_num hdr_set_total)
qed

definition ins_bytes :: "lp_ele option \<Rightarrow> bytes" where
  "ins_bytes x = (case x of None \<Rightarrow> [] | Some e \<Rightarrow> enc_entry e)"

lemma ins_encode:
  assumes arg: "ins_arg elestr eleint x"
  obtains ty ei k bl where "lp_ins_encode elestr eleint = (ty, ei, k)"
    "(if x \<noteq> None then lpEncodeBacklen k else []) = bl" "k + length bl = length (ins_bytes x)"
    "\<And>pre X post. length X = length (ins_bytes x) \<Longrightarrow>
      (if x \<noteq> None then lp_ins_store (pre @ X @ post) (length pre) ty elestr ei k bl else Some (pre @ X @ post)) =
      Some (pre @ ins_bytes x @ post)"
proof (cases x)
  case None
  then have "lp_ins_encode elestr eleint = (None, None, 0)" using arg by (simp add: ins_arg_def lp_ins_encode_def)
  then show ?thesis using that[of None None 0 "[]"] None by (simp add: ins_bytes_def)
next
  case (Some e)
  obtain ty ei k where E: "lp_ins_encode elestr eleint = (ty, ei, k)" by (metis prod_cases3)
  have k: "k = length (enc_ele e)" using ins_store(1) arg E Some by blast
  have en: "ins_bytes x = enc_ele e @ lpEncodeBacklen k" using Some k by (simp add: ins_bytes_def enc_entry_def)
  show ?thesis
  proof (rule that[OF E, of "lpEncodeBacklen k"])
    fix pre X post :: bytes
    assume "length X = length (ins_bytes x)"
    then show "(if x \<noteq> None then lp_ins_store (pre @ X @ post) (length pre) ty elestr ei k (lpEncodeBacklen k)
        else Some (pre @ X @ post)) = Some (pre @ ins_bytes x @ post)"
      using ins_store(2)[of elestr eleint e ty ei k X "lpEncodeBacklen k" pre post] arg E Some en k by simp
  qed (use Some en k in simp_all)
qed

lemma ins_core:
  assumes A: "alloc_ok A" and arg: "ins_arg elestr eleint x"
    and m: "m = lp_hdr t n @ P @ R @ Q @ 0xFF # slack" and t: "t = 7 + length (P @ R @ Q)" "t < 2 ^ 32"
    and n: "n = 65535 \<or> n = k \<and> n < 65535" and p: "p = 6 + length P"
    and wh: "where \<noteq> LP_AFTER" "wh = (if x = None then LP_REPLACE else where)"
    and R0: "wh = LP_BEFORE \<Longrightarrow> R = []"
    and R: "wh = LP_REPLACE \<Longrightarrow> lpCurrentEncodedSizeUnsafe m p = Some l \<and>
      length R = l + length (lpEncodeBacklen l) \<and> 0 < k"
    and Q: "Q \<noteq> [] \<Longrightarrow> hd Q \<noteq> 0xFF"
    and N: "new = 7 + length (P @ ins_bytes x @ Q)"
  shows "new < 2 ^ 32 \<Longrightarrow> \<exists>slack' n'. lpInsert A m elestr eleint p where np =
      Some (Some (lp_hdr new n' @ P @ ins_bytes x @ Q @ 0xFF # slack',
        if np \<and> \<not> (x = None \<and> Q = []) then Some p else None)) \<and>
      (let k' = (if x = None then k - 1 else if wh = LP_BEFORE then k + 1 else k)
       in n' = 65535 \<or> n' = k' \<and> n' < 65535)"
    and "\<not> new < 2 ^ 32 \<Longrightarrow> lpInsert A m elestr eleint p where np = Some None"
proof -
  obtain ty ei len bl where E: "lp_ins_encode elestr eleint = (ty, ei, len)"
    and bl: "(if x \<noteq> None then lpEncodeBacklen len else []) = bl" and NL: "len + length bl = length (ins_bytes x)"
    and st: "\<And>pre X post. length X = length (ins_bytes x) \<Longrightarrow>
      (if x \<noteq> None then lp_ins_store (pre @ X @ post) (length pre) ty elestr ei len bl else Some (pre @ X @ post)) =
      Some (pre @ ins_bytes x @ post)"
    using ins_encode[OF arg] by metis
  have del: "(elestr = None \<and> eleint = None) = (x = None)"
    using arg by (auto simp: ins_arg_def split: option.splits)
  have whn: "wh \<noteq> LP_AFTER" using wh by auto
  have tot: "lpGetTotalBytes m = Some t" using m t by (simp add: hdr_total)
  have rl: "(if wh = LP_REPLACE then do {
          n \<leftarrow> lpCurrentEncodedSizeUnsafe m p;
          let n = (n + length (lpEncodeBacklen n)) mod 2 ^ 32;
          assert_integrity_len m p n;
          Some n }
        else Some 0) = Some (length R)"
  proof (cases "wh = LP_REPLACE")
    case True
    have "length R mod 4294967296 = length R" using t by simp
    then show ?thesis using True R tot p t by (simp add: assert_integrity_len_def Let_def)
  next
    case False
    then show ?thesis using R0 whn by (cases wh) auto
  qed
  have nw: "t + len + length bl - length R = new" using t N NL by simp
  have unf: "lpInsert A m elestr eleint p where np =
    (if new > 4294967295 then Some None
     else do {
       m \<leftarrow> lp_ins_room A m wh p (length (ins_bytes x)) (length R) t new;
       newp \<leftarrow> (if np then
                  (if x = None then do { b \<leftarrow> mem_byte m p; Some (if b = LP_EOF then None else Some p) }
                   else Some (Some p))
                else Some None);
       m \<leftarrow> (if x \<noteq> None then lp_ins_store m p ty elestr ei len bl else Some m);
       m \<leftarrow> lp_ins_header m (wh \<noteq> LP_REPLACE \<or> x = None) (x = None) new;
       Some (Some (m, newp))
     })"
    unfolding lpInsert_def Let_def del wh(2)[symmetric] E split_conv bl NL tot bind.bind_lunit
    using whn rl[unfolded Let_def] nw by (simp only: if_False bind.bind_lunit split_conv)
  show "lpInsert A m elestr eleint p where np = Some None" if "\<not> new < 2 ^ 32"
    using that unfolding unf by simp
  assume lt: "new < 2 ^ 32"
  let ?pre = "lp_hdr t n @ P" and ?B = "Q @ [0xFF]"
  obtain X s2 where room: "lp_ins_room A m wh (length ?pre) (length (ins_bytes x)) (length R) t new = Some (?pre @ X @ ?B @ s2)"
    and X: "length X = length (ins_bytes x)"
    using ins_room[OF A, of m ?pre R ?B slack t new "length (ins_bytes x)" wh] m t N R0 by auto
  have pp: "length ?pre = p" using p by simp
  have byte: "mem_byte (?pre @ X @ ?B @ s2) p = Some (hd ?B)" if "x = None"
    using that X mem_read_append0[of ?pre] by (cases Q) (simp_all add: ins_bytes_def mem_byte_Some pp[symmetric] nth_append)
  have np: "(if np then (if x = None then do { b \<leftarrow> mem_byte (?pre @ X @ ?B @ s2) p; Some (if b = LP_EOF then None else Some p) }
                   else Some (Some p)) else Some None) =
       Some (if np \<and> \<not> (x = None \<and> Q = []) then Some p else None)"
    using byte Q by (cases Q) auto
  obtain n' where h: "lp_ins_header (lp_hdr t n @ P @ ins_bytes x @ ?B @ s2) (wh \<noteq> LP_REPLACE \<or> x = None) (x = None) new =
      Some (lp_hdr new n' @ P @ ins_bytes x @ ?B @ s2)"
    and n': "let k' = (if \<not> (wh \<noteq> LP_REPLACE \<or> x = None) then k else if x = None then k - 1 else k + 1)
     in n' = 65535 \<or> n' = k' \<and> n' < 65535"
    using ins_header[OF n, of "x = None" "wh \<noteq> LP_REPLACE \<or> x = None"] R wh by force
  have "lpInsert A m elestr eleint p where np =
      Some (Some (lp_hdr new n' @ P @ ins_bytes x @ ?B @ s2, if np \<and> \<not> (x = None \<and> Q = []) then Some p else None))"
    unfolding unf using lt room st[OF X, of ?pre "?B @ s2"] np h
    by (simp only: pp bind.bind_lunit append_assoc) simp
  moreover have "(if \<not> (wh \<noteq> LP_REPLACE \<or> x = None) then k else if x = None then k - 1 else k + 1) =
      (if x = None then k - 1 else if wh = LP_BEFORE then k + 1 else k)"
    using whn by (cases wh) auto
  ultimately show "\<exists>slack' n'. lpInsert A m elestr eleint p where np =
      Some (Some (lp_hdr new n' @ P @ ins_bytes x @ Q @ 0xFF # slack',
        if np \<and> \<not> (x = None \<and> Q = []) then Some p else None)) \<and>
      (let k' = (if x = None then k - 1 else if wh = LP_BEFORE then k + 1 else k)
       in n' = 65535 \<or> n' = k' \<and> n' < 65535)"
    using n' by (intro exI[of _ s2] exI[of _ n']) simp
qed

lemma body_hd: "list_all ele_ok es \<Longrightarrow> es \<noteq> [] \<Longrightarrow> lp_body es \<noteq> [] \<and> hd (lp_body es) \<noteq> 0xFF"
proof (cases es)
  case (Cons e fs)
  assume "list_all ele_ok es"
  then have "ele_ok e" using Cons by simp
  from enc_ele_facts(3)[OF this, of "[]" "[]"] have "enc_ele e \<noteq> []" "hd (enc_ele e) \<noteq> 0xFF"
    by (auto simp: mem_byte_def hd_conv_nth split: if_splits)
  then show ?thesis using Cons by (simp add: enc_entry_def)
qed simp

lemma ins_parts:
  assumes A: "alloc_ok A" and arg: "ins_arg elestr eleint x"
    and rep: "lp_rep_at m n slack (xs @ ys @ zs)"
    and wh: "where \<noteq> LP_AFTER" "wh = (if x = None then LP_REPLACE else where)"
    and ys: "wh = LP_BEFORE \<Longrightarrow> ys = []" "wh = LP_REPLACE \<Longrightarrow> \<exists>y. ys = [y]"
    and fs: "fs = xs @ (case x of None \<Rightarrow> [] | Some e \<Rightarrow> [e]) @ zs"
  shows "lp_fits fs \<Longrightarrow> \<exists>m'. lpInsert A m elestr eleint (6 + length (lp_body xs)) where np =
      Some (Some (m', if np \<and> \<not> (x = None \<and> zs = []) then Some (6 + length (lp_body xs)) else None)) \<and>
      lp_rep m' fs"
    and "\<not> lp_fits fs \<Longrightarrow> lpInsert A m elestr eleint (6 + length (lp_body xs)) where np = Some None"
proof -
  let ?p = "6 + length (lp_body xs)"
  let ?l = "length (enc_ele (hd ys))"
  have m: "m = lp_hdr (7 + length (lp_body (xs @ ys @ zs))) n @ lp_body xs @ lp_body ys @ lp_body zs @ 0xFF # slack"
    and t: "7 + length (lp_body (xs @ ys @ zs)) = 7 + length (lp_body xs @ lp_body ys @ lp_body zs)"
      "7 + length (lp_body (xs @ ys @ zs)) < 2 ^ 32"
    and ok: "list_all ele_ok (xs @ ys @ zs)"
    and n: "n = 65535 \<or> n = length (xs @ ys @ zs) \<and> n < 65535"
    using rep by (auto simp: lp_rep_at_def)
  have b: "wh = LP_BEFORE \<Longrightarrow> lp_body ys = []" using ys by auto
  have r: "lpCurrentEncodedSizeUnsafe m ?p = Some ?l \<and> length (lp_body ys) = ?l + length (lpEncodeBacklen ?l) \<and>
      0 < length (xs @ ys @ zs)" if rp: "wh = LP_REPLACE"
  proof -
    obtain y where "ys = [y]" using ys(2)[OF rp] by blast
    then show ?thesis using lp_rep_get(4)[OF rep, of "length xs"]
      by (simp add: lp_pos_def length_enc_entry nth_append)
  qed
  have q: "lp_body zs \<noteq> [] \<Longrightarrow> hd (lp_body zs) \<noteq> 0xFF" "(lp_body zs = []) = (zs = [])"
    using body_hd[of zs] ok by (cases "zs = []"; force)+
  have nw: "7 + length (lp_body fs) = 7 + length (lp_body xs @ ins_bytes x @ lp_body zs)"
    and bd: "lp_body fs = lp_body xs @ ins_bytes x @ lp_body zs"
    using fs by (auto simp: ins_bytes_def split: option.splits)
  note core = ins_core[OF A arg m t n refl wh b r q(1) nw]
  show "lpInsert A m elestr eleint ?p where np = Some None" if "\<not> lp_fits fs"
    using core(2) that unfolding lp_fits_def by blast
  assume fit: "lp_fits fs"
  have okf: "list_all ele_ok fs"
    using ok fs ins_arg_ok[of elestr eleint] arg by (auto split: option.splits)
  have len: "length fs = (let k = length (xs @ ys @ zs) in if x = None then k - 1 else if wh = LP_BEFORE then k + 1 else k)"
    using fs ys wh by (cases wh; cases x) (auto simp: Let_def)
  from core(1) fit obtain slack' n' where
    e: "lpInsert A m elestr eleint ?p where np =
      Some (Some (lp_hdr (7 + length (lp_body fs)) n' @ lp_body xs @ ins_bytes x @ lp_body zs @ 0xFF # slack',
        if np \<and> \<not> (x = None \<and> lp_body zs = []) then Some ?p else None))"
    and n': "n' = 65535 \<or> n' = length fs \<and> n' < 65535"
    unfolding lp_fits_def len Let_def by blast
  have "lp_rep (lp_hdr (7 + length (lp_body fs)) n' @ lp_body xs @ ins_bytes x @ lp_body zs @ 0xFF # slack') fs"
    unfolding lp_rep_def lp_rep_at_def using okf n' fit bd by (auto simp: lp_fits_def)
  then show "\<exists>m'. lpInsert A m elestr eleint ?p where np =
      Some (Some (m', if np \<and> \<not> (x = None \<and> zs = []) then Some ?p else None)) \<and> lp_rep m' fs"
    using e q(2) by auto
qed

lemma ins_after:
  assumes "lp_rep_at m n slack es" "i < length es" "ins_arg elestr eleint (Some e)"
  shows "lpInsert A m elestr eleint (lp_pos es i) LP_AFTER np =
    lpInsert A m elestr eleint (lp_pos es (Suc i)) LP_BEFORE np"
proof -
  have "assert_integrity m (lp_pos es (Suc i)) = Some ()"
    using lp_rep_total[OF assms(1)] lp_rep_entry[OF assms(1,2)]
    by (metis (no_types, lifting) assert_integrity_def bind.bind_lunit c_assert_def le_add1 lp_pos_def)
  moreover have "\<not> (elestr = None \<and> eleint = None)" using assms(3) by (auto simp: ins_arg_def)
  ultimately show ?thesis
    using lp_rep_get(2)[OF assms(1,2)] unfolding lpInsert_def Let_def
    by (simp only: if_False if_True bind.bind_lunit lp_where.distinct simp_thms)
qed

text \<open>The entry a pointer returned through \<open>newp\<close> is at.\<close>

definition lp_edit_at :: "lp_where \<Rightarrow> nat \<Rightarrow> lp_ele option \<Rightarrow> nat" where
  "lp_edit_at where i x = (if where = LP_AFTER \<and> x \<noteq> None then Suc i else i)"

lemma lpInsert_rep:
  assumes A: "alloc_ok A" and arg: "ins_arg elestr eleint x" and rep: "lp_rep m es"
    and i: "i < length es \<or> i = length es \<and> where = LP_BEFORE \<and> x \<noteq> None"
  defines "fs \<equiv> lp_edit where i x es" and "j \<equiv> lp_edit_at where i x"
  shows "lp_fits fs \<Longrightarrow> \<exists>m'. lpInsert A m elestr eleint (lp_pos es i) where np =
      Some (Some (m', if np \<and> j < length fs then Some (lp_pos fs j) else None)) \<and> lp_rep m' fs"
    and "\<not> lp_fits fs \<Longrightarrow> lpInsert A m elestr eleint (lp_pos es i) where np = Some None"
proof -
  obtain n slack where R: "lp_rep_at m n slack es" using rep by (auto simp: lp_rep_def)
  define w where "w = (if where = LP_AFTER then LP_BEFORE else where)"
  define wh where "wh = (if x = None then LP_REPLACE else w)"
  define xs where "xs = take j es"
  define ys where "ys = (if wh = LP_REPLACE then [es ! j] else [])"
  define zs where "zs = (if wh = LP_REPLACE then drop (Suc j) es else drop j es)"
  have jl: "j \<le> length es" "wh = LP_REPLACE \<Longrightarrow> j < length es"
    using i by (auto simp: j_def lp_edit_at_def wh_def w_def split: if_splits)
  have wn: "w \<noteq> LP_AFTER" by (simp add: w_def)
  have es: "es = xs @ ys @ zs" using jl by (auto simp: xs_def ys_def zs_def id_take_nth_drop)
  have fs: "fs = xs @ (case x of None \<Rightarrow> [] | Some e \<Rightarrow> [e]) @ zs"
    by (cases "where"; cases x)
      (simp_all add: fs_def lp_edit_def j_def lp_edit_at_def xs_def zs_def wh_def w_def)
  have lx: "length xs = j" using jl by (simp add: xs_def)
  have ps: "lp_pos es j = 6 + length (lp_body xs)" "lp_pos fs j = 6 + length (lp_body xs)"
    using lx by (simp_all add: lp_pos_def xs_def fs)
  have jf: "j < length fs \<longleftrightarrow> \<not> (x = None \<and> zs = [])" using lx by (auto simp: fs split: option.splits)
  have call: "lpInsert A m elestr eleint (lp_pos es i) where np = lpInsert A m elestr eleint (lp_pos es j) w np"
  proof (cases "where = LP_AFTER")
    case True
    show ?thesis
    proof (cases x)
      case None
      then show ?thesis using arg by (simp add: lpInsert_def ins_arg_def j_def lp_edit_at_def)
    next
      case (Some e)
      then show ?thesis using ins_after[OF R _ arg[unfolded Some]] i True by (auto simp: j_def lp_edit_at_def w_def)
    qed
  qed (simp add: w_def j_def lp_edit_at_def)
  note P = ins_parts[OF A arg R[unfolded es] wn wh_def _ _ fs, of np]
  show "lp_fits fs \<Longrightarrow> \<exists>m'. lpInsert A m elestr eleint (lp_pos es i) where np =
      Some (Some (m', if np \<and> j < length fs then Some (lp_pos fs j) else None)) \<and> lp_rep m' fs"
    using P(1) unfolding call ps jf by (auto simp: ys_def)
  show "\<not> lp_fits fs \<Longrightarrow> lpInsert A m elestr eleint (lp_pos es i) where np = Some None"
    using P(2) unfolding call ps by (auto simp: ys_def)
qed

section \<open>Creation, length and concatenation\<close>

lemma lp_repI:
  "7 + length (lp_body es) < 2 ^ 32 \<Longrightarrow> list_all ele_ok es \<Longrightarrow> n = 65535 \<or> n = length es \<and> n < 65535 \<Longrightarrow>
    t = 7 + length (lp_body es) \<Longrightarrow> lp_rep (lp_hdr t n @ lp_body es @ 0xFF # slack) es"
  by (auto simp: lp_rep_def lp_rep_at_def)

lemma mem_put_room:
  assumes "length y \<le> length rest"
  obtains rest' where "mem_put (pre @ rest) (length pre) y = Some (pre @ y @ rest')"
    "length rest = length y + length rest'"
proof
  have "mem_put (pre @ take (length y) rest @ drop (length y) rest) (length pre) y =
      Some (pre @ y @ drop (length y) rest)"
    using assms by (intro mem_put_mid) simp
  then show "mem_put (pre @ rest) (length pre) y = Some (pre @ y @ drop (length y) rest)" by simp
  show "length rest = length y + length (drop (length y) rest)" using assms by simp
qed

lemma new_header:
  assumes "7 \<le> length m"
  shows "\<exists>rest. (do { m \<leftarrow> lpSetTotalBytes m 7; m \<leftarrow> lpSetNumElements m 0; mem_put m 6 [0xFF] }) =
    Some (lp_hdr 7 0 @ 0xFF # rest)"
proof -
  define y1 y2 where "y1 = (le_enc 4 7 :: bytes)" and "y2 = (le_enc 2 0 :: bytes)"
  have l: "length y1 = 4" "length y2 = 2" by (simp_all add: y1_def y2_def)
  have "length y1 \<le> length m" using l assms by linarith
  from mem_put_room[OF this, of "[]"] obtain r1 where
    r1: "mem_put m 0 y1 = Some (y1 @ r1)" "length m = 4 + length r1" unfolding l append_Nil list.size(3) .
  have "length y2 \<le> length r1" using l r1 assms by linarith
  from mem_put_room[OF this, of y1] obtain r2 where
    r2: "mem_put (y1 @ r1) 4 y2 = Some (y1 @ y2 @ r2)" "length r1 = 2 + length r2" unfolding l .
  have "length [0xFF :: byte] \<le> length r2" using r1 r2 assms by simp
  from mem_put_room[OF this, of "y1 @ y2"] obtain r3 where
    r3: "mem_put (y1 @ y2 @ r2) 6 [0xFF] = Some (y1 @ y2 @ 0xFF # r3)" using l by auto
  have "lpSetNumElements (y1 @ r1) 0 = mem_put (y1 @ r1) 4 y2" "lpSetTotalBytes m 7 = mem_put m 0 y1"
    unfolding lpSetNumElements_def lpSetTotalBytes_def y1_def y2_def le_enc_nat by simp_all
  moreover have "lp_hdr 7 0 = y1 @ y2" by (simp add: lp_hdr_def y1_def y2_def)
  ultimately show ?thesis using r1(1) r2(1) r3 by (simp only: bind.bind_lunit append_assoc) blast
qed

lemma lpNew_rep:
  assumes "alloc_ok A"
  shows "\<exists>m. lpNew A capacity = Some m \<and> lp_rep m []"
proof -
  let ?c = "if capacity > 7 then capacity else 7"
  have "7 \<le> ?c" by simp
  also have "?c \<le> usable A ?c" using assms unfolding alloc_ok_def by blast
  finally have "7 \<le> length (lp_malloc A ?c)" by (simp add: lp_malloc_def)
  from new_header[OF this] show ?thesis
    unfolding lpNew_def using lp_repI[of "[]" 0 7] by (auto simp: Let_def)
qed

lemma lp_rep_length:
  assumes "lp_rep_at m n slack es"
  obtains n' where "lpLength m = Some (lp_hdr (7 + length (lp_body es)) n' @ lp_body es @ 0xFF # slack, length es)"
    "n' = 65535 \<or> n' = length es \<and> n' < 65535"
proof -
  have m: "m = lp_hdr (7 + length (lp_body es)) n @ lp_body es @ 0xFF # slack"
    and n: "n = 65535 \<or> n = length es \<and> n < 65535" using assms by (auto simp: lp_rep_at_def)
  have c: "lp_count m (if es = [] then None else Some 6) 0 = Some (length es)"
    using lp_rep_count[OF assms, of 0] by auto
  show ?thesis
  proof (cases "n = 65535")
    case True
    let ?n = "if length es < 65535 then length es else 65535"
    have "lpLength m = Some (lp_hdr (7 + length (lp_body es)) ?n @ lp_body es @ 0xFF # slack, length es)"
      using True c lp_rep_first[OF assms] lp_rep_num[OF assms] m by (simp add: lpLength_def hdr_set_num)
    then show ?thesis using that by simp
  next
    case False
    then show ?thesis using that[of n] n m lp_rep_num[OF assms] by (simp add: lpLength_def)
  qed
qed

lemma merge_append:
  assumes A: "alloc_ok A" and h: "length h1 = 6" "length h2 = 6" and T: "T = 7 + length b1 + length b2"
  obtains s where "mem_get (h2 @ b2 @ e # s2) 6 (Suc (length b2)) = Some (b2 @ [e])"
    "mem_put (lp_realloc A (h1 @ b1 @ e # s1) T) (6 + length b1) (b2 @ [e]) = Some (h1 @ b1 @ b2 @ e # s)"
proof -
  have "length (h1 @ b1 @ [e]) \<le> T" using h T by simp
  from realloc_prefix[OF A this, of s1] obtain s' where
    s': "lp_realloc A (h1 @ b1 @ e # s1) T = (h1 @ b1) @ (e # s')" "T \<le> length (h1 @ b1 @ [e]) + length s'"
    by (metis append.assoc append_Cons append_Nil length_append)
  have "length (b2 @ [e]) \<le> length (e # s')" using s'(2) h T by simp
  from mem_put_room[OF this, of "h1 @ b1"] obtain s where
    "mem_put ((h1 @ b1) @ (e # s')) (length (h1 @ b1)) (b2 @ [e]) = Some ((h1 @ b1) @ (b2 @ [e]) @ s)" .
  then have "mem_put (lp_realloc A (h1 @ b1 @ e # s1) T) (6 + length b1) (b2 @ [e]) = Some (h1 @ b1 @ b2 @ e # s)"
    unfolding s'(1) using h by simp
  moreover have "mem_get (h2 @ b2 @ e # s2) 6 (Suc (length b2)) = Some (b2 @ [e])"
    using h by (simp add: mem_get_def)
  ultimately show ?thesis using that by blast
qed

lemma merge_prepend:
  assumes A: "alloc_ok A" and h: "length h1 = 6" "length h2 = 6" and T: "T = 7 + length b1 + length b2"
  obtains m s where "mem_move (lp_realloc A (h2 @ b2 @ e # s2) T) (6 + length b1) 6 (Suc (length b2)) = Some m"
    "mem_get (h1 @ b1 @ e # s1) 0 (6 + length b1) = Some (h1 @ b1)"
    "mem_put m 0 (h1 @ b1) = Some (h1 @ b1 @ b2 @ e # s)"
proof -
  have "length (h2 @ b2 @ [e]) \<le> T" using h T by simp
  from realloc_prefix[OF A this, of s2] obtain s' where
    s': "lp_realloc A (h2 @ b2 @ e # s2) T = h2 @ [] @ (b2 @ [e]) @ s'" "T \<le> length (h2 @ b2 @ [e]) + length s'"
    by (metis append.assoc append_Cons append_Nil length_append)
  have "length b1 + length (b2 @ [e]) \<le> length ([] :: bytes) + length (b2 @ [e]) + length s'"
    using s'(2) h T by simp
  from move_room[OF this, of h2] obtain X s where
    mv: "mem_move (lp_realloc A (h2 @ b2 @ e # s2) T) (6 + length b1) 6 (Suc (length b2)) =
      Some (h2 @ X @ b2 @ e # s)" and X: "length X = length b1"
    unfolding s'(1) using h by auto
  have "mem_put ([] @ (h2 @ X) @ (b2 @ e # s)) (length ([] :: bytes)) (h1 @ b1) = Some ([] @ (h1 @ b1) @ (b2 @ e # s))"
    using X h by (intro mem_put_mid) simp
  moreover have "mem_get (h1 @ b1 @ e # s1) 0 (6 + length b1) = Some (h1 @ b1)"
    using h by (simp add: mem_get_def)
  ultimately show ?thesis using that mv by simp
qed

lemma lpMerge_rep:
  assumes A: "alloc_ok A" and r1: "lp_rep m1 es1" and r2: "lp_rep m2 es2" and fs: "fs = es1 @ es2"
  shows "7 + length (lp_body fs) < 4294967295 \<Longrightarrow> \<exists>m. lp_rep m fs \<and>
      lpMerge A (Some m1) (Some m2) False =
        Some (Some (if length (lp_body es1) \<ge> length (lp_body es2) then (Some m, None) else (None, Some m)))"
    and "\<not> 7 + length (lp_body fs) < 4294967295 \<Longrightarrow> lpMerge A (Some m1) (Some m2) False = None"
proof -
  obtain n1 s1 n2 s2 where R: "lp_rep_at m1 n1 s1 es1" "lp_rep_at m2 n2 s2 es2" using r1 r2 by (auto simp: lp_rep_def)
  define b1 b2 where b: "b1 = lp_body es1" "b2 = lp_body es2"
  obtain k1 where L1: "lpLength m1 = Some (lp_hdr (7 + length b1) k1 @ b1 @ 0xFF # s1, length es1)"
    unfolding b by (rule lp_rep_length[OF R(1)])
  obtain k2 where L2: "lpLength m2 = Some (lp_hdr (7 + length b2) k2 @ b2 @ 0xFF # s2, length es2)"
    unfolding b by (rule lp_rep_length[OF R(2)])
  define h1 h2 where h: "h1 = lp_hdr (7 + length b1) k1" "h2 = lp_hdr (7 + length b2) k2"
  define T where T: "T = 7 + length b1 + length b2"
  define n where n: "n = (if length es1 + length es2 < 65535 then length es1 + length es2 else 65535)"
  have lh: "length h1 = 6" "length h2 = 6" by (simp_all add: h)
  have fT: "7 + length (lp_body fs) = T" and bf: "lp_body fs = b1 @ b2" using fs b by (simp_all add: T)
  have tot: "lpBytes m1 = Some (7 + length b1)" "lpBytes m2 = Some (7 + length b2)"
    using lp_rep_total R b by (simp_all add: lpBytes_def)
  have unf: "lpMerge A (Some m1) (Some m2) False = do {
      c_assert (T < 4294967295);
      target \<leftarrow> (if length b2 \<le> length b1 then do {
           bs \<leftarrow> mem_get (h2 @ b2 @ 0xFF # s2) 6 (Suc (length b2));
           mem_put (lp_realloc A (h1 @ b1 @ 0xFF # s1) T) (6 + length b1) bs }
         else do {
           target \<leftarrow> mem_move (lp_realloc A (h2 @ b2 @ 0xFF # s2) T) (6 + length b1) 6 (Suc (length b2));
           bs \<leftarrow> mem_get (h1 @ b1 @ 0xFF # s1) 0 (6 + length b1);
           mem_put target 0 bs });
      target \<leftarrow> lpSetNumElements target n;
      target \<leftarrow> lpSetTotalBytes target T;
      Some (Some (if length b2 \<le> length b1 then (Some target, None) else (None, Some target))) }"
    unfolding lpMerge_def using tot L1[folded h] L2[folded h]
    by (cases "length b2 \<le> length b1") (simp_all add: T n Let_def add.assoc split del: if_split)
  show "lpMerge A (Some m1) (Some m2) False = None" if "\<not> 7 + length (lp_body fs) < 4294967295"
    using that unfolding unf fT by (simp add: c_assert_def)
  assume lt: "7 + length (lp_body fs) < 4294967295"
  then have ltT: "T < 4294967295" using fT by simp
  have put: "\<exists>m. lp_rep m fs \<and> lpSetNumElements (h1 @ b1 @ b2 @ 0xFF # s) n = Some (lp_hdr (7 + length b1) n @ b1 @ b2 @ 0xFF # s) \<and>
      lpSetTotalBytes (lp_hdr (7 + length b1) n @ b1 @ b2 @ 0xFF # s) T = Some m" for s
  proof -
    have "list_all ele_ok fs" "n = 65535 \<or> n = length fs \<and> n < 65535"
      using R by (auto simp: fs lp_rep_at_def n)
    then have "lp_rep (lp_hdr T n @ lp_body fs @ 0xFF # s) fs" using lt fT by (intro lp_repI) auto
    then show ?thesis by (simp only: h hdr_set_num hdr_set_total bf append_assoc) blast
  qed
  show "\<exists>m. lp_rep m fs \<and> lpMerge A (Some m1) (Some m2) False =
      Some (Some (if length (lp_body es1) \<ge> length (lp_body es2) then (Some m, None) else (None, Some m)))"
  proof (cases "length b2 \<le> length b1")
    case True
    obtain s where "mem_get (h2 @ b2 @ 0xFF # s2) 6 (Suc (length b2)) = Some (b2 @ [0xFF])"
      "mem_put (lp_realloc A (h1 @ b1 @ 0xFF # s1) T) (6 + length b1) (b2 @ [0xFF]) = Some (h1 @ b1 @ b2 @ 0xFF # s)"
      using merge_append[OF A lh T] by blast
    moreover obtain m' where "lp_rep m' fs"
      "lpSetNumElements (h1 @ b1 @ b2 @ 0xFF # s) n = Some (lp_hdr (7 + length b1) n @ b1 @ b2 @ 0xFF # s)"
      "lpSetTotalBytes (lp_hdr (7 + length b1) n @ b1 @ b2 @ 0xFF # s) T = Some m'" using put by blast
    ultimately show ?thesis unfolding unf b[symmetric] using True ltT by (intro exI[of _ m']) simp
  next
    case False
    obtain m s where "mem_move (lp_realloc A (h2 @ b2 @ 0xFF # s2) T) (6 + length b1) 6 (Suc (length b2)) = Some m"
      "mem_get (h1 @ b1 @ 0xFF # s1) 0 (6 + length b1) = Some (h1 @ b1)"
      "mem_put m 0 (h1 @ b1) = Some (h1 @ b1 @ b2 @ 0xFF # s)"
      using merge_prepend[OF A lh T] by blast
    moreover obtain m' where "lp_rep m' fs"
      "lpSetNumElements (h1 @ b1 @ b2 @ 0xFF # s) n = Some (lp_hdr (7 + length b1) n @ b1 @ b2 @ 0xFF # s)"
      "lpSetTotalBytes (lp_hdr (7 + length b1) n @ b1 @ b2 @ 0xFF # s) T = Some m'" using put by blast
    ultimately show ?thesis unfolding unf b[symmetric] using False ltT by (intro exI[of _ m']) simp
  qed
qed

section \<open>Deleting a range\<close>

lemma shrink_prefix:
  assumes "alloc_ok A" "t = 7 + length b" "t < 2 ^ 32"
  obtains slack' where "lpShrinkToFit A (lp_hdr t n @ b @ 0xFF # slack) = Some (lp_hdr t n @ b @ 0xFF # slack')"
proof -
  have "length (lp_hdr t n @ b @ [0xFF]) \<le> t" using assms(2) by simp
  from realloc_prefix[OF assms(1) this, of slack] obtain s' where
    "lp_realloc A (lp_hdr t n @ b @ 0xFF # slack) t = lp_hdr t n @ b @ 0xFF # s'"
    by (metis append.assoc append_Cons append_Nil)
  then show ?thesis using that[of s'] that[of slack] hdr_total[OF assms(3)]
    by (cases "t < length (lp_hdr t n @ b @ 0xFF # slack)") (simp_all add: lpShrinkToFit_def)
qed

lemma range_tail:
  assumes "lp_rep_at m n slack es" "i < length es"
  shows "lp_range_tail m (7 + length (lp_body es)) num (lp_pos es i) d =
    Some (lp_pos es (min (i + num) (length es)), d + min num (length es - i))"
  using assms(2)
proof (induction num arbitrary: i d)
  case (Suc num)
  note skip = lp_rep_get(2)[OF assms(1) Suc.prems]
  show ?case
  proof (cases "Suc i < length es")
    case True
    obtain b where b: "mem_byte m (lp_pos es (Suc i)) = Some b" "b \<noteq> 0xFF"
      using lp_rep_get(3)[OF assms(1) True] by blast
    have "lp_range_tail m (7 + length (lp_body es)) (Suc num) (lp_pos es i) d =
        lp_range_tail m (7 + length (lp_body es)) num (lp_pos es (Suc i)) (d + 1)"
      using skip b lp_rep_assert[OF assms(1), of "Suc i"] True by simp
    moreover have "min (Suc i + num) (length es) = min (i + Suc num) (length es)"
      "d + 1 + min num (length es - Suc i) = d + min (Suc num) (length es - i)" using True by auto
    ultimately show ?thesis using Suc.IH[OF True, of "d + 1"] by (simp only:)
  next
    case False
    then have e: "length es = Suc i" using Suc.prems by simp
    then have "lp_pos es (Suc i) = 6 + length (lp_body es)" by (simp add: lp_pos_end)
    then show ?thesis using skip lp_rep_eof[OF assms(1)] e by (simp add: min_def)
  qed
qed simp

lemma lpDeleteRangeWithEntry_rep:
  assumes A: "alloc_ok A" and rep: "lp_rep_at m n slack es" and i: "i < length es" and num: "0 < num"
    and fs: "fs = take i es @ drop (i + num) es"
  shows "\<exists>m'. lpDeleteRangeWithEntry A m (lp_pos es i) num =
      Some (m', if i + num < length es then Some (lp_pos es i) else None) \<and> lp_rep m' fs"
proof -
  define P R Q where p: "P = lp_body (take i es)" "R = lp_body (take num (drop i es))" "Q = lp_body (drop (i + num) es)"
  have es: "lp_body es = P @ R @ Q"
    unfolding p lp_body_simps(3)[symmetric] by (metis append_take_drop_id drop_drop add.commute)
  have bf: "lp_body fs = P @ Q" by (simp add: fs p)
  define t where t: "t = 7 + length (lp_body es)"
  define k where k: "k = min num (length es - i)"
  have m: "m = lp_hdr t n @ P @ R @ Q @ 0xFF # slack" and t32: "t < 2 ^ 32" and ok: "list_all ele_ok es"
    and n: "n = 65535 \<or> n = length es \<and> n < 65535" using rep by (auto simp: lp_rep_at_def es t)
  have pos: "lp_pos es i = 6 + length P" by (simp add: lp_pos_def p)
  have "take (min (i + num) (length es)) es = take i es @ take num (drop i es)"
    by (simp add: take_add min_def)
  then have tail: "lp_pos es (min (i + num) (length es)) = 6 + length P + length R"
    by (simp only: lp_pos_def p lp_body_simps(3) length_append add.assoc)
  have rt: "lp_range_tail m t num (6 + length P) 0 = Some (6 + length P + length R, k)"
    using range_tail[OF rep i, of num 0] unfolding tail pos t k by simp
  have tot: "lpBytes m = Some t" using lp_rep_total[OF rep] by (simp add: lpBytes_def t)
  have tt: "t = 7 + length P + length R + length Q" by (simp add: t es)
  obtain X s2 where mv: "mem_move ((lp_hdr t n @ P) @ R @ (Q @ [0xFF]) @ slack) (length (lp_hdr t n @ P) + 0)
      (length (lp_hdr t n @ P) + length R) (length (Q @ [0xFF])) = Some (((lp_hdr t n @ P) @ X @ Q @ [0xFF]) @ s2)" "length X = 0"
    using move_room[of 0 "Q @ [0xFF]" R slack "lp_hdr t n @ P"] by auto
  have mv': "mem_move m (6 + length P) (6 + length P + length R) (t - (6 + length P + length R)) =
      Some (lp_hdr t n @ P @ Q @ 0xFF # s2)" using mv m tt by simp
  define t' where t': "t' = 7 + length (P @ Q)"
  define n' where n': "n' = (if n = 65535 then n else n - k)"
  have kn: "nat ((int n - int k) mod 18446744073709551616) = n - k" if "n \<noteq> 65535"
    using that n k i by (simp add: nat_diff_distrib mod_pos_pos_trivial min_def)
  obtain s3 where sh: "lpShrinkToFit A (lp_hdr t' n' @ (P @ Q) @ 0xFF # s2) = Some (lp_hdr t' n' @ (P @ Q) @ 0xFF # s3)"
    using shrink_prefix[OF A t'] t' tt t32 by auto
  have byte: "mem_byte (lp_hdr t' n' @ (P @ Q) @ 0xFF # s3) (6 + length P) = Some (hd (Q @ [0xFF]))"
    using mem_read_append0[of "lp_hdr t' n' @ P" "Q @ 0xFF # s3"] by (cases Q) (simp_all add: mem_byte_Cons)
  have Q: "hd (Q @ [0xFF]) = 0xFF \<longleftrightarrow> \<not> i + num < length es"
  proof (cases "i + num < length es")
    case True
    have "list_all ele_ok (drop (i + num) es)" using ok by (auto simp: list_all_iff dest: in_set_dropD)
    then show ?thesis using body_hd[of "drop (i + num) es"] True by (simp add: p)
  qed (simp add: p)
  have "lpDeleteRangeWithEntry A m (lp_pos es i) num =
      Some (lp_hdr t' n' @ (P @ Q) @ 0xFF # s3, if i + num < length es then Some (lp_pos es i) else None)"
    using num tot rt mv' sh byte Q kn n tt unfolding lpDeleteRangeWithEntry_def pos
    by (auto simp: hdr_set_total hdr_set_num hdr_num t' n')
  moreover have "lp_rep (lp_hdr t' n' @ (P @ Q) @ 0xFF # s3) fs"
    unfolding bf[symmetric]
  proof (rule lp_repI)
    show "7 + length (lp_body fs) < 2 ^ 32" using t32 tt unfolding bf by simp
    show "list_all ele_ok fs" using ok by (auto simp: fs list_all_iff dest: in_set_takeD in_set_dropD)
    show "n' = 65535 \<or> n' = length fs \<and> n' < 65535" using n k i by (auto simp: n' fs)
    show "t' = 7 + length (lp_body fs)" unfolding bf t' ..
  qed
  ultimately show ?thesis by blast
qed

lemma lp_truncate:
  assumes A: "alloc_ok A" and rep: "lp_rep_at m n slack es" and i: "i < length es" and n: "n \<noteq> 65535"
  shows "\<exists>m'. (do {
      m \<leftarrow> mem_put m (lp_pos es i) [0xFF];
      m \<leftarrow> lpSetTotalBytes m (lp_pos es i + 1);
      m \<leftarrow> lpSetNumElements m i;
      lpShrinkToFit A m }) = Some m' \<and> lp_rep m' (take i es)"
proof -
  define P where p: "P = lp_body (take i es)"
  define t where t: "t = 7 + length (lp_body es)"
  have m: "m = (lp_hdr t n @ P) @ (enc_entry (es ! i) @ lp_body (drop (Suc i) es) @ 0xFF # slack)"
    using lp_rep_split(1)[OF rep i] by (simp add: p t)
  have ok: "list_all ele_ok es" and ni: "i < 65535" and t32: "t < 2 ^ 32"
    using rep i n by (auto simp: lp_rep_at_def t)
  have pos: "lp_pos es i = 6 + length P" by (simp add: lp_pos_def p)
  obtain r where put: "mem_put m (6 + length P) [0xFF] = Some (lp_hdr t n @ P @ 0xFF # r)"
    unfolding m by (rule mem_put_room[of "[0xFF]" "enc_entry (es ! i) @ lp_body (drop (Suc i) es) @ 0xFF # slack" "lp_hdr t n @ P"]) auto
  have "lp_pos es i < t" using lp_rep_entry[OF rep i] lp_pos_Suc[OF i] unfolding t by (metis add_lessD1)
  then have T: "7 + length P < 2 ^ 32" using t32 pos by simp
  obtain s where "lpShrinkToFit A (lp_hdr (7 + length P) i @ P @ 0xFF # r) = Some (lp_hdr (7 + length P) i @ P @ 0xFF # s)"
    using shrink_prefix[OF A refl T] by blast
  moreover have "lp_rep (lp_hdr (7 + length P) i @ P @ 0xFF # s) (take i es)"
    unfolding p using T ni i ok by (intro lp_repI) (auto simp: p list_all_iff dest: in_set_takeD)
  ultimately show ?thesis using put by (simp add: pos hdr_set_total hdr_set_num)
qed

lemma lpDeleteRange_rep:
  assumes A: "alloc_ok A" and rep: "lp_rep m es"
    and i: "i = (if index < 0 then int (length es) + index else index)"
  shows "\<exists>m'. lpDeleteRange A m index num = Some m' \<and>
    lp_rep m' (if 0 \<le> i \<and> i < int (length es) then take (nat i) es @ drop (nat i + num) es else es)"
proof (cases "num = 0 \<or> \<not> (0 \<le> i \<and> i < int (length es))")
  case True
  obtain n slack where R: "lp_rep_at m n slack es" using rep by (auto simp: lp_rep_def)
  show ?thesis using True rep lp_rep_num[OF R] lp_rep_seek[OF R, of index] i
    by (auto simp: lpDeleteRange_def Let_def)
next
  case False
  obtain n slack where R: "lp_rep_at m n slack es" using rep by (auto simp: lp_rep_def)
  have n: "n = 65535 \<or> n = length es \<and> n < 65535" using R by (auto simp: lp_rep_at_def)
  define j where j: "j = nat i"
  have jl: "j < length es" "i = int j" using False j by auto
  have seek: "lpSeek m index = Some (Some (lp_pos es j))"
    using False lp_rep_seek[OF R, of index] i j by (simp add: Let_def)
  have unf: "lpDeleteRange A m index num =
      (if n \<noteq> 65535 \<and> (int n - int j) mod 2 ^ 64 \<le> int num then do {
         m \<leftarrow> mem_put m (lp_pos es j) [0xFF];
         m \<leftarrow> lpSetTotalBytes m (lp_pos es j + 1);
         m \<leftarrow> lpSetNumElements m (nat (int j mod 2 ^ 64));
         lpShrinkToFit A m }
       else do { (m, _) \<leftarrow> lpDeleteRangeWithEntry A m (lp_pos es j) num; Some m })"
  proof (cases "n = 65535")
    case True
    then show ?thesis using False by (simp only: lpDeleteRange_def lp_rep_num[OF R] seek bind.bind_lunit Let_def) simp
  next
    case n2: False
    then have "(if n \<noteq> 65535 \<and> index < 0 then int n + index else index) = int j" using n i jl by auto
    then show ?thesis using False
      by (simp only: lpDeleteRange_def lp_rep_num[OF R] seek bind.bind_lunit Let_def option.case) simp
  qed
  have goal: "(if 0 \<le> i \<and> i < int (length es) then take (nat i) es @ drop (nat i + num) es else es) =
      take j es @ drop (j + num) es" using jl by simp
  show ?thesis
  proof (cases "n \<noteq> 65535 \<and> (int n - int j) mod 2 ^ 64 \<le> int num")
    case True
    have nl: "n = length es" "n < 65535" using True n by auto
    then have "(int n - int j) mod 2 ^ 64 = int n - int j" using jl by (intro mod_pos_pos_trivial) auto
    then have d: "drop (j + num) es = []" using True nl jl by auto
    have "nat (int j mod 2 ^ 64) = j" using nl jl by (simp add: mod_pos_pos_trivial)
    then show ?thesis using lp_truncate[OF A R jl(1)] True unfolding unf goal d by (simp only: append_Nil2 if_True simp_thms)
  next
    case F2: False
    obtain m' q where "lpDeleteRangeWithEntry A m (lp_pos es j) num = Some (m', q)"
      "lp_rep m' (take j es @ drop (j + num) es)"
      using lpDeleteRangeWithEntry_rep[OF A R jl(1) _ refl, of num] False by auto
    then show ?thesis using F2 unfolding unf goal by (simp only: if_False bind.bind_lunit split_conv option.inject) blast
  qed
qed

end
