(* ===== verification/Sequence_Store.thy ===== *)
theory Sequence_Store
  imports Redis_Prelude
begin

text \<open>
  The interface of a sequence of elements kept in one block of bounded size, as the small encodings
  of lists and hashes use it through \<open>listpack.c\<close>: elements are added at both ends and
  before, in place of or at an index that counts from either end, and an operation that would make the
  block too large is refused. The locale \<open>sequence_store\<close> states the laws of the operations
  over the list a block represents; in it any sequence of commands is shown to run like the same
  sequence on the list, up to the first refusal.
\<close>

section \<open>Commands on a list\<close>

datatype 'e seq_op =
  QAppend 'e | QPrepend 'e | QInsert int 'e | QReplace int 'e | QDelete int | QDeleteRange int nat

text \<open>The position an index stands for: a negative one counts from the end.\<close>

definition seq_index :: "nat \<Rightarrow> int \<Rightarrow> nat option" where
  "seq_index n index =
     (let i = (if index < 0 then int n + index else index)
      in if 0 \<le> i \<and> i < int n then Some (nat i) else None)"

definition seq_apply :: "'e list \<Rightarrow> 'e seq_op \<Rightarrow> 'e list" where
  "seq_apply xs c =
     (case c of
        QAppend x \<Rightarrow> xs @ [x]
      | QPrepend x \<Rightarrow> x # xs
      | QInsert i x \<Rightarrow> (case seq_index (length xs) i of None \<Rightarrow> xs | Some j \<Rightarrow> take j xs @ x # drop j xs)
      | QReplace i x \<Rightarrow> (case seq_index (length xs) i of None \<Rightarrow> xs | Some j \<Rightarrow> xs[j := x])
      | QDelete i \<Rightarrow> (case seq_index (length xs) i of None \<Rightarrow> xs | Some j \<Rightarrow> take j xs @ drop (Suc j) xs)
      | QDeleteRange i n \<Rightarrow>
          (case seq_index (length xs) i of None \<Rightarrow> xs | Some j \<Rightarrow> take j xs @ drop (j + n) xs))"

fun seq_elem_ok :: "('e \<Rightarrow> bool) \<Rightarrow> 'e seq_op \<Rightarrow> bool" where
  "seq_elem_ok valid (QAppend x) = valid x"
| "seq_elem_ok valid (QPrepend x) = valid x"
| "seq_elem_ok valid (QInsert i x) = valid x"
| "seq_elem_ok valid (QReplace i x) = valid x"
| "seq_elem_ok valid (QDelete i) = True"
| "seq_elem_ok valid (QDeleteRange i n) = True"

text \<open>
  The specification of a run: \<open>None\<close> when some command makes the list too large. A store runs
  the commands with \<open>step\<close>, whose result \<open>Some None\<close> is a refusal.
\<close>

fun seq_spec_run :: "('e list \<Rightarrow> bool) \<Rightarrow> 'e list \<Rightarrow> 'e seq_op list \<Rightarrow> 'e list option" where
  "seq_spec_run fits xs [] = Some xs"
| "seq_spec_run fits xs (c # cs) =
     (if fits (seq_apply xs c) then seq_spec_run fits (seq_apply xs c) cs else None)"

fun seq_run :: "('m \<Rightarrow> 'e seq_op \<Rightarrow> 'm option option) \<Rightarrow> 'm \<Rightarrow> 'e seq_op list \<Rightarrow> 'm option option" where
  "seq_run step m [] = Some (Some m)"
| "seq_run step m (c # cs) = do {
     r \<leftarrow> step m c;
     (case r of None \<Rightarrow> Some None | Some m' \<Rightarrow> seq_run step m' cs)
   }"

definition seq_step ::
  "('m \<Rightarrow> 'e \<Rightarrow> 'm option option) \<Rightarrow> ('m \<Rightarrow> 'e \<Rightarrow> 'm option option) \<Rightarrow>
   ('m \<Rightarrow> int \<Rightarrow> 'e \<Rightarrow> 'm option option) \<Rightarrow> ('m \<Rightarrow> int \<Rightarrow> 'e \<Rightarrow> 'm option option) \<Rightarrow>
   ('m \<Rightarrow> int \<Rightarrow> 'm option option) \<Rightarrow> ('m \<Rightarrow> int \<Rightarrow> nat \<Rightarrow> 'm option option) \<Rightarrow>
   'm \<Rightarrow> 'e seq_op \<Rightarrow> 'm option option" where
  "seq_step app prep ins repl del delr m c =
     (case c of
        QAppend x \<Rightarrow> app m x
      | QPrepend x \<Rightarrow> prep m x
      | QInsert i x \<Rightarrow> ins m i x
      | QReplace i x \<Rightarrow> repl m i x
      | QDelete i \<Rightarrow> del m i
      | QDeleteRange i n \<Rightarrow> delr m i n)"

text \<open>What an operation returns when the list should become \<open>xs\<close>.\<close>

definition seq_outcome :: "('m \<Rightarrow> 'e list \<Rightarrow> bool) \<Rightarrow> ('e list \<Rightarrow> bool) \<Rightarrow> 'm option option \<Rightarrow> 'e list \<Rightarrow> bool" where
  "seq_outcome rep fits r xs \<longleftrightarrow>
     (if fits xs then \<exists>m'. r = Some (Some m') \<and> rep m' xs else r = Some None)"

section \<open>The interface\<close>

locale sequence_store =
  fixes rep :: "'m \<Rightarrow> 'e list \<Rightarrow> bool"
    and fits :: "'e list \<Rightarrow> bool"
    and valid :: "'e \<Rightarrow> bool"
    and app :: "'m \<Rightarrow> 'e \<Rightarrow> 'm option option"
    and prep :: "'m \<Rightarrow> 'e \<Rightarrow> 'm option option"
    and ins :: "'m \<Rightarrow> int \<Rightarrow> 'e \<Rightarrow> 'm option option"
    and repl :: "'m \<Rightarrow> int \<Rightarrow> 'e \<Rightarrow> 'm option option"
    and del :: "'m \<Rightarrow> int \<Rightarrow> 'm option option"
    and delr :: "'m \<Rightarrow> int \<Rightarrow> nat \<Rightarrow> 'm option option"
  assumes app_law: "rep m xs \<Longrightarrow> valid x \<Longrightarrow> seq_outcome rep fits (app m x) (seq_apply xs (QAppend x))"
    and prep_law: "rep m xs \<Longrightarrow> valid x \<Longrightarrow> seq_outcome rep fits (prep m x) (seq_apply xs (QPrepend x))"
    and ins_law: "rep m xs \<Longrightarrow> valid x \<Longrightarrow> seq_outcome rep fits (ins m i x) (seq_apply xs (QInsert i x))"
    and repl_law: "rep m xs \<Longrightarrow> valid x \<Longrightarrow> seq_outcome rep fits (repl m i x) (seq_apply xs (QReplace i x))"
    and del_law: "rep m xs \<Longrightarrow> seq_outcome rep fits (del m i) (seq_apply xs (QDelete i))"
    and delr_law: "rep m xs \<Longrightarrow> seq_outcome rep fits (delr m i n) (seq_apply xs (QDeleteRange i n))"
begin

lemma seq_step_refines:
  "rep m xs \<Longrightarrow> seq_elem_ok valid c \<Longrightarrow>
    seq_outcome rep fits (seq_step app prep ins repl del delr m c) (seq_apply xs c)"
  by (cases c) (simp_all add: seq_step_def app_law prep_law ins_law repl_law del_law delr_law)

lemma seq_run_refines:
  "rep m xs \<Longrightarrow> list_all (seq_elem_ok valid) cs \<Longrightarrow>
    (case seq_spec_run fits xs cs of
       None \<Rightarrow> seq_run (seq_step app prep ins repl del delr) m cs = Some None
     | Some ys \<Rightarrow> \<exists>m'. seq_run (seq_step app prep ins repl del delr) m cs = Some (Some m') \<and> rep m' ys)"
proof (induction cs arbitrary: m xs)
  case (Cons c cs)
  have step: "seq_outcome rep fits (seq_step app prep ins repl del delr m c) (seq_apply xs c)"
    using seq_step_refines Cons.prems by simp
  show ?case
  proof (cases "fits (seq_apply xs c)")
    case True
    then obtain m1 where "seq_step app prep ins repl del delr m c = Some (Some m1)" "rep m1 (seq_apply xs c)"
      using step by (auto simp: seq_outcome_def)
    then show ?thesis using Cons.IH[of m1 "seq_apply xs c"] Cons.prems True by (simp split: option.splits)
  next
    case False
    then show ?thesis using step by (simp add: seq_outcome_def)
  qed
qed simp

end

end
