(* ===== verification/Listpack_Seq.thy ===== *)
theory Listpack_Seq
  imports Listpack_Ops Sequence_Store
begin

text \<open>
  Listpacks as their callers see them: a sequence of strings, where a string that is the canonical
  decimal of a 64 bit integer is stored as that integer. The interface of \<open>Sequence_Store\<close> is
  interpreted with the operations of \<open>listpack.c\<close>, the blocks the operations can produce
  are shown to be well-formed and to pass the integrity check, and the properties of the listpack
  are stated.
\<close>

section \<open>Listpacks as sequences of strings\<close>

definition lp_strings :: "bytes \<Rightarrow> bytes list \<Rightarrow> bool" where
  "lp_strings m ss \<longleftrightarrow> lp_rep m (map to_ele ss)"

definition strings_fit :: "bytes list \<Rightarrow> bool" where
  "strings_fit ss \<longleftrightarrow> lp_fits (map to_ele ss)"

definition string_ok :: "bytes \<Rightarrow> bool" where
  "string_ok s \<longleftrightarrow> length s + 5 < 2 ^ 32"

text \<open>The commands, as the callers of listpacks issue them: a failed seek changes nothing.\<close>

definition block_of :: "(bytes \<times> nat option) option option \<Rightarrow> bytes option option" where
  "block_of r = map_option (map_option fst) r"

definition at_index :: "bytes \<Rightarrow> int \<Rightarrow> (nat \<Rightarrow> (bytes \<times> nat option) option option) \<Rightarrow> bytes option option" where
  "at_index m index f = do {
     p \<leftarrow> lpSeek m index;
     (case p of None \<Rightarrow> Some (Some m) | Some p \<Rightarrow> block_of (f p))
   }"

definition lp_app where "lp_app A m s = block_of (lpAppend A m s)"
definition lp_prep where "lp_prep A m s = block_of (lpPrepend A m s)"
definition lp_ins where "lp_ins A m index s = at_index m index (\<lambda>p. lpInsertString A m s p LP_BEFORE False)"
definition lp_repl where "lp_repl A m index s = at_index m index (\<lambda>p. lpReplace A m p s)"
definition lp_del where "lp_del A m index = at_index m index (\<lambda>p. lpDelete A m p False)"
definition lp_delr where "lp_delr A m index num = map_option Some (lpDeleteRange A m index num)"

lemma lp_rep_fits: "lp_rep m es \<Longrightarrow> lp_fits es"
  by (auto simp: lp_rep_def lp_rep_at_def lp_fits_def)

lemma seek_rep:
  "lp_rep m es \<Longrightarrow> lpSeek m index = Some (map_option (lp_pos es) (seq_index (length es) index))"
  by (auto simp: lp_rep_def seq_index_def Let_def lp_rep_seek)

lemma seq_index_less: "seq_index n index = Some j \<Longrightarrow> j < n"
  by (auto simp: seq_index_def Let_def split: if_splits)

lemma insert_outcome:
  assumes "alloc_ok A" "ins_arg elestr eleint x" "lp_strings m ss"
    "i < length ss \<or> i = length ss \<and> where = LP_BEFORE \<and> x \<noteq> None"
    "lp_edit where i x (map to_ele ss) = map to_ele ts"
  shows "seq_outcome lp_strings strings_fit (block_of (lpInsert A m elestr eleint (lp_pos (map to_ele ss) i) where np)) ts"
  using lpInsert_rep[OF assms(1,2) assms(3)[unfolded lp_strings_def], of i "where" np] assms(4)
  unfolding seq_outcome_def strings_fit_def lp_strings_def assms(5) block_of_def
  by (cases "lp_fits (map to_ele ts)") auto

lemma ins_arg_string: "string_ok s \<Longrightarrow> ins_arg (Some s) None (Some (to_ele s))"
  by (simp add: ins_arg_def string_ok_def)

lemma at_index_outcome:
  assumes "lp_strings m ss"
    and "\<And>j. j < length ss \<Longrightarrow> seq_outcome lp_strings strings_fit (block_of (f (lp_pos (map to_ele ss) j))) (g j)"
  shows "seq_outcome lp_strings strings_fit (at_index m index f)
    (case seq_index (length ss) index of None \<Rightarrow> ss | Some j \<Rightarrow> g j)"
proof (cases "seq_index (length ss) index")
  case None
  then show ?thesis
    using seek_rep[OF assms(1)[unfolded lp_strings_def], of index] lp_rep_fits[OF assms(1)[unfolded lp_strings_def]] assms(1)
    by (simp add: at_index_def seq_outcome_def strings_fit_def)
next
  case (Some j)
  then show ?thesis
    using seek_rep[OF assms(1)[unfolded lp_strings_def], of index] assms(2)[OF seq_index_less[OF Some]]
    by (simp add: at_index_def)
qed

lemma append_outcome:
  assumes A: "alloc_ok A" and m: "lp_strings m ss" and s: "string_ok s"
  shows "seq_outcome lp_strings strings_fit (lp_app A m s) (ss @ [s])"
proof -
  obtain n slack where R: "lp_rep_at m n slack (map to_ele ss)" using m by (auto simp: lp_strings_def lp_rep_def)
  have "lpAppend A m s = lpInsert A m (Some s) None (lp_pos (map to_ele ss) (length ss)) LP_BEFORE False"
    using lp_rep_total[OF R] by (simp add: lpAppend_def lp_pos_end)
  then show ?thesis unfolding lp_app_def
    using insert_outcome[OF A ins_arg_string[OF s] m, of "length ss" LP_BEFORE "ss @ [s]" False]
    by (simp add: lp_edit_def)
qed

lemma prepend_outcome:
  assumes A: "alloc_ok A" and m: "lp_strings m ss" and s: "string_ok s"
  shows "seq_outcome lp_strings strings_fit (lp_prep A m s) (s # ss)"
proof -
  obtain n slack where R: "lp_rep_at m n slack (map to_ele ss)" using m by (auto simp: lp_strings_def lp_rep_def)
  show ?thesis
  proof (cases "ss = []")
    case True
    then have "lpPrepend A m s = lpAppend A m s" using lp_rep_first[OF R] by (simp add: lpPrepend_def)
    then show ?thesis using append_outcome[OF assms] True by (simp add: lp_app_def lp_prep_def)
  next
    case False
    then have "lpPrepend A m s = lpInsert A m (Some s) None (lp_pos (map to_ele ss) 0) LP_BEFORE False"
      using lp_rep_first[OF R] by (simp add: lpPrepend_def)
    then show ?thesis unfolding lp_prep_def
      using insert_outcome[OF A ins_arg_string[OF s] m, of 0 LP_BEFORE "s # ss" False] False
      by (simp add: lp_edit_def)
  qed
qed

lemma delr_outcome:
  assumes A: "alloc_ok A" and m: "lp_strings m ss"
  shows "seq_outcome lp_strings strings_fit (lp_delr A m index num)
    (case seq_index (length ss) index of None \<Rightarrow> ss | Some j \<Rightarrow> take j ss @ drop (j + num) ss)"
proof -
  let ?ts = "case seq_index (length ss) index of None \<Rightarrow> ss | Some j \<Rightarrow> take j ss @ drop (j + num) ss"
  have "\<exists>m'. lpDeleteRange A m index num = Some m' \<and> lp_rep m' (map to_ele ?ts)"
    using lpDeleteRange_rep[OF A m[unfolded lp_strings_def] refl, of index num]
    by (auto simp: seq_index_def Let_def take_map drop_map split: if_splits)
  then show ?thesis using lp_rep_fits
    by (auto simp: lp_delr_def seq_outcome_def strings_fit_def lp_strings_def)
qed

lemma replace_outcome:
  assumes A: "alloc_ok A" and m: "lp_strings m ss" and s: "string_ok s" and j: "j < length ss"
  shows "seq_outcome lp_strings strings_fit (block_of (lpReplace A m (lp_pos (map to_ele ss) j) s)) (ss[j := s])"
  unfolding lpReplace_def using j
  by (intro insert_outcome[OF A ins_arg_string[OF s] m])
    (simp_all add: lp_edit_def upd_conv_take_nth_drop take_map drop_map)

lemma delete_outcome:
  assumes A: "alloc_ok A" and m: "lp_strings m ss" and j: "j < length ss"
  shows "seq_outcome lp_strings strings_fit (block_of (lpDelete A m (lp_pos (map to_ele ss) j) np)) (take j ss @ drop (Suc j) ss)"
  unfolding lpDelete_def using j
  by (intro insert_outcome[OF A _ m, where x = None]) (simp_all add: lp_edit_def ins_arg_def take_map drop_map)

lemma insert_at_outcome:
  assumes A: "alloc_ok A" and m: "lp_strings m ss" and s: "string_ok s" and j: "j < length ss"
  shows "seq_outcome lp_strings strings_fit
    (block_of (lpInsertString A m s (lp_pos (map to_ele ss) j) LP_BEFORE np)) (take j ss @ s # drop j ss)"
  unfolding lpInsertString_def using j
  by (intro insert_outcome[OF A ins_arg_string[OF s] m]) (simp_all add: lp_edit_def take_map drop_map)

definition any_alloc :: "(nat \<Rightarrow> byte) \<times> (nat \<Rightarrow> nat) \<Rightarrow> lp_allocator" where
  "any_alloc a = \<lparr>junk = fst a, usable = \<lambda>n. n + snd a n\<rparr>"

lemma any_alloc_ok: "alloc_ok (any_alloc a)"
  by (simp add: alloc_ok_def any_alloc_def)

interpretation lp_seq: sequence_store lp_strings strings_fit string_ok
  "lp_app (any_alloc a)" "lp_prep (any_alloc a)" "lp_ins (any_alloc a)" "lp_repl (any_alloc a)"
  "lp_del (any_alloc a)" "lp_delr (any_alloc a)" for a
proof (unfold_locales, goal_cases)
  case 1
  then show ?case using append_outcome[OF any_alloc_ok] by (simp add: seq_apply_def)
next
  case 2
  then show ?case using prepend_outcome[OF any_alloc_ok] by (simp add: seq_apply_def)
next
  case (3 m xs x i)
  show ?case unfolding seq_apply_def lp_ins_def seq_op.case
    by (rule at_index_outcome[OF 3(1)]) (rule insert_at_outcome[OF any_alloc_ok 3])
next
  case (4 m xs x i)
  show ?case unfolding seq_apply_def lp_repl_def seq_op.case
    by (rule at_index_outcome[OF 4(1)]) (rule replace_outcome[OF any_alloc_ok 4])
next
  case (5 m xs i)
  show ?case unfolding seq_apply_def lp_del_def seq_op.case
    by (rule at_index_outcome[OF 5]) (rule delete_outcome[OF any_alloc_ok 5])
next
  case (6 m xs i n)
  then show ?case using delr_outcome[OF any_alloc_ok] by (simp add: seq_apply_def)
qed

lemma alloc_any:
  assumes "alloc_ok A"
  obtains a where "A = any_alloc a"
proof
  show "A = any_alloc (junk A, \<lambda>n. usable A n - n)"
    using assms by (cases A) (auto simp: any_alloc_def alloc_ok_def)
qed

section \<open>Validation and reachable blocks\<close>

lemma validate_loop_rep:
  assumes "lp_rep_at m n slack es" "i \<le> length es"
  shows "lp_validate_loop m (7 + length (lp_body es)) num None (Some (lp_pos es i)) i =
    Some (Some (Some (6 + length (lp_body es)), length es))"
  using assms(2)
proof (induction "length es - i" arbitrary: i)
  case 0
  then have "lp_pos es i = 6 + length (lp_body es)" "i = length es" by (simp_all add: lp_pos_end)
  then show ?case using lp_rep_eof[OF assms(1)] by simp
next
  case (Suc k)
  then have i: "i < length es" by simp
  obtain b where b: "mem_byte m (lp_pos es i) = Some b" "b \<noteq> 0xFF"
    using lp_rep_get(3)[OF assms(1) i] by blast
  have "(i + 1) mod 2 ^ 32 = Suc i" using i lp_rep_short[OF assms(1)] by simp
  then have "lp_validate_loop m (7 + length (lp_body es)) num None (Some (lp_pos es i)) i =
      lp_validate_loop m (7 + length (lp_body es)) num None (Some (lp_pos es (Suc i))) (Suc i)"
    using b lp_rep_valid[OF assms(1) i] by simp
  then show ?case using Suc.hyps(1)[of "Suc i"] Suc.hyps(2) i by simp
qed

lemma validate_rep:
  assumes "lp_rep m es" "lpBytes m = Some t"
  shows "lpValidateIntegrity m t deep None = Some True"
proof -
  obtain n slack where R: "lp_rep_at m n slack es" using assms(1) by (auto simp: lp_rep_def)
  have s: "t = 7 + length (lp_body es)" using assms(2) lp_rep_total[OF R] by (simp add: lpBytes_def)
  have n: "n = 65535 \<or> n = length es" using R by (auto simp: lp_rep_at_def)
  show ?thesis
    using lp_rep_total[OF R] lp_rep_eof[OF R] lp_rep_num[OF R] n validate_loop_rep[OF R, of 0 n]
    by (auto simp: lpValidateIntegrity_def s simp del: lp_validate_loop.simps)
qed

text \<open>
  The blocks a program can have: those made by \<open>lpNew\<close>, and those an operation returns when it is
  given blocks of this kind and a pointer found by \<open>lpSeek\<close>.
\<close>

inductive lp_reachable :: "lp_allocator \<Rightarrow> bytes \<Rightarrow> bool" for A where
  new: "lpNew A capacity = Some m \<Longrightarrow> lp_reachable A m"
| append_string: "lp_reachable A m \<Longrightarrow> string_ok s \<Longrightarrow> lpAppend A m s = Some (Some (m', q)) \<Longrightarrow> lp_reachable A m'"
| append_int: "lp_reachable A m \<Longrightarrow> in_sbits 64 v \<Longrightarrow> lpAppendInteger A m v = Some (Some (m', q)) \<Longrightarrow> lp_reachable A m'"
| insert_string: "lp_reachable A m \<Longrightarrow> lpSeek m index = Some (Some p) \<Longrightarrow> string_ok s \<Longrightarrow>
    lpInsertString A m s p where np = Some (Some (m', q)) \<Longrightarrow> lp_reachable A m'"
| insert_int: "lp_reachable A m \<Longrightarrow> lpSeek m index = Some (Some p) \<Longrightarrow> in_sbits 64 v \<Longrightarrow>
    lpInsertInteger A m v p where np = Some (Some (m', q)) \<Longrightarrow> lp_reachable A m'"
| delete: "lp_reachable A m \<Longrightarrow> lpSeek m index = Some (Some p) \<Longrightarrow>
    lpDelete A m p np = Some (Some (m', q)) \<Longrightarrow> lp_reachable A m'"
| delete_range: "lp_reachable A m \<Longrightarrow> lpDeleteRange A m index num = Some m' \<Longrightarrow> lp_reachable A m'"
| merge: "lp_reachable A m1 \<Longrightarrow> lp_reachable A m2 \<Longrightarrow>
    lpMerge A (Some m1) (Some m2) False = Some (Some (r1, r2)) \<Longrightarrow> r1 = Some m' \<or> r2 = Some m' \<Longrightarrow> lp_reachable A m'"
| len: "lp_reachable A m \<Longrightarrow> lpLength m = Some (m', k) \<Longrightarrow> lp_reachable A m'"
| shrink: "lp_reachable A m \<Longrightarrow> lpShrinkToFit A m = Some m' \<Longrightarrow> lp_reachable A m'"

lemma insert_keeps:
  assumes "alloc_ok A" "ins_arg elestr eleint x" "lp_rep m es"
    "i < length es \<or> i = length es \<and> where = LP_BEFORE \<and> x \<noteq> None"
    "lpInsert A m elestr eleint (lp_pos es i) where np = Some (Some (m', q))"
  shows "\<exists>es'. lp_rep m' es'"
  using lpInsert_rep[OF assms(1-4), of np] assms(5)
  by (cases "lp_fits (lp_edit where i x es)") auto

lemma insert_at_keeps:
  assumes "alloc_ok A" "ins_arg elestr eleint x" "lp_rep m es" "lpSeek m index = Some (Some p)"
    "lpInsert A m elestr eleint p where np = Some (Some (m', q))"
  shows "\<exists>es'. lp_rep m' es'"
proof -
  obtain i where i: "p = lp_pos es i" "i < length es"
    using seek_rep[OF assms(3), of index] assms(4) seq_index_less by (auto simp: map_option_case split: option.splits)
  then show ?thesis using insert_keeps[OF assms(1-3), of i "where" np m' q] assms(5) by simp
qed

lemma insert_end_keeps:
  assumes "alloc_ok A" "ins_arg elestr eleint (Some e)" "lp_rep m es" "lpGetTotalBytes m = Some t"
    "lpInsert A m elestr eleint (t - 1) LP_BEFORE np = Some (Some (m', q))"
  shows "\<exists>es'. lp_rep m' es'"
proof -
  obtain n slack where R: "lp_rep_at m n slack es" using assms(3) by (auto simp: lp_rep_def)
  have "t - 1 = lp_pos es (length es)" using lp_rep_total[OF R] assms(4) by (simp add: lp_pos_end)
  then show ?thesis using insert_keeps[OF assms(1-3), of "length es" LP_BEFORE np m' q] assms(5) by simp
qed

lemma ins_arg_int: "in_sbits 64 v \<Longrightarrow> ins_arg None (Some (lpEncodeIntegerGetType v)) (Some (LpInt v))"
  by (simp add: ins_arg_def)

lemma reachable_rep:
  assumes A: "alloc_ok A" and "lp_reachable A m"
  shows "\<exists>es. lp_rep m es"
  using assms(2)
proof induction
  case (new capacity m)
  then show ?case using lpNew_rep[OF A, of capacity] by auto
next
  case (append_string m s m' q)
  then show ?case using insert_end_keeps[OF A ins_arg_string]
    by (auto simp: lpAppend_def elim!: bind_SomeE)
next
  case (append_int m v m' q)
  then show ?case using insert_end_keeps[OF A ins_arg_int]
    by (auto simp: lpAppendInteger_def lpInsertInteger_def elim!: bind_SomeE)
next
  case (insert_string m index p s "where" np m' q)
  then show ?case using insert_at_keeps[OF A ins_arg_string] by (auto simp: lpInsertString_def)
next
  case (insert_int m index p v "where" np m' q)
  then show ?case using insert_at_keeps[OF A ins_arg_int] by (auto simp: lpInsertInteger_def)
next
  case (delete m index p np m' q)
  have "ins_arg None None None" by (simp add: ins_arg_def)
  with delete show ?case using insert_at_keeps[OF A] unfolding lpDelete_def by blast
next
  case (delete_range m index num m')
  then show ?case using lpDeleteRange_rep[OF A _ refl, of m _ index num] by fastforce
next
  case (merge m1 m2 r1 r2 m')
  then obtain es1 es2 where r: "lp_rep m1 es1" "lp_rep m2 es2" by blast
  show ?case using lpMerge_rep[OF A r refl] merge(3,4)
    by (cases "7 + length (lp_body (es1 @ es2)) < 4294967295") (auto split: if_splits)
next
  case (len m m' k)
  then obtain es n slack where R: "lp_rep_at m n slack es" by (auto simp: lp_rep_def)
  obtain n' where l: "lpLength m = Some (lp_hdr (7 + length (lp_body es)) n' @ lp_body es @ 0xFF # slack, length es)"
    and n': "n' = 65535 \<or> n' = length es \<and> n' < 65535" by (rule lp_rep_length[OF R])
  have "lp_rep (lp_hdr (7 + length (lp_body es)) n' @ lp_body es @ 0xFF # slack) es"
    using R n' by (intro lp_repI) (auto simp: lp_rep_at_def)
  then show ?case using len(2) l by auto
next
  case (shrink m m')
  then obtain es n slack where R: "lp_rep_at m n slack es" by (auto simp: lp_rep_def)
  then obtain s where "lpShrinkToFit A m = Some (lp_hdr (7 + length (lp_body es)) n @ lp_body es @ 0xFF # s)"
    using shrink_prefix[OF A refl, of "lp_body es" n slack] by (auto simp: lp_rep_at_def)
  moreover have "lp_rep (lp_hdr (7 + length (lp_body es)) n @ lp_body es @ 0xFF # s) es"
    using R by (intro lp_repI) (auto simp: lp_rep_at_def)
  ultimately show ?case using shrink(2) by auto
qed

section \<open>Properties\<close>

text \<open>An example: the listpack of the strings 1 and ab, and an allocator that rounds up to 16 bytes.\<close>

definition ex_alloc :: lp_allocator where
  "ex_alloc = \<lparr>junk = \<lambda>i. of_nat i, usable = \<lambda>n. (n + 15) div 16 * 16\<rparr>"

definition ex_lp :: bytes where
  "ex_lp = [13, 0, 0, 0, 2, 0, 0x01, 1, 0x82, 0x61, 0x62, 3, 0xFF, 0, 0, 0]"

lemma ex_alloc_ok: "alloc_ok ex_alloc"
  unfolding alloc_ok_def ex_alloc_def by simp presburger

lemma ex_lp_strings: "lp_strings ex_lp [[0x31], [0x61, 0x62]]"
proof -
  define es where es: "es = map to_ele [[0x31], [0x61, 0x62 :: byte]]"
  have ex: "ex_lp = lp_hdr 13 2 @ lp_body es @ 0xFF # [0, 0, 0]" unfolding es by code_simp
  have "length (lp_body es) = 6" unfolding es by code_simp
  moreover have "list_all ele_ok es" "length es = 2" by (auto simp: es intro: to_ele_ok)
  ultimately show ?thesis unfolding lp_strings_def es[symmetric] ex by (intro lp_repI) simp_all
qed

lemma ex_lp_rep: "lp_rep ex_lp [LpInt 1, LpStr [0x61, 0x62]]"
proof -
  have "map to_ele [[0x31], [0x61, 0x62]] = [LpInt 1, LpStr [0x61, 0x62]]" by code_simp
  then show ?thesis using ex_lp_strings unfolding lp_strings_def by simp
qed

lemma strings_fitI: "length (lp_body (map to_ele ss)) = n \<Longrightarrow> 7 + n < 2 ^ 32 \<Longrightarrow> strings_fit ss"
  by (simp add: strings_fit_def lp_fits_def)

text \<open>
  (C4) Any sequence of \<open>lpAppend\<close>, \<open>lpPrepend\<close>, \<open>lpInsertString\<close>,
  \<open>lpReplace\<close>, \<open>lpDelete\<close> and \<open>lpDeleteRange\<close> at indexes resolved by
  \<open>lpSeek\<close>, whatever the allocator does beyond giving enough memory, stays inside the block and
  leaves a listpack of exactly the strings the same commands leave in a list; it returns NULL at
  exactly the command whose result would need 2 to the 32 bytes or more.
\<close>

theorem lp_run_refines_list:
  assumes "alloc_ok A" "lp_strings m ss" "list_all (seq_elem_ok string_ok) cs"
  shows "case seq_spec_run strings_fit ss cs of
      None \<Rightarrow> seq_run (seq_step (lp_app A) (lp_prep A) (lp_ins A) (lp_repl A) (lp_del A) (lp_delr A)) m cs = Some None
    | Some ts \<Rightarrow> \<exists>m'. seq_run (seq_step (lp_app A) (lp_prep A) (lp_ins A) (lp_repl A) (lp_del A) (lp_delr A)) m cs =
        Some (Some m') \<and> lp_strings m' ts"
proof -
  obtain a where "A = any_alloc a" by (rule alloc_any[OF assms(1)])
  then show ?thesis using lp_seq.seq_run_refines[OF assms(2,3), of a] by (simp only:)
qed

theorem lp_run_refines_list_witness:
  "\<exists>m'. seq_run (seq_step (lp_app ex_alloc) (lp_prep ex_alloc) (lp_ins ex_alloc) (lp_repl ex_alloc) (lp_del ex_alloc)
      (lp_delr ex_alloc)) ex_lp [QAppend [0x37], QReplace 1 [0x78], QDelete (- 3), QPrepend []] = Some (Some m') \<and>
    lp_strings m' [[], [0x78], [0x37]]"
proof -
  let ?cs = "[QAppend [0x37], QReplace 1 [0x78], QDelete (- 3), QPrepend []] :: bytes seq_op list"
  have "strings_fit [[0x31], [0x61, 0x62], [0x37]]" by (rule strings_fitI[where n = 8]) (code_simp, simp)
  moreover have "strings_fit [[0x31], [0x78], [0x37]]" by (rule strings_fitI[where n = 7]) (code_simp, simp)
  moreover have "strings_fit [[0x78], [0x37]]" by (rule strings_fitI[where n = 5]) (code_simp, simp)
  moreover have "strings_fit [[], [0x78], [0x37]]" by (rule strings_fitI[where n = 7]) (code_simp, simp)
  ultimately have "seq_spec_run strings_fit [[0x31], [0x61, 0x62]] ?cs = Some [[], [0x78], [0x37]]"
    by (simp add: seq_apply_def seq_index_def)
  moreover have "list_all (seq_elem_ok string_ok) ?cs" by (simp add: string_ok_def)
  ultimately show ?thesis using lp_run_refines_list[OF ex_alloc_ok ex_lp_strings, of ?cs] by simp
qed

text \<open>
  (C6) \<open>lpInsert\<close> with a string or an integer and each of \<open>LP_BEFORE\<close>, \<open>LP_AFTER\<close>
  and \<open>LP_REPLACE\<close>, or with neither for a deletion, at the entry of index \<open>i\<close> (or the end
  of the listpack, before which an element can be put): the block returned represents the edited list,
  \<open>newp\<close> points to the entry that was added or, after a deletion, to the entry that follows, and
  is NULL when there is none; NULL is returned exactly when the result does not fit in 32 bits.
\<close>

theorem lpInsert_refines_edit:
  assumes "alloc_ok A" "ins_arg elestr eleint x" "lp_rep m es"
    "i < length es \<or> i = length es \<and> where = LP_BEFORE \<and> x \<noteq> None"
  shows "if lp_fits (lp_edit where i x es)
    then \<exists>m'. lpInsert A m elestr eleint (lp_pos es i) where np =
      Some (Some (m', if np \<and> lp_edit_at where i x < length (lp_edit where i x es)
        then Some (lp_pos (lp_edit where i x es) (lp_edit_at where i x)) else None)) \<and>
      lp_rep m' (lp_edit where i x es)
    else lpInsert A m elestr eleint (lp_pos es i) where np = Some None"
  using lpInsert_rep[OF assms, of np] by simp

theorem lpInsert_refines_edit_witness:
  "\<exists>m'. lpInsert ex_alloc ex_lp None (Some (lpEncodeIntegerGetType 1000)) 8 LP_AFTER True = Some (Some (m', Some 12)) \<and>
    lp_rep m' [LpInt 1, LpStr [0x61, 0x62], LpInt 1000]"
proof -
  let ?es = "[LpInt 1, LpStr [0x61, 0x62]]" and ?fs = "[LpInt 1, LpStr [0x61, 0x62], LpInt 1000]"
  have e: "lp_edit LP_AFTER 1 (Some (LpInt 1000)) ?es = ?fs" "lp_edit_at LP_AFTER 1 (Some (LpInt 1000)) = 2"
    by (simp_all add: lp_edit_def lp_edit_at_def)
  have p: "lp_pos ?es 1 = 8" "lp_pos ?fs 2 = 12" by code_simp+
  have "length (lp_body ?fs) = 9" by code_simp
  then have f: "lp_fits ?fs" by (simp only: lp_fits_def) simp
  have "ins_arg None (Some (lpEncodeIntegerGetType 1000)) (Some (LpInt 1000))"
    by (rule ins_arg_int) (simp add: in_sbits_def)
  from lpInsert_refines_edit[OF ex_alloc_ok this ex_lp_rep, of 1 LP_AFTER True] show ?thesis
    unfolding e p using f by simp
qed

text \<open>
  (C8) \<open>lpMerge\<close> of two listpacks gives, in the larger of the two blocks after growing it, a
  listpack of the elements of the first followed by those of the second, with the count of the header
  right also where one of them had an unknown count; the other pointer becomes NULL. The assertion on
  the size fails exactly when the result would need \<open>UINT32_MAX\<close> bytes or more.
\<close>

theorem lpMerge_concatenates:
  assumes "alloc_ok A" "lp_rep m1 es1" "lp_rep m2 es2"
  shows "if 7 + length (lp_body (es1 @ es2)) < 4294967295
    then \<exists>m. lp_rep m (es1 @ es2) \<and> lpMerge A (Some m1) (Some m2) False =
      Some (Some (if length (lp_body es2) \<le> length (lp_body es1) then (Some m, None) else (None, Some m)))
    else lpMerge A (Some m1) (Some m2) False = None"
  using lpMerge_rep[OF assms refl] by simp

theorem lpMerge_concatenates_witness:
  "\<exists>m. lp_rep m [LpInt 1, LpStr [0x61, 0x62], LpInt 1, LpStr [0x61, 0x62]] \<and>
    lpMerge ex_alloc (Some ex_lp) (Some ex_lp) False = Some (Some (Some m, None))"
proof -
  let ?es = "[LpInt 1, LpStr [0x61, 0x62]]"
  have "length (lp_body (?es @ ?es)) = 12" by code_simp
  then have "7 + length (lp_body (?es @ ?es)) < 4294967295" by (simp only:)
  then show ?thesis using lpMerge_concatenates[OF ex_alloc_ok ex_lp_rep ex_lp_rep] by (simp only: if_True order_refl append.simps)
qed

text \<open>
  (C9) Reading a listpack: \<open>lpSeek\<close> finds the entry of every index counted from either end,
  \<open>lpCompare\<close> there says whether a string is the element, \<open>lpNext\<close> and \<open>lpPrev\<close>
  walk to the neighbours and end with NULL, and \<open>lpLength\<close> is the number of elements.
\<close>

theorem lp_reads_strings:
  assumes "lp_strings m ss" "i < length ss"
  defines "pos \<equiv> lp_pos (map to_ele ss)"
  shows "lpSeek m (int i) = Some (Some (pos i)) \<and> lpSeek m (int i - int (length ss)) = Some (Some (pos i)) \<and>
    lpCompare m (pos i) s = Some (ss ! i = s) \<and>
    lpNext m (pos i) = Some (if Suc i < length ss then Some (pos (Suc i)) else None) \<and>
    lpPrev m (pos i) = Some (if 0 < i then Some (pos (i - 1)) else None) \<and>
    map_option snd (lpLength m) = Some (length ss)"
proof -
  let ?es = "map to_ele ss"
  obtain n slack where R: "lp_rep_at m n slack ?es" using assms(1) by (auto simp: lp_strings_def lp_rep_def)
  have i: "i < length ?es" using assms(2) by simp
  have c: "ele_canon (?es ! i)" "ele_bytes (?es ! i) = ss ! i"
    using assms(2) by (simp add: ele_canon_def to_ele_def split: option.splits, simp add: to_ele_bytes)
  have "lpPrev m (pos i) = Some (if 0 < i then Some (pos (i - 1)) else None)"
    using lp_rep_prev[OF R, of "i - 1"] i unfolding pos_def by (cases i) simp_all
  moreover have "map_option snd (lpLength m) = Some (length ss)" by (rule lp_rep_length[OF R]) simp
  ultimately show ?thesis
    using lp_rep_seek[OF R] lp_rep_compare[OF R i c(1)] lp_rep_next[OF R i] assms(2) c(2) unfolding pos_def by simp
qed

theorem lp_reads_strings_witness:
  "lpSeek ex_lp (- 1) = Some (Some 8) \<and> lpCompare ex_lp 8 [0x61, 0x62] = Some True \<and> lpPrev ex_lp 8 = Some (Some 6)"
proof -
  have "lp_pos (map to_ele [[0x31], [0x61, 0x62]]) 1 = 8" "lp_pos (map to_ele [[0x31], [0x61, 0x62]]) 0 = 6" by code_simp+
  then show ?thesis using lp_reads_strings[OF ex_lp_strings, of 1 "[0x61, 0x62]"] by simp
qed

text \<open>
  (C7) Every block that can be reached from \<open>lpNew\<close> by the operations is a well-formed listpack:
  it represents a list of strings and integers in their encodings, with the byte count, the element
  count and the back lengths that go with them, and passes \<open>lpValidateIntegrity\<close>, deep or not,
  on the number of bytes its header states.
\<close>

theorem lp_reachable_well_formed:
  assumes "alloc_ok A" "lp_reachable A m"
  shows "(\<exists>es. lp_rep m es) \<and> (\<exists>t. lpBytes m = Some t \<and> t \<le> length m \<and> lpValidateIntegrity m t deep None = Some True)"
proof -
  obtain es where es: "lp_rep m es" using reachable_rep[OF assms] by blast
  then obtain n slack where R: "lp_rep_at m n slack es" by (auto simp: lp_rep_def)
  have "lpBytes m = Some (7 + length (lp_body es))" using lp_rep_total[OF R] by (simp add: lpBytes_def)
  moreover have "7 + length (lp_body es) \<le> length m" using R by (simp add: lp_rep_at_def)
  ultimately show ?thesis using es validate_rep[OF es] by blast
qed

theorem lp_reachable_well_formed_witness:
  "\<exists>m m' q. lpNew ex_alloc 0 = Some m \<and> lpAppend ex_alloc m [0x61] = Some (Some (m', q)) \<and>
    (\<exists>es. lp_rep m' es) \<and> (\<exists>t. lpBytes m' = Some t \<and> t \<le> length m' \<and> lpValidateIntegrity m' t True None = Some True)"
proof -
  obtain m where m: "lpNew ex_alloc 0 = Some m" "lp_strings m []"
    using lpNew_rep[OF ex_alloc_ok] by (auto simp: lp_strings_def)
  have s: "string_ok [0x61]" by (simp add: string_ok_def)
  have "strings_fit ([] @ [[0x61]])" by (rule strings_fitI[where n = 3]) (code_simp, simp)
  then obtain m' q where a: "lpAppend ex_alloc m [0x61] = Some (Some (m', q))"
    using append_outcome[OF ex_alloc_ok m(2) s] by (auto simp: seq_outcome_def lp_app_def block_of_def)
  have "lp_reachable ex_alloc m'" using m(1) s a by (blast intro: lp_reachable.intros)
  from lp_reachable_well_formed[OF ex_alloc_ok this, of True] show ?thesis using m(1) a by blast
qed

end
