(* ===== verification/Endianconv.thy ===== *)
theory Endianconv
  imports Redis_Prelude
begin

text \<open>
  \<open>endianconv.c\<close>: reversing the bytes of an integer in memory. The swaps of the code are
  modelled on raw memory; \<open>intrev16\<close>, \<open>intrev32\<close> and \<open>intrev64\<close> reverse
  the memory of their argument on a little endian host.
\<close>

definition mem_swap :: "bytes \<Rightarrow> nat \<Rightarrow> nat \<Rightarrow> bytes option" where
  "mem_swap x i j = do {
     t \<leftarrow> mem_byte x i;
     b \<leftarrow> mem_byte x j;
     x \<leftarrow> mem_put x i [b];
     mem_put x j [t]
   }"

definition memrev16 :: "bytes \<Rightarrow> nat \<Rightarrow> bytes option" where
  "memrev16 x p = mem_swap x p (p + 1)"

definition memrev32 :: "bytes \<Rightarrow> nat \<Rightarrow> bytes option" where
  "memrev32 x p = do {
     x \<leftarrow> mem_swap x p (p + 3);
     mem_swap x (p + 1) (p + 2)
   }"

definition memrev64 :: "bytes \<Rightarrow> nat \<Rightarrow> bytes option" where
  "memrev64 x p = do {
     x \<leftarrow> mem_swap x p (p + 7);
     x \<leftarrow> mem_swap x (p + 1) (p + 6);
     x \<leftarrow> mem_swap x (p + 2) (p + 5);
     mem_swap x (p + 3) (p + 4)
   }"

definition intrev16 :: "u16 \<Rightarrow> u16 option" where
  "intrev16 v = do {
     x \<leftarrow> memrev16 (le_enc 2 (uint v)) 0;
     Some (word_of_int (le_dec x))
   }"

definition intrev32 :: "u32 \<Rightarrow> u32 option" where
  "intrev32 v = do {
     x \<leftarrow> memrev32 (le_enc 4 (uint v)) 0;
     Some (word_of_int (le_dec x))
   }"

definition intrev64 :: "u64 \<Rightarrow> u64 option" where
  "intrev64 v = do {
     x \<leftarrow> memrev64 (le_enc 8 (uint v)) 0;
     Some (word_of_int (le_dec x))
   }"

lemma mem_swap_mid:
  "mem_swap (pre @ a # mid @ b # post) (length pre) (length pre + Suc (length mid)) =
     Some (pre @ b # mid @ a # post)"
  by (simp add: mem_swap_def mem_byte_def mem_put_def nth_append)

lemma mem_swap_at:
  assumes "i = length pre" "j = length pre + Suc (length mid)"
  shows "mem_swap (pre @ a # mid @ b # post) i j = Some (pre @ b # mid @ a # post)"
  using mem_swap_mid assms by simp

text \<open>Each routine reverses the bytes it is given and no others.\<close>

lemma memrev16_rev:
  "length bs = 2 \<Longrightarrow> memrev16 (pre @ bs @ post) (length pre) = Some (pre @ rev bs @ post)"
  using mem_swap_at[of "length pre" pre "length pre + 1" "[]"]
  by (auto simp: memrev16_def length_Suc_conv numeral_2_eq_2)

lemma memrev32_rev:
  assumes "length bs = 4"
  shows "memrev32 (pre @ bs @ post) (length pre) = Some (pre @ rev bs @ post)"
proof -
  obtain a b c d where bs: "bs = [a, b, c, d]"
    using assms by (auto simp: length_Suc_conv numeral_eq_Suc)
  show ?thesis
    using mem_swap_at[of "length pre" pre "length pre + 3" "[b, c]" a d post]
      mem_swap_at[of "length pre + 1" "pre @ [d]" "length pre + 2" "[]" b c "a # post"]
    by (simp add: memrev32_def bs)
qed

lemma memrev64_rev:
  assumes "length bs = 8"
  shows "memrev64 (pre @ bs @ post) (length pre) = Some (pre @ rev bs @ post)"
proof -
  obtain a b c d e f g h where bs: "bs = [a, b, c, d, e, f, g, h]"
    using assms by (auto simp: length_Suc_conv numeral_eq_Suc)
  show ?thesis
    using mem_swap_at[of "length pre" pre "length pre + 7" "[b, c, d, e, f, g]" a h post]
      mem_swap_at[of "length pre + 1" "pre @ [h]" "length pre + 6" "[c, d, e, f]" b g "a # post"]
      mem_swap_at[of "length pre + 2" "pre @ [h, g]" "length pre + 5" "[d, e]" c f "b # a # post"]
      mem_swap_at[of "length pre + 3" "pre @ [h, g, f]" "length pre + 4" "[]" d e "c # b # a # post"]
    by (simp add: memrev64_def bs)
qed

lemma uint_le_word:
  fixes v :: "'a::len word"
  assumes "LENGTH('a) = 8 * n" "length bs = n"
  shows "le_enc n (uint (word_of_int (le_dec bs) :: 'a word)) = bs"
proof -
  have "(256::int) ^ n = 2 ^ LENGTH('a)" using assms(1) by (simp add: power_mult)
  then have "uint (word_of_int (le_dec bs) :: 'a word) = le_dec bs"
    using le_dec_bound[of bs] le_dec_nonneg[of bs] assms(2)
    by (simp add: unsigned_of_int take_bit_int_eq_self)
  then show ?thesis using le_enc_dec[OF assms(2)] by simp
qed

text \<open>
  (C25) \<open>intrev16\<close>, \<open>intrev32\<close> and \<open>intrev64\<close> stay inside the memory of
  their argument, return the integer whose bytes are those of the argument in reverse order,
  and are their own inverse.
\<close>

theorem intrev_reverses:
  "\<exists>a b c. intrev16 u = Some a \<and> le_enc 2 (uint a) = rev (le_enc 2 (uint u)) \<and> intrev16 a = Some u \<and>
     intrev32 v = Some b \<and> le_enc 4 (uint b) = rev (le_enc 4 (uint v)) \<and> intrev32 b = Some v \<and>
     intrev64 w = Some c \<and> le_enc 8 (uint c) = rev (le_enc 8 (uint w)) \<and> intrev64 c = Some w"
proof -
  have inv: "word_of_int (le_dec (le_enc n (uint x))) = x" if "LENGTH('a) = 8 * n" for x :: "'a::len word" and n
  proof -
    have "(256::int) ^ n = 2 ^ LENGTH('a)" using that by (simp add: power_mult)
    then show ?thesis using uint_lt2p[of x] by (simp add: le_dec_enc)
  qed
  have a: "\<exists>a. intrev16 u = Some a \<and> le_enc 2 (uint a) = rev (le_enc 2 (uint u)) \<and> intrev16 a = Some u"
    using memrev16_rev[of _ "[]" "[]"] uint_le_word[of 2 "rev (le_enc 2 (uint u))", where 'a = 16] inv[of 2 u]
    by (simp add: intrev16_def)
  have b: "\<exists>b. intrev32 v = Some b \<and> le_enc 4 (uint b) = rev (le_enc 4 (uint v)) \<and> intrev32 b = Some v"
    using memrev32_rev[of _ "[]" "[]"] uint_le_word[of 4 "rev (le_enc 4 (uint v))", where 'a = 32] inv[of 4 v]
    by (simp add: intrev32_def)
  have c: "\<exists>c. intrev64 w = Some c \<and> le_enc 8 (uint c) = rev (le_enc 8 (uint w)) \<and> intrev64 c = Some w"
    using memrev64_rev[of _ "[]" "[]"] uint_le_word[of 8 "rev (le_enc 8 (uint w))", where 'a = 64] inv[of 8 w]
    by (simp add: intrev64_def)
  show ?thesis using a b c by blast
qed

end
