(* ===== verification/Crc16.thy ===== *)
theory Crc16
  imports Redis_Prelude
begin

text \<open>
  \<open>crc16.c\<close> and the key to slot mapping of the cluster, \<open>keyHashSlot\<close> of
  \<open>cluster.c\<close>. The table driven checksum is shown equal to the bitwise division by
  the polynomial that the comment of \<open>crc16.c\<close> names, and the slot of a key is shown
  to depend on its hash tag only.
\<close>

definition crc16tab :: "u16 list" where
  "crc16tab = [
     0x0000, 0x1021, 0x2042, 0x3063, 0x4084, 0x50a5, 0x60c6, 0x70e7,
     0x8108, 0x9129, 0xa14a, 0xb16b, 0xc18c, 0xd1ad, 0xe1ce, 0xf1ef,
     0x1231, 0x0210, 0x3273, 0x2252, 0x52b5, 0x4294, 0x72f7, 0x62d6,
     0x9339, 0x8318, 0xb37b, 0xa35a, 0xd3bd, 0xc39c, 0xf3ff, 0xe3de,
     0x2462, 0x3443, 0x0420, 0x1401, 0x64e6, 0x74c7, 0x44a4, 0x5485,
     0xa56a, 0xb54b, 0x8528, 0x9509, 0xe5ee, 0xf5cf, 0xc5ac, 0xd58d,
     0x3653, 0x2672, 0x1611, 0x0630, 0x76d7, 0x66f6, 0x5695, 0x46b4,
     0xb75b, 0xa77a, 0x9719, 0x8738, 0xf7df, 0xe7fe, 0xd79d, 0xc7bc,
     0x48c4, 0x58e5, 0x6886, 0x78a7, 0x0840, 0x1861, 0x2802, 0x3823,
     0xc9cc, 0xd9ed, 0xe98e, 0xf9af, 0x8948, 0x9969, 0xa90a, 0xb92b,
     0x5af5, 0x4ad4, 0x7ab7, 0x6a96, 0x1a71, 0x0a50, 0x3a33, 0x2a12,
     0xdbfd, 0xcbdc, 0xfbbf, 0xeb9e, 0x9b79, 0x8b58, 0xbb3b, 0xab1a,
     0x6ca6, 0x7c87, 0x4ce4, 0x5cc5, 0x2c22, 0x3c03, 0x0c60, 0x1c41,
     0xedae, 0xfd8f, 0xcdec, 0xddcd, 0xad2a, 0xbd0b, 0x8d68, 0x9d49,
     0x7e97, 0x6eb6, 0x5ed5, 0x4ef4, 0x3e13, 0x2e32, 0x1e51, 0x0e70,
     0xff9f, 0xefbe, 0xdfdd, 0xcffc, 0xbf1b, 0xaf3a, 0x9f59, 0x8f78,
     0x9188, 0x81a9, 0xb1ca, 0xa1eb, 0xd10c, 0xc12d, 0xf14e, 0xe16f,
     0x1080, 0x00a1, 0x30c2, 0x20e3, 0x5004, 0x4025, 0x7046, 0x6067,
     0x83b9, 0x9398, 0xa3fb, 0xb3da, 0xc33d, 0xd31c, 0xe37f, 0xf35e,
     0x02b1, 0x1290, 0x22f3, 0x32d2, 0x4235, 0x5214, 0x6277, 0x7256,
     0xb5ea, 0xa5cb, 0x95a8, 0x8589, 0xf56e, 0xe54f, 0xd52c, 0xc50d,
     0x34e2, 0x24c3, 0x14a0, 0x0481, 0x7466, 0x6447, 0x5424, 0x4405,
     0xa7db, 0xb7fa, 0x8799, 0x97b8, 0xe75f, 0xf77e, 0xc71d, 0xd73c,
     0x26d3, 0x36f2, 0x0691, 0x16b0, 0x6657, 0x7676, 0x4615, 0x5634,
     0xd94c, 0xc96d, 0xf90e, 0xe92f, 0x99c8, 0x89e9, 0xb98a, 0xa9ab,
     0x5844, 0x4865, 0x7806, 0x6827, 0x18c0, 0x08e1, 0x3882, 0x28a3,
     0xcb7d, 0xdb5c, 0xeb3f, 0xfb1e, 0x8bf9, 0x9bd8, 0xabbb, 0xbb9a,
     0x4a75, 0x5a54, 0x6a37, 0x7a16, 0x0af1, 0x1ad0, 0x2ab3, 0x3a92,
     0xfd2e, 0xed0f, 0xdd6c, 0xcd4d, 0xbdaa, 0xad8b, 0x9de8, 0x8dc9,
     0x7c26, 0x6c07, 0x5c64, 0x4c45, 0x3ca2, 0x2c83, 0x1ce0, 0x0cc1,
     0xef1f, 0xff3e, 0xcf5d, 0xdf7c, 0xaf9b, 0xbfba, 0x8fd9, 0x9ff8,
     0x6e17, 0x7e36, 0x4e55, 0x5e74, 0x2e93, 0x3eb2, 0x0ed1, 0x1ef0]"

fun crc16_loop :: "u16 \<Rightarrow> bytes \<Rightarrow> u16" where
  "crc16_loop crc [] = crc"
| "crc16_loop crc (b # buf) =
     crc16_loop (push_bit 8 crc XOR
       crc16tab ! unat ((drop_bit 8 crc XOR ucast b) AND 0x00FF)) buf"

definition crc16 :: "bytes \<Rightarrow> u16" where
  "crc16 buf = crc16_loop 0 buf"

text \<open>
  \<open>find_byte b key i\<close>: the loops of \<open>keyHashSlot\<close>, the first index from
  \<open>i\<close> on whose byte is \<open>b\<close>, the length of the key when there is none.
\<close>

function find_byte :: "byte \<Rightarrow> bytes \<Rightarrow> nat \<Rightarrow> nat" where
  "find_byte b key i =
     (if i < length key then if key ! i = b then i else find_byte b key (i + 1) else i)"
  by pat_completeness auto
termination by (relation "measure (\<lambda>(b, key, i). length key - i)") auto

definition keyHashSlot :: "bytes \<Rightarrow> u16" where
  "keyHashSlot key =
     (let keylen = length key; s = find_byte 0x7B key 0
      in if s = keylen then crc16 key AND 0x3FFF
         else
           let e = find_byte 0x7D key (s + 1)
           in if e = keylen \<or> e = s + 1 then crc16 key AND 0x3FFF
              else crc16 (take (e - s - 1) (drop (s + 1) key)) AND 0x3FFF)"

section \<open>The checksum as a polynomial division\<close>

definition crc_bit :: "u16 \<Rightarrow> u16" where
  "crc_bit x = push_bit 1 x XOR (if bit x 15 then 0x1021 else 0)"

definition crc_byte :: "u16 \<Rightarrow> byte \<Rightarrow> u16" where
  "crc_byte crc b = (crc_bit ^^ 8) (crc XOR push_bit 8 (ucast b))"

lemma crc_bit_linear: "crc_bit (x XOR y) = crc_bit x XOR crc_bit y"
  by (rule bit_word_eqI) (auto simp: crc_bit_def bit_simps)

lemma crc_bits_linear: "(crc_bit ^^ n) (x XOR y) = (crc_bit ^^ n) x XOR (crc_bit ^^ n) y"
  by (induction n) (simp_all add: crc_bit_linear)

lemma crc_bits_low:
  assumes "\<And>i. n + i \<ge> 16 \<Longrightarrow> \<not> bit (x :: u16) i" "n \<le> 16"
  shows "(crc_bit ^^ n) x = push_bit n x"
  using assms
proof (induction n)
  case (Suc n)
  have "(crc_bit ^^ n) x = push_bit n x" using Suc by auto
  moreover have "\<not> bit (push_bit n x) 15" using Suc.prems(1)[of "15 - n"] Suc.prems(2)
    by (auto simp: bit_simps)
  then have "crc_bit (push_bit n x) = push_bit (Suc n) x"
    by (simp add: crc_bit_def)
  ultimately show ?case by simp
qed simp

lemma length_crc16tab: "length crc16tab = 256"
  by (simp add: crc16tab_def)

lemma crc_basis:
  "map (\<lambda>i. (crc_bit ^^ 8) (push_bit 8 i)) [0, 1, 2, 4, 8, 16, 32, 64, 128] =
   [0, 0x1021, 0x2042, 0x4084, 0x8108, 0x1231, 0x2462, 0x48c4, 0x9188]"
  by code_simp

lemma crc16tab_double:
  "take 2 crc16tab = take 1 crc16tab @ map (\<lambda>x. x XOR 0x1021) (take 1 crc16tab)"
  "take 4 crc16tab = take 2 crc16tab @ map (\<lambda>x. x XOR 0x2042) (take 2 crc16tab)"
  "take 8 crc16tab = take 4 crc16tab @ map (\<lambda>x. x XOR 0x4084) (take 4 crc16tab)"
  "take 16 crc16tab = take 8 crc16tab @ map (\<lambda>x. x XOR 0x8108) (take 8 crc16tab)"
  "take 32 crc16tab = take 16 crc16tab @ map (\<lambda>x. x XOR 0x1231) (take 16 crc16tab)"
  "take 64 crc16tab = take 32 crc16tab @ map (\<lambda>x. x XOR 0x2462) (take 32 crc16tab)"
  "take 128 crc16tab = take 64 crc16tab @ map (\<lambda>x. x XOR 0x48c4) (take 64 crc16tab)"
  "take 256 crc16tab = take 128 crc16tab @ map (\<lambda>x. x XOR 0x9188) (take 128 crc16tab)"
  by (simp_all add: crc16tab_def)


definition crc_of :: "nat \<Rightarrow> u16" where
  "crc_of i = (crc_bit ^^ 8) (push_bit 8 (of_nat i))"

lemma of_nat_xor_pow:
  assumes "j < 2 ^ k"
  shows "of_nat (j + 2 ^ k) = (of_nat j XOR of_nat (2 ^ k) :: u16)"
proof -
  have j: "bit j i \<Longrightarrow> i < k" for i
    using assms by (metis bit_take_bit_iff take_bit_nat_eq_self_iff)
  have "\<not> bit (of_nat j :: u16) i \<or> \<not> bit (of_nat (2 ^ k) :: u16) i" for i
    using j[of i] by (auto simp: bit_of_nat_iff bit_exp_iff)
  then have "(of_nat j :: u16) AND of_nat (2 ^ k) = 0"
    by (intro bit_word_eqI) (auto simp: bit_and_iff)
  then show ?thesis by (simp only: of_nat_add disjunctive_add_eq_xor)
qed

lemma crc_of_double:
  "map crc_of [0..<2 ^ k + 2 ^ k] =
     map crc_of [0..<2 ^ k] @ map (\<lambda>x. x XOR crc_of (2 ^ k)) (map crc_of [0..<2 ^ k])"
proof -
  have "map crc_of [2 ^ k..<2 ^ k + 2 ^ k] = map (\<lambda>j. crc_of (j + 2 ^ k)) [0..<2 ^ k]"
    by (simp only: map_add_upt[symmetric] map_map o_def)
  also have "\<dots> = map (\<lambda>j. crc_of j XOR crc_of (2 ^ k)) [0..<2 ^ k]"
  proof (rule map_cong[OF refl])
    fix j assume "j \<in> set [0..<2 ^ k]"
    then have "j < 2 ^ k" by simp
    from of_nat_xor_pow[OF this] show "crc_of (j + 2 ^ k) = crc_of j XOR crc_of (2 ^ k)"
      unfolding crc_of_def by (simp only: push_bit_xor crc_bits_linear)
  qed
  finally show ?thesis
    using upt_add_eq_append[of 0 "2 ^ k" "2 ^ k"] by (simp only: map_append map_map o_def le0)
qed

lemma crc_basis_of:
  "crc_of 0 = 0" "crc_of 1 = 0x1021" "crc_of 2 = 0x2042" "crc_of 4 = 0x4084" "crc_of 8 = 0x8108"
  "crc_of 16 = 0x1231" "crc_of 32 = 0x2462" "crc_of 64 = 0x48c4" "crc_of 128 = 0x9188"
  using crc_basis unfolding crc_of_def by simp_all

lemma crc16tab_step:
  assumes "take n crc16tab = take m crc16tab @ map (\<lambda>x. x XOR c) (take m crc16tab)"
    and "take m crc16tab = map crc_of [0..<m]" "n = m + m" "m = 2 ^ k" "crc_of m = c"
  shows "take n crc16tab = map crc_of [0..<n]"
  using crc_of_double[of k] assms by (simp only:)

lemma crc16tab_eq: "crc16tab = map crc_of [0..<256]"
proof -
  have t1: "take 1 crc16tab = map crc_of [0..<1]"
    by (simp add: crc16tab_def crc_basis_of)
  have t2: "take 2 crc16tab = map crc_of [0..<2]"
    by (rule crc16tab_step[OF crc16tab_double(1) t1, of 0]) (simp_all only: crc_basis_of, simp_all)
  have t4: "take 4 crc16tab = map crc_of [0..<4]"
    by (rule crc16tab_step[OF crc16tab_double(2) t2, of 1]) (simp_all only: crc_basis_of, simp_all)
  have t8: "take 8 crc16tab = map crc_of [0..<8]"
    by (rule crc16tab_step[OF crc16tab_double(3) t4, of 2]) (simp_all only: crc_basis_of, simp_all)
  have t16: "take 16 crc16tab = map crc_of [0..<16]"
    by (rule crc16tab_step[OF crc16tab_double(4) t8, of 3]) (simp_all only: crc_basis_of, simp_all)
  have t32: "take 32 crc16tab = map crc_of [0..<32]"
    by (rule crc16tab_step[OF crc16tab_double(5) t16, of 4]) (simp_all only: crc_basis_of, simp_all)
  have t64: "take 64 crc16tab = map crc_of [0..<64]"
    by (rule crc16tab_step[OF crc16tab_double(6) t32, of 5]) (simp_all only: crc_basis_of, simp_all)
  have t128: "take 128 crc16tab = map crc_of [0..<128]"
    by (rule crc16tab_step[OF crc16tab_double(7) t64, of 6]) (simp_all only: crc_basis_of, simp_all)
  have t256: "take 256 crc16tab = map crc_of [0..<256]"
    by (rule crc16tab_step[OF crc16tab_double(8) t128, of 7]) (simp_all only: crc_basis_of, simp_all)
  show ?thesis using t256 by (simp only: length_crc16tab take_all order_refl)
qed

lemma crc16tab_nth: "crc16tab ! unat (b :: byte) = (crc_bit ^^ 8) (push_bit 8 (ucast b))"
proof -
  have "unat b < 256" by (rule order_less_le_trans[OF unsigned_less]) simp
  then show ?thesis by (subst crc16tab_eq) (simp add: crc_of_def)
qed

lemma crc_step:
  "push_bit 8 crc XOR crc16tab ! unat ((drop_bit 8 crc XOR ucast b) AND 0x00FF) = crc_byte crc b"
proof -
  let ?h = "drop_bit 8 crc" and ?l = "take_bit 8 crc" and ?b = "ucast b :: u16"
  have split: "crc = push_bit 8 ?h XOR ?l"
    by (rule bit_word_eqI) (auto simp: bit_simps)
  have low: "(crc_bit ^^ 8) ?l = push_bit 8 ?l"
    by (rule crc_bits_low) (auto simp: bit_simps)
  have pl: "push_bit 8 ?l = push_bit 8 crc"
    by (rule bit_word_eqI) (auto simp: bit_simps)
  define i :: byte where "i = ucast (?h XOR ?b)"
  have m8: "x AND 0x00FF = take_bit 8 x" for x :: u16
    by (simp add: take_bit_eq_mask mask_eq_exp_minus_1)
  have ui: "(?h XOR ?b) AND 0x00FF = ucast i"
    unfolding m8 by (rule bit_word_eqI) (auto simp: i_def bit_simps)
  have pi: "push_bit 8 (ucast i) = push_bit 8 (?h XOR ?b)"
    by (rule bit_word_eqI) (auto simp: i_def bit_simps)
  have "unat i < 256" by (rule order_less_le_trans[OF unsigned_less]) simp
  then have "unat (ucast i :: u16) = unat i"
    by (simp add: unsigned_ucast_eq take_bit_nat_eq_self)
  then have "crc16tab ! unat ((?h XOR ?b) AND 0x00FF) = (crc_bit ^^ 8) (push_bit 8 (?h XOR ?b))"
    using crc16tab_nth[of i] ui pi by simp
  moreover have "crc_byte crc b = (crc_bit ^^ 8) (push_bit 8 (?h XOR ?b) XOR ?l)"
  proof -
    have "crc XOR push_bit 8 ?b = push_bit 8 (?h XOR ?b) XOR ?l"
      by (rule bit_word_eqI) (auto simp: bit_simps)
    then show ?thesis by (simp only: crc_byte_def)
  qed
  ultimately show ?thesis using low pl by (simp only: crc_bits_linear xor.commute)
qed

lemma crc16_loop_eq: "crc16_loop crc buf = foldl crc_byte crc buf"
  by (induction crc buf rule: crc16_loop.induct) (simp_all add: crc_step)



section \<open>Slots\<close>

declare find_byte.simps [simp del]

lemma find_byte_found:
  "b \<notin> set xs \<Longrightarrow> find_byte b (pre @ xs @ b # post) (length pre) = length pre + length xs"
proof (induction xs arbitrary: pre)
  case Nil
  then show ?case by (subst find_byte.simps) simp
next
  case (Cons x xs)
  then have "find_byte b ((pre @ [x]) @ xs @ b # post) (length (pre @ [x])) = length pre + length (x # xs)"
    by (subst Cons.IH) simp_all
  then show ?case using Cons.prems by (subst find_byte.simps) (auto simp: nth_append)
qed

lemma find_byte_absent: "b \<notin> set xs \<Longrightarrow> i \<le> length xs \<Longrightarrow> find_byte b xs i = length xs"
proof (induction b xs i rule: find_byte.induct)
  case (1 b key i)
  have "key ! i \<noteq> b" if "i < length key" using 1(2) nth_mem[OF that] by auto
  then show ?case using 1 by (subst find_byte.simps) auto
qed

lemma keyHashSlot_tagged:
  assumes "0x7B \<notin> set pre" "0x7D \<notin> set tag" "tag \<noteq> []"
  shows "keyHashSlot (pre @ 0x7B # tag @ 0x7D # post) = crc16 tag AND 0x3FFF"
proof -
  let ?key = "pre @ 0x7B # tag @ 0x7D # post"
  have s: "find_byte 0x7B ?key 0 = length pre"
    using find_byte_found[OF assms(1), of "[]"] by simp
  have e: "find_byte 0x7D ?key (length pre + 1) = length pre + 1 + length tag"
    using find_byte_found[OF assms(2), of "pre @ [0x7B]" post] by simp
  show ?thesis using assms(3)
    by (simp add: keyHashSlot_def Let_def s e[simplified])
qed

text \<open>Without a closing brace the whole key is hashed, opening braces or not.\<close>

lemma find_byte_le: "i \<le> length xs \<Longrightarrow> find_byte b xs i \<le> length xs"
proof (induction b xs i rule: find_byte.induct)
  case (1 b key i)
  then show ?case by (subst find_byte.simps) auto
qed

lemma keyHashSlot_untagged:
  assumes "0x7D \<notin> set key"
  shows "keyHashSlot key = crc16 key AND 0x3FFF"
proof (cases "find_byte 0x7B key 0 = length key")
  case False
  then have "find_byte 0x7B key 0 + 1 \<le> length key" using find_byte_le[of 0 key "0x7B"] by simp
  then have "find_byte 0x7D key (find_byte 0x7B key 0 + 1) = length key" by (rule find_byte_absent[OF assms])
  then show ?thesis by (simp add: keyHashSlot_def Let_def)
qed (simp add: keyHashSlot_def Let_def)

lemma and_3FFF: "unat (x AND 0x3FFF :: u16) < 16384"
proof -
  have "x AND 0x3FFF = take_bit 14 x" by (simp add: take_bit_eq_mask mask_eq_exp_minus_1)
  then have "unat (x AND 0x3FFF) = take_bit 14 (unat x)" by (simp only: unsigned_take_bit_eq)
  then show ?thesis using take_bit_nat_less_exp[of 14 "unat x"] by simp
qed

text \<open>
  (C26) The table driven \<open>crc16\<close> computes, for every buffer, the remainder of the bitwise
  division by the polynomial 0x1021 with initial value 0 that its comment specifies (XMODEM).
\<close>

theorem crc16_bitwise: "crc16 buf = foldl crc_byte 0 buf"
  unfolding crc16_def by (rule crc16_loop_eq)

text \<open>
  (C27) Every key has a slot below 16384, and the slot of a key with a non-empty hash tag
  between its first opening brace and the next closing brace is the slot of the tag alone, so
  keys with the same tag share a slot whatever surrounds it.
\<close>

theorem keyHashSlot_hash_tag:
  "unat (keyHashSlot key) < 16384 \<and>
   (0x7B \<notin> set pre \<and> 0x7D \<notin> set tag \<and> tag \<noteq> [] \<longrightarrow>
      keyHashSlot (pre @ 0x7B # tag @ 0x7D # post) = keyHashSlot tag)"
proof -
  have "unat (keyHashSlot key) < 16384" by (simp add: keyHashSlot_def Let_def and_3FFF)
  then show ?thesis using keyHashSlot_tagged keyHashSlot_untagged by auto
qed

theorem keyHashSlot_hash_tag_witness:
  "keyHashSlot [0x61, 0x7B, 0x7B, 0x31, 0x7D, 0x62] = keyHashSlot [0x7B, 0x31]"
  using keyHashSlot_hash_tag[of "[]" "[0x61]" "[0x7B, 0x31]" "[0x62]"] by simp

end
