(* ===== verification/Notify.thy ===== *)
theory Notify
  imports Redis_Prelude
begin

text \<open>
  The classes of keyspace notifications, \<open>notify.c\<close>: the conversions between the
  string of the configuration directive \<open>notify-keyspace-events\<close> and the flags.
  Characters are the HOL characters; the flags are the 32 bits of an \<open>int\<close>.
\<close>

definition NOTIFY_KEYSPACE :: u32 where "NOTIFY_KEYSPACE = push_bit 0 1"
definition NOTIFY_KEYEVENT :: u32 where "NOTIFY_KEYEVENT = push_bit 1 1"
definition NOTIFY_GENERIC :: u32 where "NOTIFY_GENERIC = push_bit 2 1"
definition NOTIFY_STRING :: u32 where "NOTIFY_STRING = push_bit 3 1"
definition NOTIFY_LIST :: u32 where "NOTIFY_LIST = push_bit 4 1"
definition NOTIFY_SET :: u32 where "NOTIFY_SET = push_bit 5 1"
definition NOTIFY_HASH :: u32 where "NOTIFY_HASH = push_bit 6 1"
definition NOTIFY_ZSET :: u32 where "NOTIFY_ZSET = push_bit 7 1"
definition NOTIFY_EXPIRED :: u32 where "NOTIFY_EXPIRED = push_bit 8 1"
definition NOTIFY_EVICTED :: u32 where "NOTIFY_EVICTED = push_bit 9 1"
definition NOTIFY_STREAM :: u32 where "NOTIFY_STREAM = push_bit 10 1"
definition NOTIFY_KEY_MISS :: u32 where "NOTIFY_KEY_MISS = push_bit 11 1"
definition NOTIFY_MODULE :: u32 where "NOTIFY_MODULE = push_bit 13 1"
definition NOTIFY_NEW :: u32 where "NOTIFY_NEW = push_bit 14 1"

definition NOTIFY_ALL :: u32 where
  "NOTIFY_ALL = NOTIFY_GENERIC OR NOTIFY_STRING OR NOTIFY_LIST OR NOTIFY_SET OR NOTIFY_HASH OR
     NOTIFY_ZSET OR NOTIFY_EXPIRED OR NOTIFY_EVICTED OR NOTIFY_STREAM OR NOTIFY_MODULE"

text \<open>
  The loop over the characters of \<open>keyspaceEventsStringToFlags\<close>; \<open>None\<close> is
  the return value -1.
\<close>

definition class_flag :: "char \<Rightarrow> u32 option" where
  "class_flag c =
     (if c = CHR ''A'' then Some NOTIFY_ALL
      else if c = CHR ''g'' then Some NOTIFY_GENERIC
      else if c = CHR ''$'' then Some NOTIFY_STRING
      else if c = CHR ''l'' then Some NOTIFY_LIST
      else if c = CHR ''s'' then Some NOTIFY_SET
      else if c = CHR ''h'' then Some NOTIFY_HASH
      else if c = CHR ''z'' then Some NOTIFY_ZSET
      else if c = CHR ''x'' then Some NOTIFY_EXPIRED
      else if c = CHR ''e'' then Some NOTIFY_EVICTED
      else if c = CHR ''K'' then Some NOTIFY_KEYSPACE
      else if c = CHR ''E'' then Some NOTIFY_KEYEVENT
      else if c = CHR ''t'' then Some NOTIFY_STREAM
      else if c = CHR ''m'' then Some NOTIFY_KEY_MISS
      else if c = CHR ''d'' then Some NOTIFY_MODULE
      else if c = CHR ''n'' then Some NOTIFY_NEW
      else None)"

fun flags_loop :: "u32 \<Rightarrow> string \<Rightarrow> u32 option" where
  "flags_loop flags [] = Some flags"
| "flags_loop flags (c # p) =
     (case class_flag c of
        Some f \<Rightarrow> flags_loop (flags OR f) p
      | None \<Rightarrow> None)"

definition keyspaceEventsStringToFlags :: "string \<Rightarrow> u32 option" where
  "keyspaceEventsStringToFlags classes = flags_loop 0 classes"

definition cat_if :: "u32 \<Rightarrow> u32 \<Rightarrow> string \<Rightarrow> string" where
  "cat_if flags f s = (if flags AND f \<noteq> 0 then s else [])"

definition keyspaceEventsFlagsToString :: "u32 \<Rightarrow> string" where
  "keyspaceEventsFlagsToString flags =
     (if flags AND NOTIFY_ALL = NOTIFY_ALL then ''A''
      else
        cat_if flags NOTIFY_GENERIC ''g'' @ cat_if flags NOTIFY_STRING ''$'' @
        cat_if flags NOTIFY_LIST ''l'' @ cat_if flags NOTIFY_SET ''s'' @
        cat_if flags NOTIFY_HASH ''h'' @ cat_if flags NOTIFY_ZSET ''z'' @
        cat_if flags NOTIFY_EXPIRED ''x'' @ cat_if flags NOTIFY_EVICTED ''e'' @
        cat_if flags NOTIFY_STREAM ''t'' @ cat_if flags NOTIFY_MODULE ''d'' @
        cat_if flags NOTIFY_NEW ''n'') @
     cat_if flags NOTIFY_KEYSPACE ''K'' @ cat_if flags NOTIFY_KEYEVENT ''E'' @
     cat_if flags NOTIFY_KEY_MISS ''m''"

lemmas notify_flag_defs = NOTIFY_KEYSPACE_def NOTIFY_KEYEVENT_def NOTIFY_GENERIC_def
  NOTIFY_STRING_def NOTIFY_LIST_def NOTIFY_SET_def NOTIFY_HASH_def NOTIFY_ZSET_def
  NOTIFY_EXPIRED_def NOTIFY_EVICTED_def NOTIFY_STREAM_def NOTIFY_KEY_MISS_def
  NOTIFY_MODULE_def NOTIFY_NEW_def

text \<open>The classes the directive knows.\<close>

definition notify_known :: u32 where
  "notify_known = NOTIFY_ALL OR NOTIFY_NEW OR NOTIFY_KEYSPACE OR NOTIFY_KEYEVENT OR NOTIFY_KEY_MISS"

lemma flags_loop_append: "flags_loop f (xs @ ys) = Option.bind (flags_loop f xs) (\<lambda>g. flags_loop g ys)"
  by (induction f xs rule: flags_loop.induct) (auto split: option.splits)

lemma and_single: "(x :: u32) AND push_bit k 1 = (if bit x k then push_bit k 1 else 0)"
  by (rule bit_word_eqI) (auto simp: bit_simps)

lemma flags_loop_cat_if:
  assumes "class_flag c = Some (push_bit k 1)" "k < 32"
  shows "flags_loop f (cat_if x (push_bit k 1) [c]) = Some (f OR (x AND push_bit k 1))"
proof -
  have "bit (push_bit k 1 :: u32) k" using assms(2) by (simp add: bit_simps)
  then have "push_bit k 1 \<noteq> (0 :: u32)" by (metis bit_0_eq bot_apply bot_bool_def)
  then show ?thesis using assms(1) unfolding cat_if_def and_single by simp
qed


lemma bit_single: "bit (push_bit k 1 :: u32) n \<longleftrightarrow> n = k \<and> k < 32"
  by (auto simp: bit_simps)

lemmas flag_steps =
  flags_loop_cat_if[of "CHR ''g''" 2] flags_loop_cat_if[of "CHR ''$''" 3]
  flags_loop_cat_if[of "CHR ''l''" 4] flags_loop_cat_if[of "CHR ''s''" 5]
  flags_loop_cat_if[of "CHR ''h''" 6] flags_loop_cat_if[of "CHR ''z''" 7]
  flags_loop_cat_if[of "CHR ''x''" 8] flags_loop_cat_if[of "CHR ''e''" 9]
  flags_loop_cat_if[of "CHR ''t''" 10] flags_loop_cat_if[of "CHR ''d''" 13]
  flags_loop_cat_if[of "CHR ''n''" 14] flags_loop_cat_if[of "CHR ''K''" 0]
  flags_loop_cat_if[of "CHR ''E''" 1] flags_loop_cat_if[of "CHR ''m''" 11]

lemma class_flags:
  "class_flag CHR ''g'' = Some (push_bit 2 1)" "class_flag CHR ''$'' = Some (push_bit 3 1)"
  "class_flag CHR ''l'' = Some (push_bit 4 1)" "class_flag CHR ''s'' = Some (push_bit 5 1)"
  "class_flag CHR ''h'' = Some (push_bit 6 1)" "class_flag CHR ''z'' = Some (push_bit 7 1)"
  "class_flag CHR ''x'' = Some (push_bit 8 1)" "class_flag CHR ''e'' = Some (push_bit 9 1)"
  "class_flag CHR ''t'' = Some (push_bit 10 1)" "class_flag CHR ''d'' = Some (push_bit 13 1)"
  "class_flag CHR ''n'' = Some (push_bit 14 1)" "class_flag CHR ''K'' = Some (push_bit 0 1)"
  "class_flag CHR ''E'' = Some (push_bit 1 1)" "class_flag CHR ''m'' = Some (push_bit 11 1)"
  "class_flag CHR ''A'' = Some NOTIFY_ALL"
  by (simp_all only: class_flag_def notify_flag_defs char.inject simp_thms if_True if_False)

lemma flags_loop_steps:
  "flags_loop f (cat_if x NOTIFY_GENERIC ''g'') = Some (f OR (x AND NOTIFY_GENERIC))"
  "flags_loop f (cat_if x NOTIFY_STRING ''$'') = Some (f OR (x AND NOTIFY_STRING))"
  "flags_loop f (cat_if x NOTIFY_LIST ''l'') = Some (f OR (x AND NOTIFY_LIST))"
  "flags_loop f (cat_if x NOTIFY_SET ''s'') = Some (f OR (x AND NOTIFY_SET))"
  "flags_loop f (cat_if x NOTIFY_HASH ''h'') = Some (f OR (x AND NOTIFY_HASH))"
  "flags_loop f (cat_if x NOTIFY_ZSET ''z'') = Some (f OR (x AND NOTIFY_ZSET))"
  "flags_loop f (cat_if x NOTIFY_EXPIRED ''x'') = Some (f OR (x AND NOTIFY_EXPIRED))"
  "flags_loop f (cat_if x NOTIFY_EVICTED ''e'') = Some (f OR (x AND NOTIFY_EVICTED))"
  "flags_loop f (cat_if x NOTIFY_STREAM ''t'') = Some (f OR (x AND NOTIFY_STREAM))"
  "flags_loop f (cat_if x NOTIFY_MODULE ''d'') = Some (f OR (x AND NOTIFY_MODULE))"
  "flags_loop f (cat_if x NOTIFY_NEW ''n'') = Some (f OR (x AND NOTIFY_NEW))"
  "flags_loop f (cat_if x NOTIFY_KEYSPACE ''K'') = Some (f OR (x AND NOTIFY_KEYSPACE))"
  "flags_loop f (cat_if x NOTIFY_KEYEVENT ''E'') = Some (f OR (x AND NOTIFY_KEYEVENT))"
  "flags_loop f (cat_if x NOTIFY_KEY_MISS ''m'') = Some (f OR (x AND NOTIFY_KEY_MISS))"
  unfolding notify_flag_defs by (rule flags_loop_cat_if, rule class_flags, simp)+

lemma parse_printed:
  "keyspaceEventsStringToFlags (keyspaceEventsFlagsToString x) =
     Some ((if x AND NOTIFY_ALL = NOTIFY_ALL then x AND NOTIFY_ALL
            else x AND (NOTIFY_ALL OR NOTIFY_NEW)) OR
           (x AND (NOTIFY_KEYSPACE OR NOTIFY_KEYEVENT OR NOTIFY_KEY_MISS)))"
proof (cases "x AND NOTIFY_ALL = NOTIFY_ALL")
  case True
  then show ?thesis
    by (simp add: keyspaceEventsStringToFlags_def keyspaceEventsFlagsToString_def flags_loop_append
        flags_loop_steps class_flags bit.conj_disj_distrib or.assoc)
next
  case False
  then show ?thesis
    by (simp add: keyspaceEventsStringToFlags_def keyspaceEventsFlagsToString_def flags_loop_append
        flags_loop_steps bit.conj_disj_distrib or.assoc NOTIFY_ALL_def)
qed


text \<open>
  (C28) Printing flags and parsing the result gives the same flags back, except that the class
  of new keys is lost when all classes of \<open>A\<close> are set: \<open>keyspaceEventsFlagsToString\<close>
  tests \<open>NOTIFY_NEW\<close> only in the other branch although \<open>NOTIFY_ALL\<close> does not
  include it.
\<close>

theorem notify_flags_roundtrip:
  assumes "x AND notify_known = x"
  shows "keyspaceEventsStringToFlags (keyspaceEventsFlagsToString x) =
    Some (if x AND NOTIFY_ALL = NOTIFY_ALL then x AND NOT NOTIFY_NEW else x)"
proof -
  have "x AND NOTIFY_ALL OR (x AND (NOTIFY_KEYSPACE OR NOTIFY_KEYEVENT OR NOTIFY_KEY_MISS)) =
      (x AND notify_known) AND NOT NOTIFY_NEW"
  proof -
    have "notify_known AND NOT NOTIFY_NEW =
        NOTIFY_ALL OR (NOTIFY_KEYSPACE OR NOTIFY_KEYEVENT OR NOTIFY_KEY_MISS)"
      by (simp add: notify_known_def NOTIFY_ALL_def notify_flag_defs)
    then show ?thesis by (simp only: and.assoc bit.conj_disj_distrib)
  qed
  moreover have "x AND (NOTIFY_ALL OR NOTIFY_NEW) OR
      (x AND (NOTIFY_KEYSPACE OR NOTIFY_KEYEVENT OR NOTIFY_KEY_MISS)) = x AND notify_known"
    by (simp add: notify_known_def bit.conj_disj_distrib or.assoc)
  ultimately show ?thesis unfolding parse_printed using assms by (cases "x AND NOTIFY_ALL = NOTIFY_ALL") simp_all
qed

theorem notify_flags_roundtrip_witness:
  "keyspaceEventsStringToFlags (keyspaceEventsFlagsToString (NOTIFY_ALL OR NOTIFY_NEW)) = Some NOTIFY_ALL \<and>
   keyspaceEventsStringToFlags (keyspaceEventsFlagsToString (NOTIFY_KEYSPACE OR NOTIFY_NEW)) =
     Some (NOTIFY_KEYSPACE OR NOTIFY_NEW)"
  using notify_flags_roundtrip[of "NOTIFY_ALL OR NOTIFY_NEW"]
    notify_flags_roundtrip[of "NOTIFY_KEYSPACE OR NOTIFY_NEW"]
  by (simp add: notify_known_def NOTIFY_ALL_def notify_flag_defs)

end
