(* ===== verification/Lrand48.thy ===== *)
theory Lrand48
  imports Redis_Prelude
begin

text \<open>
  The pseudo random generator of \<open>rand.c\<close>, which scripts use for reproducible results.
  Its state is a 48 bit number kept in three 16 bit pieces; the arithmetic on the pieces is
  32 bit, so the model takes every sum modulo \<open>2 ^ 32\<close>. It is shown to be the linear
  congruential generator of \<open>drand48\<close>.
\<close>

record rand_state =
  rx :: "nat \<times> nat \<times> nat"
  ra :: "nat \<times> nat \<times> nat"
  rc :: nat

definition LOW :: "nat \<Rightarrow> nat" where "LOW x = x mod 2 ^ 32 AND 0xFFFF"
definition HIGH :: "nat \<Rightarrow> nat" where "HIGH x = LOW (drop_bit 16 x)"

text \<open>
  \<open>MUL\<close> stores the two halves of the product truncated to \<open>int32_t\<close>;
  \<open>HIGH\<close> of a negative value has the same low 16 bits as that of the unsigned one.
\<close>

definition MUL :: "nat \<Rightarrow> nat \<Rightarrow> nat \<times> nat" where
  "MUL x y = (let l = x * y mod 2 ^ 32 in (LOW l, HIGH l))"

definition CARRY :: "nat \<Rightarrow> nat \<Rightarrow> nat" where
  "CARRY x y = (if x + y > 0xFFFF then 1 else 0)"

text \<open>\<open>ADDEQU(x, y, z)\<close> sets \<open>z\<close> to the carry and \<open>x\<close> to the sum.\<close>

definition ADDEQU :: "nat \<Rightarrow> nat \<Rightarrow> nat \<times> nat" where
  "ADDEQU x y = (LOW (x + y), CARRY x y)"

definition rand_initial :: rand_state where
  "rand_initial = \<lparr>rx = (0x330E, 0xABCD, 0x1234), ra = (0xE66D, 0xDEEC, 0x5), rc = 0xB\<rparr>"

definition rand_next :: "rand_state \<Rightarrow> rand_state" where
  "rand_next st =
     (let (x0, x1, x2) = rx st; (a0, a1, a2) = ra st;
          (p0, p1) = MUL a0 x0;
          (p0, carry0) = ADDEQU p0 (rc st);
          (p1, carry1) = ADDEQU p1 carry0;
          (q0, q1) = MUL a0 x1;
          (p1, carry0) = ADDEQU p1 q0;
          (r0, r1) = MUL a1 x0;
          y2 = LOW (carry0 + carry1 + CARRY p1 r0 + q1 + r1 + a0 * x2 + a1 * x1 + a2 * x0);
          y1 = LOW (p1 + r0);
          y0 = LOW p0
      in st\<lparr>rx := (y0, y1, y2)\<rparr>)"

text \<open>\<open>(int32_t)x[2] << 15\<close> plus \<open>x[1] >> 1\<close>, as a 31 bit value.\<close>

definition redisLrand48 :: "rand_state \<Rightarrow> rand_state \<times> nat" where
  "redisLrand48 st =
     (let st = rand_next st; (x0, x1, x2) = rx st
      in (st, push_bit 15 x2 + drop_bit 1 x1))"

definition redisSrand48 :: "rand_state \<Rightarrow> int \<Rightarrow> rand_state" where
  "redisSrand48 st seedval =
     (let s = nat (seedval mod 2 ^ 32)
      in st\<lparr>rx := (0x330E, LOW s, HIGH s), ra := (0xE66D, 0xDEEC, 0x5), rc := 0xB\<rparr>)"

text \<open>The 48 bit number of three pieces, and the states the generator can be in.\<close>

definition x48 :: "nat \<times> nat \<times> nat \<Rightarrow> nat" where
  "x48 t = (case t of (x0, x1, x2) \<Rightarrow> x0 + 2 ^ 16 * x1 + 2 ^ 32 * x2)"

definition rand_ok :: "rand_state \<Rightarrow> bool" where
  "rand_ok st \<longleftrightarrow>
     (case rx st of (x0, x1, x2) \<Rightarrow> x0 < 2 ^ 16 \<and> x1 < 2 ^ 16 \<and> x2 < 2 ^ 16) \<and>
     ra st = (0xE66D, 0xDEEC, 0x5) \<and> rc st = 0xB"

lemma LOW_mod: "LOW x = x mod 65536"
proof -
  have "y AND 0xFFFF = y mod 65536" for y :: nat
    using take_bit_eq_mask[of 16 y] by (simp add: take_bit_eq_mod mask_eq_exp_minus_1)
  then show ?thesis by (simp add: LOW_def mod_mod_cancel)
qed

lemma HIGH_div: "HIGH x = x div 65536 mod 65536"
  by (simp add: HIGH_def LOW_mod drop_bit_eq_div)

lemma CARRY_div: "x < 65536 \<Longrightarrow> y < 65536 \<Longrightarrow> CARRY x y = (x + y) div 65536"
  by (auto simp: CARRY_def)

lemma MUL_eq: "x < 65536 \<Longrightarrow> y < 65536 \<Longrightarrow> MUL x y = (x * y mod 65536, x * y div 65536)"
proof -
  assume "x < 65536" "y < 65536"
  then have "x * y \<le> 65535 * 65535" by (intro mult_le_mono) auto
  then show ?thesis by (simp add: MUL_def LOW_mod HIGH_div Let_def)
qed

lemma split16: "(x :: nat) = x mod 65536 + 65536 * (x div 65536)"
  by simp

lemma x48_cong:
  assumes "y0 = s0 mod 65536" "y1 = (s1 + s0 div 65536) mod 65536"
    "y2 = (s2 + (s1 + s0 div 65536) div 65536) mod 65536"
  shows "x48 (y0, y1, y2) = (s0 + 65536 * (s1 + 65536 * s2)) mod 2 ^ 48"
proof -
  have d: "(a + 65536 * t) mod 65536 = a mod 65536" "(a + 65536 * t) div 65536 = t + a div 65536"
    for a t :: nat by simp_all
  have "(s0 + 65536 * (s1 + 65536 * s2)) mod (65536 * (65536 * 65536)) =
      65536 * ((s0 + 65536 * (s1 + 65536 * s2)) div 65536 mod (65536 * 65536)) +
      (s0 + 65536 * (s1 + 65536 * s2)) mod 65536"
    by (rule mod_mult2_eq)
  also have "\<dots> = 65536 * ((s1 + s0 div 65536 + 65536 * s2) mod (65536 * 65536)) + s0 mod 65536"
    unfolding d by (simp only: ac_simps)
  also have "(s1 + s0 div 65536 + 65536 * s2) mod (65536 * 65536) =
      65536 * ((s1 + s0 div 65536 + 65536 * s2) div 65536 mod 65536) +
      (s1 + s0 div 65536 + 65536 * s2) mod 65536"
    by (rule mod_mult2_eq)
  also have "\<dots> = 65536 * ((s2 + (s1 + s0 div 65536) div 65536) mod 65536) + (s1 + s0 div 65536) mod 65536"
    unfolding d ..
  finally show ?thesis using assms by (simp add: x48_def)
qed


lemma carry_lin:
  fixes P q r :: nat
  assumes "P = 65536 * Pd + Pm" "q = 65536 * qd + qm" "r = 65536 * rd + rm"
    and "Pm + qm = 65536 * c1 + t" "t + rm = 65536 * c2 + y"
  shows "q + r + P = 65536 * (c1 + Pd + c2 + qd + rd) + y"
  using assms by (simp add: algebra_simps)

lemma carry_sum:
  fixes P q r :: nat
  defines "t \<equiv> (P mod 65536 + q mod 65536) mod 65536"
  shows "(t + r mod 65536) mod 65536 = (q + r + P) mod 65536"
    and "(P mod 65536 + q mod 65536) div 65536 + P div 65536 + (t + r mod 65536) div 65536 +
      q div 65536 + r div 65536 = (q + r + P) div 65536"
proof -
  show y: "(t + r mod 65536) mod 65536 = (q + r + P) mod 65536"
    unfolding t_def mod_add_eq by (simp only: ac_simps)
  define c1 where "c1 = (P mod 65536 + q mod 65536) div 65536"
  define c2 where "c2 = (t + r mod 65536) div 65536"
  define k where "k = c1 + P div 65536 + c2 + q div 65536 + r div 65536"
  have e: "P mod 65536 + q mod 65536 = 65536 * c1 + t" "t + r mod 65536 = 65536 * c2 + (q + r + P) mod 65536"
    unfolding c1_def c2_def y[symmetric] t_def by simp_all
  have "P = 65536 * (P div 65536) + P mod 65536" "q = 65536 * (q div 65536) + q mod 65536"
    "r = 65536 * (r div 65536) + r mod 65536" by simp_all
  from carry_lin[OF this e] have "q + r + P = 65536 * k + (q + r + P) mod 65536"
    unfolding k_def .
  then have "(q + r + P) div 65536 = (65536 * k + (q + r + P) mod 65536) div 65536" by (simp only:)
  also have "\<dots> = k" by simp
  finally have "(q + r + P) div 65536 = k" .
  then show "(P mod 65536 + q mod 65536) div 65536 + P div 65536 + (t + r mod 65536) div 65536 +
      q div 65536 + r div 65536 = (q + r + P) div 65536"
    unfolding k_def c1_def c2_def by simp
qed

lemma rand_next_pieces:
  assumes "rx st = (x0, x1, x2)" "ra st = (a0, a1, a2)" "rc st = c"
    and "x0 < 65536" "x1 < 65536" "a0 < 65536" "a1 < 65536" "c < 65536"
  defines "s0 \<equiv> a0 * x0 + c" and "s1 \<equiv> a0 * x1 + a1 * x0" and "s2 \<equiv> a0 * x2 + a1 * x1 + a2 * x0"
  shows "rand_next st = st\<lparr>rx := (s0 mod 65536, (s1 + s0 div 65536) mod 65536,
      (s2 + (s1 + s0 div 65536) div 65536) mod 65536)\<rparr>"
proof -
  define P where "P = s0 div 65536"
  have prod: "a0 * x0 div 65536 < 65536"
  proof -
    have "a0 * x0 \<le> 65535 * 65535" using assms by (intro mult_le_mono) auto
    then show ?thesis by simp
  qed
  have m: "MUL a0 x0 = (a0 * x0 mod 65536, a0 * x0 div 65536)"
    "MUL a0 x1 = (a0 * x1 mod 65536, a0 * x1 div 65536)"
    "MUL a1 x0 = (a1 * x0 mod 65536, a1 * x0 div 65536)"
    using assms by (simp_all add: MUL_eq)
  have P: "P = a0 * x0 div 65536 + (a0 * x0 mod 65536 + c) div 65536"
    unfolding P_def s0_def by (simp add: div_add1_eq[of "a0 * x0" c] assms(8))
  have a1: "ADDEQU (a0 * x0 mod 65536) c = (s0 mod 65536, (a0 * x0 mod 65536 + c) div 65536)"
    using assms(8) by (simp add: ADDEQU_def LOW_mod CARRY_div s0_def mod_simps)
  have a2: "ADDEQU (a0 * x0 div 65536) ((a0 * x0 mod 65536 + c) div 65536) = (P mod 65536, P div 65536)"
    using prod assms(8) by (simp add: ADDEQU_def LOW_mod CARRY_div P)
  have a3: "ADDEQU (P mod 65536) (a0 * x1 mod 65536) =
      ((P mod 65536 + a0 * x1 mod 65536) mod 65536, (P mod 65536 + a0 * x1 mod 65536) div 65536)"
    by (simp add: ADDEQU_def LOW_mod CARRY_div)
  note cs = carry_sum[of P "a0 * x1" "a1 * x0"]
  show ?thesis
    unfolding rand_next_def assms(1-3) Let_def prod.case m a1 a2 a3
    using cs by (simp add: LOW_mod CARRY_div s1_def s2_def P_def[symmetric] ac_simps)
qed


text \<open>
  (C29) The generator computes the linear congruence of \<open>drand48\<close>: from a state seeded
  by \<open>redisSrand48\<close> on, every step turns the 48 bit state \<open>X\<close> into
  \<open>(0x5DEECE66D * X + 0xB) mod 2 ^ 48\<close> and returns its 31 most significant bits, which is
  a non-negative \<open>int32_t\<close>; the three pieces stay 16 bit numbers.
\<close>

theorem redisLrand48_lcg:
  assumes "rand_ok st"
  shows "\<exists>st' v. redisLrand48 st = (st', v) \<and> rand_ok st' \<and>
    x48 (rx st') = (0x5DEECE66D * x48 (rx st) + 0xB) mod 2 ^ 48 \<and>
    v = x48 (rx st') div 2 ^ 17 \<and> v < 2 ^ 31"
proof -
  obtain x0 x1 x2 where x: "rx st = (x0, x1, x2)" by (cases "rx st") auto
  have b: "x0 < 65536" "x1 < 65536" "x2 < 65536" "ra st = (0xE66D, 0xDEEC, 0x5)" "rc st = 0xB"
    using assms x by (simp_all add: rand_ok_def)
  define s0 where "s0 = 0xE66D * x0 + 0xB"
  define s1 where "s1 = 0xE66D * x1 + 0xDEEC * x0"
  define s2 where "s2 = 0xE66D * x2 + 0xDEEC * x1 + 0x5 * x0"
  define y0 where "y0 = s0 mod 65536"
  define y1 where "y1 = (s1 + s0 div 65536) mod 65536"
  define y2 where "y2 = (s2 + (s1 + s0 div 65536) div 65536) mod 65536"
  have n: "rand_next st = st\<lparr>rx := (y0, y1, y2)\<rparr>"
    using rand_next_pieces[OF x b(4,5)] b
    by (simp add: y0_def y1_def y2_def s0_def s1_def s2_def)
  have y: "y0 < 65536" "y1 < 65536" "y2 < 65536" by (simp_all add: y0_def y1_def y2_def)
  have "0x5DEECE66D * x48 (x0, x1, x2) + 0xB =
      s0 + 65536 * (s1 + 65536 * s2) + 2 ^ 48 * (0xDEEC * x2 + 0x5 * x1 + 65536 * (0x5 * x2))"
    unfolding x48_def s0_def s1_def s2_def by (simp add: algebra_simps)
  then have "(0x5DEECE66D * x48 (x0, x1, x2) + 0xB) mod 2 ^ 48 = (s0 + 65536 * (s1 + 65536 * s2)) mod 2 ^ 48"
    by (simp only: mod_mult_self2)
  then have l: "x48 (y0, y1, y2) = (0x5DEECE66D * x48 (x0, x1, x2) + 0xB) mod 2 ^ 48"
    using x48_cong[OF y0_def y1_def y2_def] by simp
  have v: "push_bit 15 y2 + drop_bit 1 y1 = x48 (y0, y1, y2) div 2 ^ 17"
    using y by (simp add: x48_def push_bit_eq_mult drop_bit_eq_div del: One_nat_def)
  have "push_bit 15 y2 + drop_bit 1 y1 < 2 ^ 31"
    using y by (simp add: push_bit_eq_mult drop_bit_eq_div del: One_nat_def)
  then show ?thesis
    using n l v x y b by (simp add: redisLrand48_def Let_def rand_ok_def)
qed

theorem redisLrand48_lcg_witness:
  "\<exists>st' v. redisLrand48 (redisSrand48 rand_initial 0) = (st', v) \<and> rand_ok st' \<and>
    x48 (rx st') = (0x5DEECE66D * x48 (rx (redisSrand48 rand_initial 0)) + 0xB) mod 2 ^ 48 \<and>
    v = x48 (rx st') div 2 ^ 17 \<and> v < 2 ^ 31"
  by (rule redisLrand48_lcg) (simp add: rand_ok_def redisSrand48_def LOW_mod HIGH_div Let_def)

end
