(* ===== verification/Strl.thy ===== *)
theory Strl
  imports Redis_Prelude
begin

text \<open>
  The bounded string functions of \<open>strl.c\<close> on raw memory. \<open>dst\<close> and
  \<open>src\<close> are offsets into two different blocks; a string in memory ends with a zero
  byte. The loops run while there is room, respectively until the end of the source, and every
  access is checked.
\<close>

function c_strlen :: "bytes \<Rightarrow> nat \<Rightarrow> nat option" where
  "c_strlen m p = do {
     b \<leftarrow> mem_byte m p;
     if b = 0 then Some 0
     else do { n \<leftarrow> c_strlen m (p + 1); Some (n + 1) }
   }"
  by pat_completeness auto
termination
  by (relation "measure (\<lambda>(m, p). length m - p)") (auto simp: mem_byte_def split: if_splits)

text \<open>
  The copy loop of \<open>redis_strlcpy\<close> for \<open>nleft = Suc n\<close>: the destination block,
  both pointers and the new \<open>nleft\<close>.
\<close>

fun strlcpy_loop :: "bytes \<Rightarrow> nat \<Rightarrow> bytes \<Rightarrow> nat \<Rightarrow> nat \<Rightarrow> (bytes \<times> nat \<times> nat \<times> nat) option" where
  "strlcpy_loop m dst sm src 0 = Some (m, dst, src, 0)"
| "strlcpy_loop m dst sm src (Suc n) = do {
     b \<leftarrow> mem_byte sm src;
     m \<leftarrow> mem_put m dst [b];
     if b = 0 then Some (m, dst + 1, src + 1, Suc n)
     else strlcpy_loop m (dst + 1) sm (src + 1) n
   }"

definition redis_strlcpy :: "bytes \<Rightarrow> nat \<Rightarrow> bytes \<Rightarrow> nat \<Rightarrow> nat \<Rightarrow> (bytes \<times> nat) option" where
  "redis_strlcpy m dst sm osrc dsize = do {
     (m, dst, src, nleft) \<leftarrow>
       (if dsize \<noteq> 0 then strlcpy_loop m dst sm osrc (dsize - 1) else Some (m, dst, osrc, 0));
     if nleft = 0 then do {
       m \<leftarrow> (if dsize \<noteq> 0 then mem_put m dst [0] else Some m);
       n \<leftarrow> c_strlen sm src;
       Some (m, src + n + 1 - osrc - 1)
     }
     else Some (m, src - osrc - 1)
   }"

fun strlcat_end :: "bytes \<Rightarrow> nat \<Rightarrow> nat \<Rightarrow> nat option" where
  "strlcat_end m dst 0 = Some dst"
| "strlcat_end m dst (Suc n) = do {
     b \<leftarrow> mem_byte m dst;
     if b \<noteq> 0 then strlcat_end m (dst + 1) n else Some dst
   }"

function strlcat_loop :: "bytes \<Rightarrow> nat \<Rightarrow> bytes \<Rightarrow> nat \<Rightarrow> nat \<Rightarrow> (bytes \<times> nat \<times> nat) option" where
  "strlcat_loop m dst sm src n = do {
     b \<leftarrow> mem_byte sm src;
     if b \<noteq> 0 then
       (if n \<noteq> 0 then do {
          m \<leftarrow> mem_put m dst [b];
          strlcat_loop m (dst + 1) sm (src + 1) (n - 1) }
        else strlcat_loop m dst sm (src + 1) n)
     else Some (m, dst, src)
   }"
  by pat_completeness auto
termination
  by (relation "measure (\<lambda>(m, dst, sm, src, n). length sm - src)")
    (auto simp: mem_byte_def split: if_splits)

definition redis_strlcat :: "bytes \<Rightarrow> nat \<Rightarrow> bytes \<Rightarrow> nat \<Rightarrow> nat \<Rightarrow> (bytes \<times> nat) option" where
  "redis_strlcat m odst sm osrc dsize = do {
     dst \<leftarrow> strlcat_end m odst dsize;
     let dlen = dst - odst;
     let n = dsize - dlen;
     if n = 0 then do { k \<leftarrow> c_strlen sm osrc; Some (m, dlen + k) }
     else do {
       (m, dst, src) \<leftarrow> strlcat_loop m dst sm osrc (n - 1);
       m \<leftarrow> mem_put m dst [0];
       Some (m, dlen + (src - osrc))
     }
   }"

declare c_strlen.simps [simp del] strlcat_loop.simps [simp del]

lemma mem_byte_at:
  "mem_byte (pre @ b # post) (length pre) = Some b"
  by (simp add: mem_byte_def)

lemma mem_put_at:
  "length old = length new \<Longrightarrow> mem_put (pre @ old @ post) (length pre) new = Some (pre @ new @ post)"
  by (simp add: mem_put_def)

lemma c_strlen_string:
  "0 \<notin> set s \<Longrightarrow> c_strlen (pre @ s @ 0 # post) (length pre) = Some (length s)"
proof (induction s arbitrary: pre)
  case Nil
  then show ?case by (subst c_strlen.simps) (simp add: mem_byte_at)
next
  case (Cons c s)
  have "c_strlen ((pre @ [c]) @ s @ 0 # post) (length (pre @ [c])) = Some (length s)"
    using Cons by (intro Cons.IH) simp
  then show ?case using Cons.prems by (subst c_strlen.simps) (simp add: mem_byte_at)
qed

text \<open>The copy loop with room for the whole string, and without.\<close>

lemma strlcpy_loop_fits:
  assumes "0 \<notin> set s" "length s < n" "length old = length s + 1"
  shows "strlcpy_loop (d @ old @ dpost) (length d) (pre @ s @ 0 # post) (length pre) n =
    Some (d @ s @ 0 # dpost, length d + length s + 1, length pre + length s + 1, n - length s)"
  using assms
proof (induction s arbitrary: pre d n old)
  case Nil
  then obtain x k where "old = [x]" "n = Suc k" by (cases n) (auto simp: length_Suc_conv)
  then show ?case using mem_put_at[of "[x]" "[0]" d dpost] by (simp add: mem_byte_at)
next
  case (Cons c s)
  then obtain x o' k where o: "old = x # o'" "length o' = length s + 1" and k: "n = Suc k" "length s < k"
    by (cases n; cases old) auto
  have "strlcpy_loop ((d @ [c]) @ o' @ dpost) (length (d @ [c])) ((pre @ [c]) @ s @ 0 # post) (length (pre @ [c])) k =
      Some ((d @ [c]) @ s @ 0 # dpost, length (d @ [c]) + length s + 1, length (pre @ [c]) + length s + 1, k - length s)"
    using Cons.prems o k by (intro Cons.IH) auto
  then show ?case using Cons.prems mem_put_at[of "[x]" "[c]" d "o' @ dpost"]
    by (simp add: mem_byte_at o k)
qed

lemma strlcpy_loop_cut:
  assumes "0 \<notin> set s" "n \<le> length s" "length old = n"
  shows "strlcpy_loop (d @ old @ dpost) (length d) (pre @ s @ 0 # post) (length pre) n =
    Some (d @ take n s @ dpost, length d + n, length pre + n, 0)"
  using assms
proof (induction n arbitrary: pre d s old)
  case (Suc n)
  then obtain c s' x o' where s: "s = c # s'" and o: "old = x # o'" by (cases s; cases old) auto
  have "strlcpy_loop ((d @ [c]) @ o' @ dpost) (length (d @ [c])) ((pre @ [c]) @ s' @ 0 # post) (length (pre @ [c])) n =
      Some ((d @ [c]) @ take n s' @ dpost, length (d @ [c]) + n, length (pre @ [c]) + n, 0)"
    using Suc.prems s o by (intro Suc.IH) auto
  then show ?case using Suc.prems mem_put_at[of "[x]" "[c]" d "o' @ dpost"]
    by (simp add: mem_byte_at s o)
qed simp


lemma strlcat_end_string:
  assumes "0 \<notin> set t" "length t < n"
  shows "strlcat_end (d @ t @ 0 # dpost) (length d) n = Some (length d + length t)"
  using assms
proof (induction t arbitrary: d n)
  case Nil
  then show ?case by (cases n) (auto simp: mem_byte_at)
next
  case (Cons c t)
  then obtain k where k: "n = Suc k" by (cases n) auto
  have "strlcat_end ((d @ [c]) @ t @ 0 # dpost) (length (d @ [c])) k = Some (length (d @ [c]) + length t)"
    using Cons.prems k by (intro Cons.IH) auto
  then show ?case using Cons.prems by (simp add: k mem_byte_at)
qed

lemma strlcat_loop_string:
  assumes "0 \<notin> set s" "length old = min n (length s)"
  shows "strlcat_loop (d @ old @ dpost) (length d) (pre @ s @ 0 # post) (length pre) n =
    Some (d @ take n s @ dpost, length d + min n (length s), length pre + length s)"
  using assms
proof (induction s arbitrary: d old pre n)
  case Nil
  then show ?case by (subst strlcat_loop.simps) (simp add: mem_byte_at)
next
  case (Cons c s)
  show ?case
  proof (cases n)
    case 0
    have "strlcat_loop (d @ [] @ dpost) (length d) ((pre @ [c]) @ s @ 0 # post) (length (pre @ [c])) 0 =
        Some (d @ take 0 s @ dpost, length d + min 0 (length s), length (pre @ [c]) + length s)"
      using Cons.prems by (intro Cons.IH) auto
    then show ?thesis using Cons.prems 0 by (subst strlcat_loop.simps) (simp add: mem_byte_at)
  next
    case (Suc k)
    then obtain x o' where o: "old = x # o'" "length o' = min k (length s)" using Cons.prems by (cases old) auto
    have "strlcat_loop ((d @ [c]) @ o' @ dpost) (length (d @ [c])) ((pre @ [c]) @ s @ 0 # post) (length (pre @ [c])) k =
        Some ((d @ [c]) @ take k s @ dpost, length (d @ [c]) + min k (length s), length (pre @ [c]) + length s)"
      using Cons.prems o by (intro Cons.IH) auto
    then show ?thesis using Cons.prems Suc o mem_put_at[of "[x]" "[c]" d "o' @ dpost"]
      by (subst strlcat_loop.simps) (simp add: mem_byte_at)
  qed
qed

lemma split_at_length:
  assumes "n \<le> length xs"
  obtains ys zs where "xs = ys @ zs" "length ys = n"
  using that[of "take n xs" "drop n xs"] assms by simp

text \<open>
  (C30) \<open>redis_strlcpy\<close> copies a string into a buffer of \<open>dsize > 0\<close> bytes without
  touching memory outside the buffer: the buffer then holds the first \<open>dsize - 1\<close> bytes of
  the string followed by a zero byte, and the result is the length of the source, so that a
  result of at least \<open>dsize\<close> tells that the copy was cut.
\<close>

theorem redis_strlcpy_correct:
  assumes "0 \<notin> set s" "length buf = dsize" "0 < dsize"
  shows "\<exists>rest. redis_strlcpy (d @ buf @ dpost) (length d) (pre @ s @ 0 # post) (length pre) dsize =
      Some (d @ (take (dsize - 1) s @ 0 # rest) @ dpost, length s) \<and>
    length (take (dsize - 1) s @ 0 # rest) = dsize"
proof (cases "length s < dsize - 1")
  case True
  then have "length s + 1 \<le> length buf" using assms by simp
  then obtain old rest where b: "buf = old @ rest" "length old = length s + 1"
    by (rule split_at_length)
  have "strlcpy_loop (d @ old @ rest @ dpost) (length d) (pre @ s @ 0 # post) (length pre) (dsize - 1) =
      Some (d @ s @ 0 # rest @ dpost, length d + length s + 1, length pre + length s + 1, dsize - 1 - length s)"
    using assms True b by (intro strlcpy_loop_fits) auto
  then show ?thesis using True b assms by (intro exI[of _ rest]) (auto simp: redis_strlcpy_def)
next
  case False
  obtain old rest where b: "buf = old @ rest" "length old = dsize - 1"
    using assms split_at_length[of "dsize - 1" buf] by auto
  then obtain x where x: "rest = [x]" using assms by (cases rest) auto
  have l: "strlcpy_loop (d @ old @ [x] @ dpost) (length d) (pre @ s @ 0 # post) (length pre) (dsize - 1) =
      Some (d @ take (dsize - 1) s @ [x] @ dpost, length d + (dsize - 1), length pre + (dsize - 1), 0)"
    using assms False b by (intro strlcpy_loop_cut) auto
  have z: "mem_put ((d @ take (dsize - 1) s) @ [x] @ dpost) (length d + (dsize - 1)) [0] =
      Some ((d @ take (dsize - 1) s) @ [0] @ dpost)"
    using False mem_put_at[of "[x]" "[0]" "d @ take (dsize - 1) s" dpost] by simp
  have "c_strlen ((pre @ take (dsize - 1) s) @ drop (dsize - 1) s @ 0 # post) (length (pre @ take (dsize - 1) s)) =
      Some (length (drop (dsize - 1) s))"
    using assms(1) by (intro c_strlen_string) (auto dest: in_set_dropD)
  moreover have "(pre @ take (dsize - 1) s) @ drop (dsize - 1) s @ 0 # post = pre @ s @ 0 # post"
    by simp
  ultimately have n: "c_strlen (pre @ s @ 0 # post) (length pre + (dsize - 1)) = Some (length s - (dsize - 1))"
    using False by (simp only: length_append length_take length_drop min_absorb2 not_less)
  show ?thesis
    using l z n False b x assms by (intro exI[of _ "[]"]) (auto simp: redis_strlcpy_def)
qed

theorem redis_strlcpy_correct_witness:
  "\<exists>rest. redis_strlcpy ([7] @ [1, 1, 1] @ [9]) (length [7::byte]) ([] @ [65, 66, 67, 68] @ 0 # []) (length ([] :: bytes)) 3 =
      Some ([7] @ (take (3 - 1) [65, 66, 67, 68] @ 0 # rest) @ [9], length [65::byte, 66, 67, 68]) \<and>
    length (take (3 - 1) [65, 66, 67, 68 :: byte] @ 0 # rest) = 3"
  by (rule redis_strlcpy_correct) simp_all

text \<open>
  (C31) \<open>redis_strlcat\<close> appends a string to the string in a buffer of \<open>dsize\<close>
  bytes, cutting it so that the result with its zero byte fits, writes nothing outside the
  buffer, and returns the length the untruncated result would have.
\<close>

theorem redis_strlcat_correct:
  assumes "0 \<notin> set s" "0 \<notin> set t" "length (t @ 0 # free) = dsize"
  shows "\<exists>rest. redis_strlcat (d @ (t @ 0 # free) @ dpost) (length d) (pre @ s @ 0 # post) (length pre) dsize =
      Some (d @ (t @ take (dsize - 1 - length t) s @ 0 # rest) @ dpost, length t + length s) \<and>
    length (t @ take (dsize - 1 - length t) s @ 0 # rest) = dsize"
proof -
  let ?k = "length free" and ?j = "min (length free) (length s)"
  have e: "strlcat_end (d @ t @ 0 # free @ dpost) (length d) dsize = Some (length d + length t)"
    using assms strlcat_end_string[of t dsize d "free @ dpost"] by simp
  have "?j \<le> length (0 # free)" by simp
  then obtain old r where b: "0 # free = old @ r" "length old = ?j"
    by (rule split_at_length)
  have lr: "length r = Suc (?k - ?j)" using arg_cong[OF b(1), of length] b(2) by simp
  then obtain x rest where r: "r = x # rest" by (cases r) auto
  have l: "strlcat_loop ((d @ t) @ old @ r @ dpost) (length (d @ t)) (pre @ s @ 0 # post) (length pre) ?k =
      Some ((d @ t) @ take ?k s @ r @ dpost, length (d @ t) + ?j, length pre + length s)"
    using assms b by (intro strlcat_loop_string) auto
  have "mem_put ((d @ t @ take ?k s) @ [x] @ rest @ dpost) (length (d @ t @ take ?k s)) [0] =
      Some ((d @ t @ take ?k s) @ [0] @ rest @ dpost)"
    by (rule mem_put_at) simp
  moreover have "length (d @ t @ take ?k s) = length (d @ t) + ?j" by (simp add: min.commute)
  moreover have m: "d @ t @ 0 # free @ dpost = (d @ t) @ old @ r @ dpost"
    using arg_cong[OF b(1), of "\<lambda>z. z @ dpost"] by simp
  moreover have D: "\<not> dsize \<le> length t" "dsize - length t - 1 = ?k" "dsize - Suc (length t) = ?k"
    using assms(3) by auto
  ultimately have "redis_strlcat ((d @ t) @ old @ r @ dpost) (length d) (pre @ s @ 0 # post) (length pre) dsize =
      Some (d @ (t @ take ?k s @ 0 # rest) @ dpost, length t + length s)"
    using e[unfolded m] l r by (simp add: redis_strlcat_def Let_def add.assoc)
  moreover have "dsize = Suc (length t + ?k)" using assms(3) by simp
  moreover have "length rest = ?k - ?j" using lr r by simp
  ultimately show ?thesis using m D by (intro exI[of _ rest]) (simp add: min.commute)
qed

theorem redis_strlcat_correct_witness:
  "\<exists>rest. redis_strlcat ([7] @ ([65] @ 0 # [1, 1]) @ [9]) (length [7::byte]) ([] @ [66, 67, 68] @ 0 # []) (length ([] :: bytes)) 4 =
      Some ([7] @ ([65] @ take (4 - 1 - length [65::byte]) [66, 67, 68] @ 0 # rest) @ [9], length [65::byte] + length [66::byte, 67, 68]) \<and>
    length ([65] @ take (4 - 1 - length [65::byte]) [66, 67, 68 :: byte] @ 0 # rest) = 4"
  by (rule redis_strlcat_correct) simp_all

end
