(* ===== verification/Bitops.thy ===== *)
theory Bitops
  imports Redis_Prelude
begin

text \<open>
  The bit level routines of \<open>bitops.c\<close>: reading and writing integers of any width at
  any bit offset of a bitmap (\<open>BITFIELD\<close>), the overflow checks with their three
  semantics, and the search for the first bit of a given value (\<open>BITPOS\<close>). Bit 0 of a
  bitmap is the most significant bit of its first byte.
\<close>

section \<open>Bit fields\<close>

fun set_bits_loop :: "bytes \<Rightarrow> nat \<Rightarrow> nat \<Rightarrow> u64 \<Rightarrow> bytes option" where
  "set_bits_loop p offset 0 value = Some p"
| "set_bits_loop p offset (Suc n) value = do {
     let bitval = (value AND push_bit n 1 \<noteq> 0);
     let byte = drop_bit 3 offset;
     let bt = 7 - (offset AND 7);
     byteval \<leftarrow> mem_byte p byte;
     let byteval = byteval AND NOT (push_bit bt 1);
     let byteval = byteval OR push_bit bt (if bitval then 1 else 0);
     p \<leftarrow> mem_put p byte [byteval];
     set_bits_loop p (offset + 1) n value
   }"

definition setUnsignedBitfield :: "bytes \<Rightarrow> nat \<Rightarrow> nat \<Rightarrow> u64 \<Rightarrow> bytes option" where
  "setUnsignedBitfield p offset bits value = set_bits_loop p offset bits value"

definition setSignedBitfield :: "bytes \<Rightarrow> nat \<Rightarrow> nat \<Rightarrow> int \<Rightarrow> bytes option" where
  "setSignedBitfield p offset bits value =
     (let uv = word_of_int value in setUnsignedBitfield p offset bits uv)"

fun get_bits_loop :: "bytes \<Rightarrow> nat \<Rightarrow> nat \<Rightarrow> u64 \<Rightarrow> u64 option" where
  "get_bits_loop p offset 0 value = Some value"
| "get_bits_loop p offset (Suc n) value = do {
     let byte = drop_bit 3 offset;
     let bt = 7 - (offset AND 7);
     byteval \<leftarrow> mem_byte p byte;
     let bitval = drop_bit bt (ucast byteval) AND 1;
     get_bits_loop p (offset + 1) n (push_bit 1 value OR bitval)
   }"

definition getUnsignedBitfield :: "bytes \<Rightarrow> nat \<Rightarrow> nat \<Rightarrow> u64 option" where
  "getUnsignedBitfield p offset bits = get_bits_loop p offset bits 0"

definition getSignedBitfield :: "bytes \<Rightarrow> nat \<Rightarrow> nat \<Rightarrow> int option" where
  "getSignedBitfield p offset bits = do {
     value \<leftarrow> getUnsignedBitfield p offset bits;
     let value = (if bits < 64 \<and> value AND push_bit (bits - 1) 1 \<noteq> 0
                  then value OR push_bit bits (- 1) else value);
     Some (sint value)
   }"

section \<open>Overflow\<close>

text \<open>
  The checks return 0, 1 or -1 and the value they leave in \<open>*limit\<close>
  (\<open>None\<close> when they do not write it). Conversions to \<open>int64_t\<close> are
  \<open>sint\<close>; the subtraction \<open>min - value\<close>, which can leave the range of
  \<open>int64_t\<close>, is taken to wrap around.
\<close>

datatype bfoverflow = BFOVERFLOW_WRAP | BFOVERFLOW_SAT | BFOVERFLOW_FAIL

definition unsigned_max :: "nat \<Rightarrow> u64" where
  "unsigned_max bits = (if bits = 64 then - 1 else push_bit bits 1 - 1)"

text \<open>
  The overflow checks: the return value, and what is stored through the pointer \<open>limit\<close>, if
  anything; \<open>limit\<close> tells whether the pointer is given.
\<close>

definition checkUnsignedBitfieldOverflow ::
  "u64 \<Rightarrow> int \<Rightarrow> nat \<Rightarrow> bfoverflow \<Rightarrow> bool \<Rightarrow> int \<times> u64 option" where
  "checkUnsignedBitfieldOverflow value incr bits owtype limit =
     (let max = unsigned_max bits;
          maxincr = sint (max - value);
          minincr = sint (- value);
          handle_wrap = (1, Some ((value + word_of_int incr) AND NOT (push_bit bits (- 1))))
      in if value > max \<or> (incr > 0 \<and> incr > maxincr) then
           (if limit then
              (case owtype of
                 BFOVERFLOW_WRAP \<Rightarrow> handle_wrap
               | BFOVERFLOW_SAT \<Rightarrow> (1, Some max)
               | BFOVERFLOW_FAIL \<Rightarrow> (1, None))
            else (1, None))
         else if incr < 0 \<and> incr < minincr then
           (if limit then
              (case owtype of
                 BFOVERFLOW_WRAP \<Rightarrow> handle_wrap
               | BFOVERFLOW_SAT \<Rightarrow> (- 1, Some 0)
               | BFOVERFLOW_FAIL \<Rightarrow> (- 1, None))
            else (- 1, None))
         else (0, None))"

definition signed_max :: "nat \<Rightarrow> int" where
  "signed_max bits = (if bits = 64 then INT64_MAX else 2 ^ (bits - 1) - 1)"

definition signed_wrap :: "int \<Rightarrow> int \<Rightarrow> nat \<Rightarrow> int" where
  "signed_wrap value incr bits =
     (let msb = push_bit (bits - 1) 1;
          c = (word_of_int value + word_of_int incr :: u64)
      in sint (if bits < 64 then
                 let mask = push_bit bits (- 1)
                 in if c AND msb \<noteq> 0 then c OR mask else c AND NOT mask
               else c))"

definition checkSignedBitfieldOverflow ::
  "int \<Rightarrow> int \<Rightarrow> nat \<Rightarrow> bfoverflow \<Rightarrow> bool \<Rightarrow> int \<times> int option" where
  "checkSignedBitfieldOverflow value incr bits owtype limit =
     (let max = signed_max bits;
          min = - max - 1;
          maxincr = sint (word_of_int (max - value) :: u64);
          minincr = sint (word_of_int (min - value) :: u64);
          handle_wrap = (1, Some (signed_wrap value incr bits))
      in if value > max \<or> (bits \<noteq> 64 \<and> incr > maxincr) \<or> (value \<ge> 0 \<and> incr > 0 \<and> incr > maxincr) then
           (if limit then
              (case owtype of
                 BFOVERFLOW_WRAP \<Rightarrow> handle_wrap
               | BFOVERFLOW_SAT \<Rightarrow> (1, Some max)
               | BFOVERFLOW_FAIL \<Rightarrow> (1, None))
            else (1, None))
         else if value < min \<or> (bits \<noteq> 64 \<and> incr < minincr) \<or> (value < 0 \<and> incr < 0 \<and> incr < minincr) then
           (if limit then
              (case owtype of
                 BFOVERFLOW_WRAP \<Rightarrow> handle_wrap
               | BFOVERFLOW_SAT \<Rightarrow> (- 1, Some min)
               | BFOVERFLOW_FAIL \<Rightarrow> (- 1, None))
            else (- 1, None))
         else (0, None))"

section \<open>Searching a bit\<close>

text \<open>
  \<open>redisBitpos\<close> on the first \<open>count\<close> bytes of the block; \<open>addr\<close> is the
  address of the block, which decides how many bytes are read before the first aligned word.
  A word is compared as a whole, so its byte order does not matter there.
\<close>

fun bitpos_bytes :: "bytes \<Rightarrow> nat \<Rightarrow> nat \<Rightarrow> nat \<Rightarrow> byte \<Rightarrow> nat \<Rightarrow> (bool \<times> nat \<times> nat \<times> nat) option" where
  "bitpos_bytes s addr c 0 skipval pos = Some (False, c, 0, pos)"
| "bitpos_bytes s addr c (Suc count) skipval pos =
     (if (addr + c) AND 7 \<noteq> 0 then do {
        b \<leftarrow> mem_byte s c;
        if b \<noteq> skipval then Some (True, c, Suc count, pos)
        else bitpos_bytes s addr (c + 1) count skipval (pos + 8)
      }
      else Some (False, c, Suc count, pos))"

function bitpos_words :: "bytes \<Rightarrow> nat \<Rightarrow> nat \<Rightarrow> byte \<Rightarrow> nat \<Rightarrow> (nat \<times> nat \<times> nat) option" where
  "bitpos_words s l count skipval pos =
     (if count \<ge> 8 then do {
        w \<leftarrow> mem_get s l 8;
        if w \<noteq> replicate 8 skipval then Some (l, count, pos)
        else bitpos_words s (l + 8) (count - 8) skipval (pos + 64)
      }
      else Some (l, count, pos))"
  by pat_completeness auto
termination by (relation "measure (\<lambda>(s, l, count, skipval, pos). count)") auto

fun bitpos_load :: "bytes \<Rightarrow> nat \<Rightarrow> nat \<Rightarrow> nat \<Rightarrow> u64 \<Rightarrow> u64 option" where
  "bitpos_load s c count 0 word = Some word"
| "bitpos_load s c count (Suc j) word =
     (let word = push_bit 8 word
      in if count \<noteq> 0 then do {
           b \<leftarrow> mem_byte s c;
           bitpos_load s (c + 1) (count - 1) j (word OR ucast b)
         }
         else bitpos_load s c count j word)"

text \<open>The scan of the last word, \<open>one\<close> being the bit \<open>k\<close>; \<open>None\<close> is the panic.\<close>

fun bitpos_scan :: "u64 \<Rightarrow> bool \<Rightarrow> nat \<Rightarrow> nat \<Rightarrow> int option" where
  "bitpos_scan word bt 0 pos = None"
| "bitpos_scan word bt (Suc k) pos =
     (if (push_bit k 1 AND word \<noteq> 0) = bt then Some (int pos)
      else bitpos_scan word bt k (pos + 1))"

definition redisBitpos :: "bytes \<Rightarrow> nat \<Rightarrow> nat \<Rightarrow> bool \<Rightarrow> int option" where
  "redisBitpos s addr count bt = do {
     let skipval = (if bt then 0 else 0xFF);
     (found, c, count, pos) \<leftarrow> bitpos_bytes s addr 0 count skipval 0;
     (l, count, pos) \<leftarrow> (if \<not> found then bitpos_words s c count skipval pos else Some (c, count, pos));
     word \<leftarrow> bitpos_load s l count 8 0;
     if bt \<and> word = 0 then Some (- 1)
     else bitpos_scan word bt 64 pos
   }"

declare bitpos_words.simps [simp del]

section \<open>The bits of a bitmap\<close>

definition bitmap :: "bytes \<Rightarrow> nat \<Rightarrow> bool" where
  "bitmap p i = bit (p ! (i div 8)) (7 - i mod 8)"

lemma and7: "(x :: nat) AND 7 = x mod 8"
  using take_bit_eq_mask[of 3 x] by (simp add: take_bit_eq_mod mask_eq_exp_minus_1)

lemma set_bit_byte:
  fixes b :: byte
  assumes "k < 8"
  shows "bit ((b AND NOT (push_bit k 1)) OR push_bit k (if v then 1 else 0)) i =
    (if i = k then v else bit b i)"
  using assms bit_imp_le_length[of b i] by (auto simp: bit_simps)

lemma same_bit: "i = j \<longleftrightarrow> i div 8 = j div 8 \<and> 7 - i mod 8 = 7 - j mod (8::nat)"
proof
  assume a: "i div 8 = j div 8 \<and> 7 - i mod 8 = 7 - j mod 8"
  have "i mod 8 \<le> 7" "j mod 8 \<le> 7" by simp_all
  then have "i mod 8 = j mod 8" using a diff_diff_cancel by metis
  then show "i = j" using a by (metis div_mult_mod_eq)
qed simp

lemma set_step:
  fixes v :: bool
  assumes "d = j div 8" "k = 7 - j mod 8" "d < length p"
  shows "bitmap (p[d := (p ! d AND NOT (push_bit k 1)) OR push_bit k (if v then 1 else 0)]) i =
    (if i = j then v else bitmap p i)"
proof (cases "i div 8 = d")
  case True
  have "k < 8" using assms(2) by simp
  then show ?thesis
    using True assms set_bit_byte[of k "p ! d" v "7 - i mod 8"] same_bit[of i j]
    by (simp add: bitmap_def)
next
  case False
  then show ?thesis using assms same_bit[of i j] by (simp add: bitmap_def)
qed

lemma mem_put_list_update: "i < length p \<Longrightarrow> mem_put p i [b] = Some (p[i := b])"
  by (simp add: mem_put_def upd_conv_take_nth_drop)

lemma bit_and_single: "(v :: u64) AND push_bit n 1 \<noteq> 0 \<longleftrightarrow> n < 64 \<and> bit v n"
proof -
  have "v AND push_bit n 1 = (if bit v n then push_bit n 1 else 0)"
    by (rule bit_word_eqI) (auto simp: bit_simps)
  moreover have "push_bit n 1 \<noteq> (0 :: u64) \<longleftrightarrow> n < 64"
    by (simp add: push_bit_eq_mult not_le)
  ultimately show ?thesis using bit_imp_le_length[of v n] by auto
qed

lemma and_pow: "(v :: u64) AND 2 ^ n = 0 \<longleftrightarrow> \<not> bit v n"
  using bit_and_single[of v n] bit_imp_le_length[of v n] by (auto simp: push_bit_eq_mult)

lemma set_bits_loop_ok:
  assumes "offset + n \<le> 8 * length p"
  shows "\<exists>p'. set_bits_loop p offset n value = Some p' \<and> length p' = length p \<and>
    (\<forall>i. bitmap p' i = (if offset \<le> i \<and> i < offset + n then bit value (offset + n - 1 - i) else bitmap p i))"
  using assms
proof (induction n arbitrary: p offset)
  case (Suc n)
  have d: "offset div 8 < length p" using Suc.prems by linarith
  define p1 where "p1 = p[offset div 8 := (p ! (offset div 8) AND NOT (push_bit (7 - offset mod 8) 1)) OR
      push_bit (7 - offset mod 8) (if bit value n then 1 else 0)]"
  have n64: "n < 64 \<and> bit value n \<longleftrightarrow> bit value n" using bit_imp_le_length[of "value" n] by auto
  have step: "set_bits_loop p offset (Suc n) value = set_bits_loop p1 (offset + 1) n value"
    using d by (simp add: mem_byte_def mem_put_list_update p1_def and7 and_pow Let_def
        drop_bit_eq_div)
  have b1: "bitmap p1 i = (if i = offset then bit value n else bitmap p i)" for i
    unfolding p1_def using set_step[OF refl refl d] by simp
  have "(offset + 1) + n \<le> 8 * length p1" using Suc.prems by (simp add: p1_def)
  from Suc.IH[OF this] obtain p' where p': "set_bits_loop p1 (offset + 1) n value = Some p'"
    "length p' = length p1"
    "\<forall>i. bitmap p' i = (if offset + 1 \<le> i \<and> i < offset + 1 + n then bit value (offset + 1 + n - 1 - i) else bitmap p1 i)"
    by blast
  have "bitmap p' i = (if offset \<le> i \<and> i < offset + Suc n then bit value (offset + Suc n - 1 - i) else bitmap p i)" for i
    using p'(3) b1[of i] by (auto simp: not_less_eq_eq)
  then show ?case using step p' by (simp add: p1_def)
qed auto

lemma bit_shift_in:
  "bit (push_bit 1 (v :: u64) OR (x AND 1)) k \<longleftrightarrow> k < 64 \<and> (if k = 0 then bit x 0 else bit v (k - 1))"
proof -
  have "bit (push_bit 1 v) k \<longleftrightarrow> k < 64 \<and> 1 \<le> k \<and> bit v (k - 1)"
    unfolding bit_push_bit_iff by auto
  moreover have "bit (x AND 1) k \<longleftrightarrow> k = 0 \<and> bit x 0"
    by (auto simp: bit_and_iff bit_1_iff)
  ultimately show ?thesis unfolding bit_or_iff by auto
qed

lemma get_bits_loop_ok:
  assumes "offset + n \<le> 8 * length p"
  shows "\<exists>r. get_bits_loop p offset n value = Some r \<and>
    (\<forall>k. bit r k \<longleftrightarrow> k < 64 \<and> (if k < n then bitmap p (offset + n - 1 - k) else bit value (k - n)))"
  using assms
proof (induction n arbitrary: offset "value")
  case 0
  have "bit value k \<longleftrightarrow> k < 64 \<and> bit value k" for k using bit_imp_le_length[of "value" k] by auto
  then show ?case by simp
next
  case (Suc n)
  have d: "offset div 8 < length p" using Suc.prems by linarith
  define v1 where "v1 = push_bit 1 value OR (drop_bit (7 - offset mod 8) (ucast (p ! (offset div 8))) AND 1)"
  have step: "get_bits_loop p offset (Suc n) value = get_bits_loop p (offset + 1) n v1"
    using d unfolding v1_def get_bits_loop.simps Let_def and7
    by (simp only: mem_byte_def drop_bit_eq_div[of 3] if_True Option.bind_lunit) simp
  have b1: "bit v1 k \<longleftrightarrow> k < 64 \<and> (if k = 0 then bitmap p offset else bit value (k - 1))" for k
    unfolding v1_def bit_shift_in bitmap_def bit_drop_bit_eq o_def bit_ucast_iff by auto
  obtain r where r: "get_bits_loop p (offset + 1) n v1 = Some r"
    "\<forall>k. bit r k \<longleftrightarrow> k < 64 \<and> (if k < n then bitmap p (offset + 1 + n - 1 - k) else bit v1 (k - n))"
    using Suc.IH[of "offset + 1" v1] Suc.prems by auto
  have "bit r k \<longleftrightarrow> k < 64 \<and> (if k < Suc n then bitmap p (offset + Suc n - 1 - k) else bit value (k - Suc n))" for k
  proof -
    consider "k < n" | "k = n" | "n < k" by linarith
    then show ?thesis
    proof cases
      case 3
      then have "k - n - 1 = k - Suc n" "k - n \<noteq> 0" by auto
      then show ?thesis using 3 spec[OF r(2), of k] b1[of "k - n"] less_imp_diff_less[of k 64 n]
        by (cases "k < 64") simp_all
    qed (use spec[OF r(2), of k] b1[of "k - n"] in auto)
  qed
  then show ?case using step r(1) by auto
qed


lemma bitfield_frame:
  assumes "offset + bits \<le> 8 * length p"
  shows "\<exists>p'. setUnsignedBitfield p offset bits v = Some p' \<and> length p' = length p \<and>
    (\<forall>o2 b2. o2 + b2 \<le> 8 * length p \<and> (o2 + b2 \<le> offset \<or> offset + bits \<le> o2) \<longrightarrow>
       getUnsignedBitfield p' o2 b2 = getUnsignedBitfield p o2 b2) \<and>
    (bits \<le> 64 \<longrightarrow> getUnsignedBitfield p' offset bits = Some (take_bit bits v))"
proof -
  obtain p' where p': "set_bits_loop p offset bits v = Some p'" "length p' = length p"
    and b: "\<And>i. bitmap p' i = (if offset \<le> i \<and> i < offset + bits then bit v (offset + bits - 1 - i) else bitmap p i)"
    using set_bits_loop_ok[OF assms, of v] by blast
  have fr: "getUnsignedBitfield p' o2 b2 = getUnsignedBitfield p o2 b2"
    if in2: "o2 + b2 \<le> 8 * length p" and dj: "o2 + b2 \<le> offset \<or> offset + bits \<le> o2" for o2 b2
  proof -
    obtain r where r: "get_bits_loop p o2 b2 0 = Some r"
      "\<And>k. bit r k \<longleftrightarrow> k < 64 \<and> (if k < b2 then bitmap p (o2 + b2 - 1 - k) else bit (0 :: u64) (k - b2))"
      using get_bits_loop_ok[OF in2, of 0] by blast
    have "o2 + b2 \<le> 8 * length p'" using in2 p'(2) by simp
    then obtain r' where r': "get_bits_loop p' o2 b2 0 = Some r'"
      "\<And>k. bit r' k \<longleftrightarrow> k < 64 \<and> (if k < b2 then bitmap p' (o2 + b2 - 1 - k) else bit (0 :: u64) (k - b2))"
      using get_bits_loop_ok[of o2 b2 p' 0] by blast
    have "bitmap p' (o2 + b2 - 1 - k) = bitmap p (o2 + b2 - 1 - k)" if "k < b2" for k
    proof -
      have "\<not> (offset \<le> o2 + b2 - 1 - k \<and> o2 + b2 - 1 - k < offset + bits)"
        using that dj by linarith
      then show ?thesis unfolding b by (simp only: if_False)
    qed
    then have "r' = r" by (intro bit_word_eqI) (simp add: r(2) r'(2))
    then show ?thesis using r(1) r'(1) by (simp add: getUnsignedBitfield_def)
  qed
  have rd: "getUnsignedBitfield p' offset bits = Some (take_bit bits v)" if "bits \<le> 64"
  proof -
    have "offset + bits \<le> 8 * length p'" using assms p'(2) by simp
    then obtain r where r: "get_bits_loop p' offset bits 0 = Some r"
      "\<And>k. bit r k \<longleftrightarrow> k < 64 \<and> (if k < bits then bitmap p' (offset + bits - 1 - k) else bit (0 :: u64) (k - bits))"
      using get_bits_loop_ok[of offset bits p' 0] by blast
    have "bit r k = bit (take_bit bits v) k" if "k < 64" for k
    proof (cases "k < bits")
      case True
      then have "offset + bits - 1 - (offset + bits - 1 - k) = k" by linarith
      moreover have "offset \<le> offset + bits - 1 - k \<and> offset + bits - 1 - k < offset + bits"
        using True by linarith
      ultimately show ?thesis using True that unfolding r(2) b
        by (simp only: if_True bit_take_bit_iff simp_thms)
    qed (simp add: r(2) bit_take_bit_iff)
    then have "r = take_bit bits v" by (intro bit_word_eqI) simp
    then show ?thesis using r(1) by (simp add: getUnsignedBitfield_def)
  qed
  show ?thesis using p' fr rd by (auto simp: setUnsignedBitfield_def)
qed

lemma bit_in_sbits:
  assumes "0 < bits" "in_sbits bits x" "bits - 1 \<le> n"
  shows "bit x n = bit x (bits - 1)"
proof -
  have "signed_take_bit (bits - 1) x = x"
    using assms by (simp add: in_sbits_def signed_take_bit_int_eq_self)
  then show ?thesis using bit_signed_take_bit_iff[of "bits - 1" x n] assms(3)
    by (simp add: min_absorb1)
qed

lemma sign_extend:
  assumes "0 < bits" "bits \<le> 64" "in_sbits bits x"
  shows "(let v = take_bit bits (word_of_int x :: u64)
     in if bits < 64 \<and> v AND push_bit (bits - 1) 1 \<noteq> 0 then v OR push_bit bits (- 1) else v) = word_of_int x"
proof -
  let ?v = "take_bit bits (word_of_int x :: u64)"
  have t: "?v AND push_bit (bits - 1) 1 \<noteq> 0 \<longleftrightarrow> bit x (bits - 1)"
    unfolding bit_and_single using assms by (auto simp: bit_take_bit_iff bit_of_int_iff)
  have m: "bit (push_bit bits (- 1) :: u64) n \<longleftrightarrow> bits \<le> n" if "n < 64" for n
    using that by (simp only: bit_push_bit_iff bit_minus_1_iff) auto
  have "bit (if bits < 64 \<and> bit x (bits - 1) then ?v OR push_bit bits (- 1) else ?v) n =
      bit (word_of_int x :: u64) n" if n: "n < 64" for n
  proof (cases "n < bits")
    case True
    then show ?thesis using n m[OF n] by (simp only: bit_or_iff bit_take_bit_iff split: if_split) auto
  next
    case False
    then have "bit x n = bit x (bits - 1)" using assms by (intro bit_in_sbits) auto
    moreover have "bits < 64" using False n by simp
    moreover have "bit (word_of_int x :: u64) n = bit x n" using n by (simp add: bit_of_int_iff)
    ultimately show ?thesis using False n m[OF n]
      by (simp only: bit_or_iff bit_take_bit_iff split: if_split) auto
  qed
  then show ?thesis unfolding Let_def t by (intro bit_word_eqI) simp
qed

lemma sint_word_of_int_64: "in_sbits 64 x \<Longrightarrow> sint (word_of_int x :: u64) = x"
  by (simp add: sint_sbintrunc' signed_take_bit_int_eq_self in_sbits_def)

lemma in_sbits_mono: "in_sbits w x \<Longrightarrow> 0 < w \<Longrightarrow> w \<le> v \<Longrightarrow> in_sbits v x"
proof -
  assume a: "in_sbits w x" "0 < w" "w \<le> v"
  then have "(2::int) ^ (w - 1) \<le> 2 ^ (v - 1)" by (intro power_increasing) auto
  then show "in_sbits v x" using a(1) unfolding in_sbits_def by linarith
qed


text \<open>
  (C32) A signed or unsigned integer written to a bit field of at most 64 bits is read back
  unchanged, every field that does not overlap it keeps its value, and no memory outside the
  bitmap is touched.
\<close>

theorem bitfield_roundtrip:
  assumes "offset + bits \<le> 8 * length p" "0 < bits" "bits \<le> 64" "in_sbits bits x"
  shows "\<exists>p'. setSignedBitfield p offset bits x = Some p' \<and> length p' = length p \<and>
    getSignedBitfield p' offset bits = Some x \<and>
    getUnsignedBitfield p' offset bits = Some (take_bit bits (word_of_int x)) \<and>
    (\<forall>o2 b2. o2 + b2 \<le> 8 * length p \<and> (o2 + b2 \<le> offset \<or> offset + bits \<le> o2) \<longrightarrow>
       getUnsignedBitfield p' o2 b2 = getUnsignedBitfield p o2 b2)"
proof -
  have "sint (word_of_int x :: u64) = x"
    using assms in_sbits_mono[of bits x 64] by (intro sint_word_of_int_64) auto
  then show ?thesis
    using bitfield_frame[OF assms(1), of "word_of_int x"] assms sign_extend[OF assms(2-4)]
    by (auto simp: setSignedBitfield_def getSignedBitfield_def Let_def)
qed

theorem bitfield_roundtrip_witness:
  "\<exists>p'. setSignedBitfield [0xAA, 0xAA, 0xAA] 5 7 (- 60) = Some p' \<and> length p' = length [0xAA, 0xAA, 0xAA :: byte] \<and>
    getSignedBitfield p' 5 7 = Some (- 60) \<and>
    getUnsignedBitfield p' 5 7 = Some (take_bit 7 (word_of_int (- 60))) \<and>
    (\<forall>o2 b2. o2 + b2 \<le> 8 * length [0xAA, 0xAA, 0xAA :: byte] \<and> (o2 + b2 \<le> 5 \<or> 5 + 7 \<le> o2) \<longrightarrow>
       getUnsignedBitfield p' o2 b2 = getUnsignedBitfield [0xAA, 0xAA, 0xAA] o2 b2)"
  by (rule bitfield_roundtrip) (simp_all add: in_sbits_def)

lemma unsigned_max_eq: "bits \<le> 63 \<Longrightarrow> uint (unsigned_max bits) = 2 ^ bits - 1"
proof -
  assume b: "bits \<le> 63"
  have e: "unsigned_max bits = word_of_int (2 ^ bits - 1)"
    using b by (simp add: unsigned_max_def push_bit_eq_mult)
  have "(2::int) ^ bits \<le> 2 ^ 63" using b by (intro power_increasing) auto
  then have "(2::int) ^ bits - 1 < 2 ^ 64" "0 \<le> (2::int) ^ bits - 1" by simp_all
  then have "take_bit 64 ((2::int) ^ bits - 1) = 2 ^ bits - 1" by (simp add: take_bit_int_eq_self)
  moreover have "uint (word_of_int (2 ^ bits - 1) :: u64) = take_bit 64 (2 ^ bits - 1)"
    unfolding unsigned_of_int by simp
  ultimately show ?thesis unfolding e by simp
qed

lemma wrap_mask: "bits \<le> 63 \<Longrightarrow> (x :: u64) AND NOT (push_bit bits (- 1)) = take_bit bits x"
  by (rule bit_word_eqI) (auto simp: bit_and_iff bit_not_iff bit_push_bit_iff bit_take_bit_iff bit_mask_iff)


lemma in_range_63: "bits \<le> 63 \<Longrightarrow> (2::int) ^ bits \<le> 2 ^ 63"
  by (intro power_increasing) auto

text \<open>
  What an overflow check should return for the range from \<open>lo\<close> to \<open>hi\<close> and a sum:
  0 inside the range, else the sign of the overflow with the nearer bound (saturation), or 1 with the
  sum reduced to the range (wrap).
\<close>

definition overflow_spec ::
  "int \<Rightarrow> int \<Rightarrow> (int \<Rightarrow> int) \<Rightarrow> bfoverflow \<Rightarrow> bool \<Rightarrow> int \<Rightarrow> int \<times> int option" where
  "overflow_spec lo hi reduce ow limit s =
     (if lo \<le> s \<and> s \<le> hi then (0, None)
      else if limit \<and> ow = BFOVERFLOW_WRAP then (1, Some (reduce s))
      else (if s < lo then - 1 else 1,
            if limit \<and> ow = BFOVERFLOW_SAT then Some (if s < lo then lo else hi) else None))"

lemma uint_wrap:
  assumes "bits \<le> 63"
  shows "uint (take_bit bits (value + word_of_int incr :: u64)) = (uint value + incr) mod 2 ^ bits"
proof -
  have "value + word_of_int incr = word_of_int (uint value + incr)" by simp
  then have "uint (take_bit bits (value + word_of_int incr :: u64)) = take_bit bits (take_bit 64 (uint value + incr))"
    by (simp only: unsigned_take_bit_eq unsigned_of_int) simp
  also have "\<dots> = take_bit bits (uint value + incr)" using assms by (simp add: min_def)
  finally show ?thesis by (simp only: take_bit_eq_mod)
qed

lemma unsigned_check_spec:
  assumes "bits \<le> 63" "value \<le> unsigned_max bits" "in_sbits 64 incr"
  shows "apsnd (map_option uint) (checkUnsignedBitfieldOverflow value incr bits ow limit) =
    overflow_spec 0 (2 ^ bits - 1) (\<lambda>x. x mod 2 ^ bits) ow limit (uint value + incr)"
proof -
  have v: "uint value \<le> 2 ^ bits - 1" using assms(1,2) unsigned_max_eq by (simp add: word_le_def)
  have p: "(2::int) ^ bits \<le> 9223372036854775808" using in_range_63[OF assms(1)] by simp
  have nn: "0 \<le> uint value" by simp
  have ma: "sint (unsigned_max bits - value) = 2 ^ bits - 1 - uint value"
  proof -
    have "unsigned_max bits - value = word_of_int (2 ^ bits - 1 - uint value)"
      using unsigned_max_eq[OF assms(1)] by (metis of_int_diff word_of_int_uint)
    moreover have "in_sbits 64 (2 ^ bits - 1 - uint value)"
    proof -
      have "2 ^ bits - 1 - uint value \<le> 9223372036854775807" using p nn by linarith
      moreover have "- 9223372036854775808 \<le> 2 ^ bits - 1 - uint value" using v by linarith
      ultimately show ?thesis by (simp add: in_sbits_def)
    qed
    ultimately show ?thesis using sint_word_of_int_64 by metis
  qed
  have mi: "sint (- value) = - uint value"
  proof -
    have "- value = word_of_int (- uint value)" by simp
    moreover have "in_sbits 64 (- uint value)"
    proof -
      have "- uint value < 9223372036854775808" using nn by linarith
      moreover have "- 9223372036854775808 \<le> - uint value" using v p by linarith
      ultimately show ?thesis by (simp add: in_sbits_def)
    qed
    ultimately show ?thesis using sint_word_of_int_64 by metis
  qed
  have c1: "value > unsigned_max bits \<or> (incr > 0 \<and> incr > 2 ^ bits - 1 - uint value) \<longleftrightarrow> uint value + incr > 2 ^ bits - 1"
    using assms(2) v by auto
  have c2: "incr < 0 \<and> incr < - uint value \<longleftrightarrow> uint value + incr < 0"
  proof
    assume "uint value + incr < 0"
    then show "incr < 0 \<and> incr < - uint value" using nn by (intro conjI; linarith)
  qed auto
  have "0 < (2::int) ^ bits" by simp
  then have ex: "\<not> (2 ^ bits - 1 < uint value + incr \<and> uint value + incr < 0)" by linarith
  show ?thesis
    unfolding checkUnsignedBitfieldOverflow_def Let_def ma mi c1 c2 wrap_mask[OF assms(1)] overflow_spec_def
    using ex unsigned_max_eq[OF assms(1)] uint_wrap[OF assms(1), of "value" incr] by (cases ow; cases limit) auto
qed

lemma unsigned_set_spec:
  assumes "bits \<le> 63"
  shows "apsnd (map_option uint) (checkUnsignedBitfieldOverflow value 0 bits ow limit) =
    overflow_spec 0 (2 ^ bits - 1) (\<lambda>x. x mod 2 ^ bits) ow limit (uint value)"
proof (cases "value \<le> unsigned_max bits")
  case True
  then show ?thesis using unsigned_check_spec[OF assms True, of 0 ow limit] by (simp add: in_sbits_def)
next
  case False
  then have big: "value > unsigned_max bits" "2 ^ bits - 1 < uint value"
    using unsigned_max_eq[OF assms] by (simp_all add: word_le_def word_less_def)
  have nn: "0 \<le> uint value" by simp
  show ?thesis
    unfolding checkUnsignedBitfieldOverflow_def Let_def wrap_mask[OF assms] overflow_spec_def
    using big nn unsigned_max_eq[OF assms] uint_wrap[OF assms, of "value" 0] by (cases ow; cases limit) auto
qed


definition wrap_int :: "nat \<Rightarrow> int \<Rightarrow> int" where
  "wrap_int bits v = (v + 2 ^ (bits - 1)) mod 2 ^ bits - 2 ^ (bits - 1)"

lemma wrap_int_in: "0 < bits \<Longrightarrow> in_sbits bits (wrap_int bits v)"
proof -
  assume b: "0 < bits"
  have "(2::int) ^ bits = 2 * 2 ^ (bits - 1)" using b by (cases bits) auto
  moreover have "(v + 2 ^ (bits - 1)) mod 2 ^ bits < 2 ^ bits" "0 \<le> (v + 2 ^ (bits - 1)) mod 2 ^ bits" by simp_all
  ultimately show ?thesis unfolding wrap_int_def in_sbits_def by linarith
qed

lemma wrap_int_mod: "wrap_int bits v mod 2 ^ bits = v mod 2 ^ bits"
  unfolding wrap_int_def by (metis add_diff_cancel_right' mod_diff_left_eq)

lemma take_bit_word_cong:
  assumes "a mod 2 ^ bits = b mod (2 ^ bits :: int)"
  shows "take_bit bits (word_of_int a :: u64) = take_bit bits (word_of_int b)"
proof (rule bit_word_eqI)
  fix n assume "n < LENGTH(64)"
  then have "bit (word_of_int c :: u64) n = bit c n" for c :: int by (simp add: bit_of_int_iff)
  moreover have "n < bits \<Longrightarrow> bit a n = bit b n"
    using assms by (metis bit_take_bit_iff take_bit_eq_mod)
  ultimately show "bit (take_bit bits (word_of_int a :: u64)) n = bit (take_bit bits (word_of_int b :: u64)) n"
    by (auto simp only: bit_take_bit_iff)
qed

lemma signed_wrap_eq:
  assumes "0 < bits" "bits \<le> 64"
  shows "signed_wrap value incr bits = wrap_int bits (value + incr)"
proof -
  let ?c = "word_of_int (value + incr) :: u64" and ?r = "wrap_int bits (value + incr)"
  let ?v = "take_bit bits ?c"
  have t: "?v = take_bit bits (word_of_int ?r)"
    by (rule take_bit_word_cong) (simp add: wrap_int_mod)
  have m: "?c AND push_bit (bits - 1) 1 \<noteq> 0 \<longleftrightarrow> ?v AND push_bit (bits - 1) 1 \<noteq> 0"
    unfolding bit_and_single using assms by (simp add: bit_take_bit_iff)
  have "(if bits < 64 then if ?c AND push_bit (bits - 1) 1 \<noteq> 0 then ?c OR push_bit bits (- 1) else ?c AND NOT (push_bit bits (- 1)) else ?c)
      = (if bits < 64 \<and> ?v AND push_bit (bits - 1) 1 \<noteq> 0 then ?v OR push_bit bits (- 1) else ?v)"
  proof (cases "bits < 64")
    case True
    have "?c OR push_bit bits (- 1) = ?v OR push_bit bits (- 1)"
      by (rule bit_word_eqI) (auto simp: bit_or_iff bit_take_bit_iff bit_not_iff bit_mask_iff)
    then show ?thesis unfolding m using True wrap_mask[of bits ?c] by simp
  next
    case False
    then have "?v = ?c" using assms by (simp add: take_bit_word_eq_self)
    then show ?thesis using False by simp
  qed
  also have "\<dots> = word_of_int ?r"
    using sign_extend[OF assms wrap_int_in[OF assms(1)], of "value + incr"] unfolding t Let_def .
  finally have "signed_wrap value incr bits = sint (word_of_int ?r :: u64)"
    unfolding signed_wrap_def Let_def by (simp only: of_int_add)
  then show ?thesis
    using wrap_int_in[OF assms(1)] in_sbits_mono[of bits ?r 64] assms sint_word_of_int_64 by simp
qed


lemma signed_max_eq: "0 < bits \<Longrightarrow> bits \<le> 64 \<Longrightarrow> signed_max bits = 2 ^ (bits - 1) - 1"
  by (simp add: signed_max_def)

lemma signed_check_spec:
  assumes "0 < bits" "bits \<le> 64" "in_sbits bits v" "in_sbits 64 incr"
  shows "checkSignedBitfieldOverflow v incr bits ow limit =
    overflow_spec (- (2 ^ (bits - 1))) (2 ^ (bits - 1) - 1) (wrap_int bits) ow limit (v + incr)"
proof -
  define M :: int where "M = signed_max bits"
  have r: "- M - 1 \<le> v" "v \<le> M" using assms(3) signed_max_eq[OF assms(1,2)]
    by (auto simp: M_def in_sbits_def)
  have i: "- 9223372036854775808 \<le> incr" "incr < 9223372036854775808"
    using assms(4) by (auto simp: in_sbits_def)
  have M0: "0 \<le> M" unfolding M_def signed_max_eq[OF assms(1,2)] by simp
  have M63: "bits \<noteq> 64 \<Longrightarrow> 2 * M + 1 \<le> 9223372036854775807"
  proof -
    assume "bits \<noteq> 64"
    then have "(2::int) ^ (bits - 1) \<le> 2 ^ 62" using assms by (intro power_increasing) auto
    then show ?thesis unfolding M_def signed_max_eq[OF assms(1,2)] by simp
  qed
  have M64: "bits = 64 \<Longrightarrow> M = 9223372036854775807" by (simp add: M_def signed_max_def)
  have ex: "sint (word_of_int x :: u64) = x" if "- 9223372036854775808 \<le> x" "x < 9223372036854775808" for x
    using that sint_word_of_int_64[of x] by (simp add: in_sbits_def)
  define a where "a = sint (word_of_int (M - v) :: u64)"
  define b where "b = sint (word_of_int (- M - 1 - v) :: u64)"
  have a: "bits \<noteq> 64 \<or> 0 \<le> v \<Longrightarrow> a = M - v"
    unfolding a_def using r M63 M64 M0 by (intro ex; cases "bits = 64") linarith+
  have b: "bits \<noteq> 64 \<or> v < 0 \<Longrightarrow> b = - M - 1 - v"
    unfolding b_def using r M63 M64 M0 by (intro ex; cases "bits = 64") linarith+
  have c1: "v > M \<or> (bits \<noteq> 64 \<and> incr > a) \<or> (v \<ge> 0 \<and> incr > 0 \<and> incr > a) \<longleftrightarrow> v + incr > M"
    using a r i M64 by (cases "bits = 64"; cases "0 \<le> v") auto
  have c2: "v < - M - 1 \<or> (bits \<noteq> 64 \<and> incr < b) \<or> (v < 0 \<and> incr < 0 \<and> incr < b) \<longleftrightarrow> v + incr < - M - 1"
    using b r i M64 by (cases "bits = 64"; cases "v < 0") auto
  have lo: "- (2 ^ (bits - 1)) = - M - 1" and hi: "2 ^ (bits - 1) - 1 = M"
    unfolding M_def signed_max_eq[OF assms(1,2)] by simp_all
  show ?thesis
    unfolding checkSignedBitfieldOverflow_def Let_def M_def[symmetric] a_def[symmetric] b_def[symmetric]
      c1 c2 signed_wrap_eq[OF assms(1,2)] overflow_spec_def lo hi
    using M0 by (cases ow; cases limit) auto
qed

text \<open>
  A value to be stored, with increment 0. The code computes \<open>max - value\<close> in 64 bits and uses it
  before it has compared the value with the minimum.
\<close>

lemma signed_set_spec:
  assumes "0 < bits" "bits \<le> 64" "in_sbits 64 v"
  shows "checkSignedBitfieldOverflow v 0 bits ow limit =
    (if bits < 64 \<and> v < 2 ^ (bits - 1) - 2 ^ 63
     then (1, if \<not> limit then None
              else case ow of BFOVERFLOW_WRAP \<Rightarrow> Some (wrap_int bits v)
                   | BFOVERFLOW_SAT \<Rightarrow> Some (2 ^ (bits - 1) - 1) | BFOVERFLOW_FAIL \<Rightarrow> None)
     else overflow_spec (- (2 ^ (bits - 1))) (2 ^ (bits - 1) - 1) (wrap_int bits) ow limit v)"
proof (cases "bits = 64")
  case True
  then show ?thesis using signed_check_spec[OF assms(1,2), of v 0 ow limit] assms(3) by (simp add: in_sbits_def)
next
  case False
  define M :: int where "M = 2 ^ (bits - 1) - 1"
  have M: "signed_max bits = M" unfolding M_def using signed_max_eq[OF assms(1,2)] .
  have lo: "- (2 ^ (bits - 1)) = - M - 1" and hi: "2 ^ (bits - 1) - 1 = M" and th: "2 ^ (bits - 1) - 2 ^ 63 = M + 1 - 2 ^ 63"
    by (simp_all add: M_def)
  have "(2::int) ^ (bits - 1) \<le> 2 ^ 62" using assms False by (intro power_increasing) auto
  then have M62: "0 \<le> M" "M + 1 \<le> 4611686018427387904" by (simp_all add: M_def)
  have v: "- 9223372036854775808 \<le> v" "v < 9223372036854775808" using assms(3) by (auto simp: in_sbits_def)
  have ex: "sint (word_of_int x :: u64) = x" if "- 9223372036854775808 \<le> x" "x < 9223372036854775808" for x
    using that sint_word_of_int_64[of x] by (simp add: in_sbits_def)
  show ?thesis
  proof (cases "v < M + 1 - 9223372036854775808")
    case True
    have "word_of_int (M - v) = (word_of_int (M - v - 18446744073709551616) :: u64)"
      by (rule word_of_int_eq_iff[THEN iffD2]) (simp add: take_bit_eq_mod)
    then have "sint (word_of_int (M - v) :: u64) = M - v - 18446744073709551616"
      using ex[of "M - v - 18446744073709551616"] True v M62 by presburger
    then have "sint (word_of_int (M - v) :: u64) < 0" using v M62 by linarith
    then show ?thesis
      unfolding checkSignedBitfieldOverflow_def Let_def M lo hi th signed_wrap_eq[OF assms(1,2)]
      using True False assms(2) by (cases ow; cases limit) simp_all
  next
    case F: False
    have a: "sint (word_of_int (M - v) :: u64) = M - v" using F v M62 by (intro ex) linarith+
    have b: "v \<le> M \<Longrightarrow> sint (word_of_int (- M - 1 - v) :: u64) = - M - 1 - v" using F v M62 by (intro ex) linarith+
    show ?thesis
      unfolding checkSignedBitfieldOverflow_def Let_def M lo hi th signed_wrap_eq[OF assms(1,2)] a overflow_spec_def
      using b F False M62 by (cases "v \<le> M"; cases ow; cases limit) auto
  qed
qed

text \<open>
  (C33) The overflow checks of \<open>BITFIELD INCRBY\<close> are exact. For an unsigned field of at most 63
  bits and a signed one of at most 64 that hold a value of the field, the result is 0 and nothing is
  stored just when the sum fits the field; otherwise it is the sign of the overflow, and
  \<open>*limit\<close> is the bound that was passed (saturation), or the result is 1 and
  \<open>*limit\<close> the sum modulo the size of the field (wrap). With the wrap semantics an underflow
  returns 1, not -1.
\<close>

theorem bitfield_overflow_exact:
  assumes "0 < bits" "bits \<le> 63" "uint uv < 2 ^ bits" "in_sbits 64 incr"
    and "0 < sbits" "sbits \<le> 64" "in_sbits sbits sv"
  shows "apsnd (map_option uint) (checkUnsignedBitfieldOverflow uv incr bits ow limit) =
      overflow_spec 0 (2 ^ bits - 1) (\<lambda>x. x mod 2 ^ bits) ow limit (uint uv + incr) \<and>
    checkSignedBitfieldOverflow sv incr sbits ow limit =
      overflow_spec (- (2 ^ (sbits - 1))) (2 ^ (sbits - 1) - 1) (wrap_int sbits) ow limit (sv + incr)"
proof -
  have "uv \<le> unsigned_max bits" using assms(3) unsigned_max_eq[OF assms(2)] by (simp add: word_le_def)
  then show ?thesis using unsigned_check_spec[OF assms(2) _ assms(4)] signed_check_spec[OF assms(5-7,4)] by blast
qed

theorem bitfield_overflow_exact_witness:
  "checkUnsignedBitfieldOverflow 250 10 8 BFOVERFLOW_SAT True = (1, Some 255) \<and>
    checkSignedBitfieldOverflow 120 10 8 BFOVERFLOW_WRAP True = (1, Some (- 126))"
proof -
  have u: "apsnd (map_option uint) (checkUnsignedBitfieldOverflow 250 10 8 BFOVERFLOW_SAT True) = (1, Some 255)"
    using bitfield_overflow_exact[of 8 250 10 8 120 BFOVERFLOW_SAT True]
    by (simp add: in_sbits_def overflow_spec_def)
  then have "snd (checkUnsignedBitfieldOverflow 250 10 8 BFOVERFLOW_SAT True) = Some 255"
    "fst (checkUnsignedBitfieldOverflow 250 10 8 BFOVERFLOW_SAT True) = 1"
    by (auto simp: apsnd_def map_prod_def word_uint_eq_iff split: prod.splits)
  moreover have "checkSignedBitfieldOverflow 120 10 8 BFOVERFLOW_WRAP True = (1, Some (- 126))"
    using bitfield_overflow_exact[of 8 250 10 8 120 BFOVERFLOW_WRAP True]
    by (simp add: in_sbits_def overflow_spec_def wrap_int_def)
  ultimately show ?thesis by (simp add: prod_eq_iff)
qed

text \<open>
  (C34) The checks of \<open>BITFIELD SET\<close>, where any 64 bit value comes with the increment 0: exact
  for an unsigned field and for a signed one of 64 bits, and for a shorter signed one down to the
  value at which \<open>max - value\<close> overflows 64 bits. Below it the check takes the underflow for
  an overflow and saturates to the maximum.
\<close>

theorem bitfield_set_overflow:
  assumes "0 < bits" "bits \<le> 63" "0 < sbits" "sbits \<le> 64" "in_sbits 64 sv"
  shows "apsnd (map_option uint) (checkUnsignedBitfieldOverflow uv 0 bits ow limit) =
      overflow_spec 0 (2 ^ bits - 1) (\<lambda>x. x mod 2 ^ bits) ow limit (uint uv) \<and>
    checkSignedBitfieldOverflow sv 0 sbits ow limit =
      (if sbits < 64 \<and> sv < 2 ^ (sbits - 1) - 2 ^ 63
       then (1, if \<not> limit then None
                else case ow of BFOVERFLOW_WRAP \<Rightarrow> Some (wrap_int sbits sv)
                     | BFOVERFLOW_SAT \<Rightarrow> Some (2 ^ (sbits - 1) - 1) | BFOVERFLOW_FAIL \<Rightarrow> None)
       else overflow_spec (- (2 ^ (sbits - 1))) (2 ^ (sbits - 1) - 1) (wrap_int sbits) ow limit sv)"
  using unsigned_set_spec[OF assms(2)] signed_set_spec[OF assms(3-5)] by blast

theorem bitfield_set_overflow_witness:
  "checkSignedBitfieldOverflow (- 9223372036854775808) 0 8 BFOVERFLOW_SAT True = (1, Some 127) \<and>
    checkSignedBitfieldOverflow (- 1000) 0 8 BFOVERFLOW_SAT True = (- 1, Some (- 128))"
  using bitfield_set_overflow[of 8 8 "- 9223372036854775808" 0 BFOVERFLOW_SAT True]
    bitfield_set_overflow[of 8 8 "- 1000" 0 BFOVERFLOW_SAT True]
  by (simp add: in_sbits_def overflow_spec_def)

section \<open>Searching\<close>

text \<open>The bits of the first \<open>count\<close> bytes, followed by zeros.\<close>

definition padded :: "bytes \<Rightarrow> nat \<Rightarrow> nat \<Rightarrow> bool" where
  "padded s count i \<longleftrightarrow> i < 8 * count \<and> bitmap s i"

definition skip_byte :: "bool \<Rightarrow> byte" where "skip_byte bt = (if bt then 0 else 0xFF)"

lemma bit_FF: "bit (0xFF :: byte) n \<longleftrightarrow> n < 8"
proof -
  have "(0xFF :: byte) = mask 8" by (simp add: mask_eq_exp_minus_1)
  then show ?thesis by (simp only: bit_mask_iff) simp
qed

lemma skip_byte_bits: "n < 8 \<Longrightarrow> bit (skip_byte bt) n \<longleftrightarrow> \<not> bt"
  using bit_FF[of n] unfolding skip_byte_def by (cases bt) simp_all

lemma not_skip_byte:
  assumes "b \<noteq> skip_byte bt"
  shows "\<exists>j<8. bit b (7 - j) = bt"
proof -
  have "\<exists>n<8. bit b n \<noteq> bit (skip_byte bt) n"
  proof (rule ccontr)
    assume "\<not> ?thesis"
    then have "b = skip_byte bt" by (intro bit_word_eqI) simp
    then show False using assms by simp
  qed
  then obtain n where n: "n < 8" "bit b n \<noteq> bit (skip_byte bt) n" by blast
  then have "bit b n = bt" using skip_byte_bits[OF n(1)] by simp
  moreover have "7 - (7 - n) = n" "7 - n < 8" using n(1) by auto
  ultimately show ?thesis by (intro exI[of _ "7 - n"]) simp
qed

lemma bitmap_byte: "j < 8 \<Longrightarrow> bitmap s (8 * c + j) = bit (s ! c) (7 - j)"
  by (simp add: bitmap_def)

text \<open>What the skipping loops keep: everything before the cursor has the other value.\<close>

definition skipped :: "bytes \<Rightarrow> nat \<Rightarrow> bool \<Rightarrow> nat \<Rightarrow> bool" where
  "skipped s count bt c \<longleftrightarrow> c \<le> count \<and> (\<forall>i < 8 * c. bitmap s i \<noteq> bt)"

lemma skipped_step:
  assumes "skipped s count bt c" "c < count" "s ! c = skip_byte bt"
  shows "skipped s count bt (Suc c)"
proof -
  have "bitmap s i \<noteq> bt" if "i < 8 * Suc c" for i
  proof (cases "i < 8 * c")
    case False
    then obtain j where j: "i = 8 * c + j" "j < 8" using \<open>i < 8 * Suc c\<close>
      by (metis add_diff_inverse_nat less_diff_conv2 mult_Suc_right nat_add_left_cancel_less add.commute)
    then show ?thesis using assms(3) skip_byte_bits[of "7 - j" bt] by (simp add: bitmap_byte)
  qed (use assms(1) in \<open>simp add: skipped_def\<close>)
  then show ?thesis using assms by (simp add: skipped_def)
qed

lemma skipped_many:
  assumes "skipped s count bt c" "c + n \<le> count" "\<forall>k<n. s ! (c + k) = skip_byte bt"
  shows "skipped s count bt (c + n)"
  using assms
proof (induction n)
  case (Suc n)
  then have "skipped s count bt (c + n)" by simp
  moreover have "c + n < count" "s ! (c + n) = skip_byte bt" using Suc.prems by auto
  ultimately show ?case using skipped_step by simp
qed simp

lemma bitpos_bytes_ok:
  assumes "skipped s (c + cnt) bt c" "c + cnt \<le> length s"
  shows "\<exists>found c' cnt'. bitpos_bytes s addr c cnt (skip_byte bt) (8 * c) = Some (found, c', cnt', 8 * c') \<and>
    c' + cnt' = c + cnt \<and> skipped s (c + cnt) bt c' \<and> (found \<longrightarrow> 0 < cnt' \<and> s ! c' \<noteq> skip_byte bt)"
  using assms
proof (induction cnt arbitrary: c)
  case 0
  then show ?case by auto
next
  case (Suc cnt)
  have m: "mem_byte s c = Some (s ! c)" using Suc.prems(2) by (simp add: mem_byte_def)
  show ?case
  proof (cases "(addr + c) AND 7 \<noteq> 0 \<and> s ! c = skip_byte bt")
    case True
    then have "skipped s (Suc c + cnt) bt (Suc c)" using Suc.prems skipped_step[of s "c + Suc cnt" bt c] by simp
    then show ?thesis using Suc.IH[of "Suc c"] Suc.prems(2) True m by (simp add: add.commute[of 8])
  next
    case False
    then show ?thesis using Suc.prems m by auto
  qed
qed

lemma bitpos_words_ok:
  assumes "skipped s (c + cnt) bt c" "c + cnt \<le> length s"
  shows "\<exists>c' cnt'. bitpos_words s c cnt (skip_byte bt) (8 * c) = Some (c', cnt', 8 * c') \<and>
    c' + cnt' = c + cnt \<and> skipped s (c + cnt) bt c' \<and>
    (8 \<le> cnt' \<longrightarrow> (\<exists>k<8. s ! (c' + k) \<noteq> skip_byte bt))"
  using assms
proof (induction cnt arbitrary: c rule: less_induct)
  case (less cnt)
  show ?case
  proof (cases "8 \<le> cnt")
    case False
    then show ?thesis using less.prems by (subst bitpos_words.simps) simp
  next
    case True
    have m: "mem_get s c 8 = Some (take 8 (drop c s))" using less.prems(2) True by (simp add: mem_get_def)
    have w: "take 8 (drop c s) = replicate 8 b \<longleftrightarrow> (\<forall>k<8. s ! (c + k) = b)" for b
      using less.prems(2) True by (simp add: list_eq_iff_nth_eq)
    show ?thesis
    proof (cases "\<forall>k<8. s ! (c + k) = skip_byte bt")
      case all: True
      have "skipped s (c + cnt) bt (c + 8)" using skipped_many[OF less.prems(1) _ all] True by simp
      then have "skipped s ((c + 8) + (cnt - 8)) bt (c + 8)" "(c + 8) + (cnt - 8) \<le> length s"
        using True less.prems(2) by simp_all
      then show ?thesis using less.IH[of "cnt - 8" "c + 8"] True all m w
        by (subst bitpos_words.simps) (simp add: algebra_simps)
    next
      case False
      then show ?thesis using True less.prems(1) m w by (subst bitpos_words.simps) auto
    qed
  qed
qed


lemma bit_load_byte:
  "bit (push_bit 8 (w :: u64) OR ucast (b :: byte)) n \<longleftrightarrow>
     n < 64 \<and> (if n < 8 then bit b n else bit w (n - 8))"
  using bit_imp_le_length[of b n] by (auto simp: bit_simps)

lemma bit_load_zero:
  "bit (push_bit 8 (w :: u64)) n \<longleftrightarrow> n < 64 \<and> 8 \<le> n \<and> bit w (n - 8)"
  by (auto simp: bit_simps)

text \<open>The byte the load loop takes at position \<open>i\<close>.\<close>

definition load_byte :: "bytes \<Rightarrow> nat \<Rightarrow> nat \<Rightarrow> byte" where
  "load_byte s count i = (if i < count then s ! i else 0)"

lemma bitpos_load_ok:
  assumes "c + cnt \<le> length s"
  shows "\<exists>r. bitpos_load s c cnt j w = Some r \<and>
    (\<forall>n<64. bit r n = (if n < 8 * j then bit (load_byte s (c + cnt) (c + (j - 1 - n div 8))) (n mod 8)
                       else bit w (n - 8 * j)))"
  using assms
proof (induction j arbitrary: c cnt w)
  case 0
  then show ?case by simp
next
  case (Suc j)
  define c1 where "c1 = (if cnt = 0 then c else c + 1)"
  define w1 where "w1 = (if cnt = 0 then push_bit 8 w else push_bit 8 w OR ucast (s ! c))"
  have step: "bitpos_load s c cnt (Suc j) w = bitpos_load s c1 (cnt - 1) j w1"
    using Suc.prems by (simp add: c1_def w1_def Let_def mem_byte_def)
  have b1: "bit w1 n = (if n < 8 then bit (load_byte s (c + cnt) c) n else bit w (n - 8))" if "n < 64" for n
    using that unfolding w1_def load_byte_def by (auto simp: bit_load_byte bit_load_zero)
  have le: "c1 + (cnt - 1) \<le> length s" using Suc.prems by (simp add: c1_def)
  obtain r where r: "bitpos_load s c1 (cnt - 1) j w1 = Some r" and
    b: "\<And>n. n < 64 \<Longrightarrow> bit r n = (if n < 8 * j then bit (load_byte s (c1 + (cnt - 1)) (c1 + (j - 1 - n div 8))) (n mod 8)
                       else bit w1 (n - 8 * j))"
    using Suc.IH[OF le, of w1] by blast
  have lb: "load_byte s (c1 + (cnt - 1)) (c1 + k) = load_byte s (c + cnt) (c + Suc k)" for k
    by (auto simp: c1_def load_byte_def)
  have "bit r n = (if n < 8 * Suc j then bit (load_byte s (c + cnt) (c + (Suc j - 1 - n div 8))) (n mod 8)
                       else bit w (n - 8 * Suc j))" if n: "n < 64" for n
  proof -
    consider "n < 8 * j" | "8 * j \<le> n" "n < 8 * Suc j" | "8 * Suc j \<le> n" by linarith
    then show ?thesis
    proof cases
      case 1
      then have "n div 8 < j" by (simp add: less_mult_imp_div_less mult.commute)
      then have "Suc (j - 1 - n div 8) = Suc j - 1 - n div 8" by linarith
      then show ?thesis using 1 b[OF n] lb[of "j - 1 - n div 8"] by simp
    next
      case 2
      then have d: "n div 8 = j" "n mod 8 = n - 8 * j" by (simp_all add: div_nat_eqI modulo_nat_def)
      have "n - 8 * j < 8" "n - 8 * j < 64" using 2 by auto
      then show ?thesis using 2 d b[OF n] b1[of "n - 8 * j"] by simp
    next
      case 3
      then have "\<not> n - 8 * j < 8" "n - 8 * j < 64" "\<not> n < 8 * j" using n by auto
      then show ?thesis using 3 b[OF n] b1[of "n - 8 * j"] n by (simp add: diff_diff_left add.commute[of 8])
    qed
  qed
  then show ?case using step r by auto
qed


lemma bitpos_scan_ok:
  assumes "\<exists>n<k. bit word n = bt" "k \<le> 64"
  shows "\<exists>n<k. bit word n = bt \<and> (\<forall>j<k. n < j \<longrightarrow> bit word j \<noteq> bt) \<and>
    bitpos_scan word bt k pos = Some (int (pos + (k - 1 - n)))"
  using assms
proof (induction k arbitrary: pos)
  case (Suc k)
  have t: "(push_bit k 1 AND word \<noteq> 0) = bit word k"
    using bit_and_single[of word k] Suc.prems(2) by (simp only: and.commute) auto
  show ?case
  proof (cases "bit word k = bt")
    case True
    then show ?thesis using t by (intro exI[of _ k]) (auto simp del: push_bit_eq_mult)
  next
    case False
    then have ex: "\<exists>n<k. bit word n = bt" using Suc.prems(1) less_Suc_eq by metis
    then obtain n where n: "n < k" "bit word n = bt" "\<forall>j<k. n < j \<longrightarrow> bit word j \<noteq> bt"
      "bitpos_scan word bt k (pos + 1) = Some (int (pos + 1 + (k - 1 - n)))"
      using Suc.IH[OF ex, of "pos + 1"] Suc.prems(2) by auto
    have "bitpos_scan word bt (Suc k) pos = bitpos_scan word bt k (pos + 1)"
      using t False by (simp only: bitpos_scan.simps) simp
    moreover have "pos + 1 + (k - 1 - n) = pos + (Suc k - 1 - n)" using n(1) by simp
    ultimately show ?thesis using n False
      by (intro exI[of _ n]) (auto simp: less_Suc_eq)
  qed
qed simp

lemma load_byte_bit: "j < 8 \<Longrightarrow> bit (load_byte s count c) (7 - j) = padded s count (8 * c + j)"
  by (simp add: load_byte_def padded_def bitmap_byte)

lemma bitpos_skip:
  assumes "count \<le> length s"
  shows "\<exists>found c0 n0 c n. bitpos_bytes s addr 0 count (skip_byte bt) 0 = Some (found, c0, n0, 8 * c0) \<and>
    (if \<not> found then bitpos_words s c0 n0 (skip_byte bt) (8 * c0) else Some (c0, n0, 8 * c0)) = Some (c, n, 8 * c) \<and>
    c + n = count \<and> skipped s count bt c \<and>
    (n < 8 \<or> (\<exists>k<8. k < n \<and> s ! (c + k) \<noteq> skip_byte bt))"
proof -
  have s0: "skipped s (0 + count) bt 0" by (simp add: skipped_def)
  obtain found c0 n0 where b: "bitpos_bytes s addr 0 count (skip_byte bt) 0 = Some (found, c0, n0, 8 * c0)"
    "c0 + n0 = count" "skipped s count bt c0" "found \<longrightarrow> 0 < n0 \<and> s ! c0 \<noteq> skip_byte bt"
    using bitpos_bytes_ok[OF s0, of addr] assms by auto
  show ?thesis
  proof (cases found)
    case True
    then have "0 < n0 \<and> s ! (c0 + 0) \<noteq> skip_byte bt" using b(4) by simp
    then have "\<exists>k<8. k < n0 \<and> s ! (c0 + k) \<noteq> skip_byte bt" by (intro exI[of _ 0]) simp
    then show ?thesis using b True by (intro exI[of _ True] exI[of _ c0] exI[of _ n0]) simp
  next
    case False
    have "skipped s (c0 + n0) bt c0" "c0 + n0 \<le> length s" using b assms by simp_all
    from bitpos_words_ok[OF this] obtain c n where
      w: "bitpos_words s c0 n0 (skip_byte bt) (8 * c0) = Some (c, n, 8 * c)" "c + n = c0 + n0"
      "skipped s (c0 + n0) bt c" "8 \<le> n \<longrightarrow> (\<exists>k<8. s ! (c + k) \<noteq> skip_byte bt)" by blast
    have "n < 8 \<or> (\<exists>k<8. k < n \<and> s ! (c + k) \<noteq> skip_byte bt)"
      using w(4) by (meson less_le_trans not_le)
    then show ?thesis using b w False
      by (intro exI[of _ False] exI[of _ c0] exI[of _ n0] exI[of _ c] exI[of _ n]) simp
  qed
qed

lemma load_bits:
  assumes "j < 64" "\<And>m. m < 64 \<Longrightarrow> bit word m = bit (load_byte s count (c + (7 - m div 8))) (m mod 8)"
  shows "bit word (63 - j) = padded s count (8 * c + j)"
proof -
  define q t where "q = j div 8" and "t = j mod 8"
  have jq: "j = 8 * q + t" "t \<le> 7" "q \<le> 7" using assms(1) by (auto simp: q_def t_def)
  then have e: "63 - j = 8 * (7 - q) + (7 - t)" by linarith
  have d: "(8 * a + b) div 8 = a" "(8 * a + b) mod 8 = b" if "b < 8" for a b :: nat using that by simp_all
  have "(63 - j) div 8 = 7 - q" "(63 - j) mod 8 = 7 - t" unfolding e using d[of "7 - t"] by simp_all
  moreover have "7 - (7 - q) = q" using jq by simp
  ultimately have "bit word (63 - j) = bit (load_byte s count (c + q)) (7 - t)"
    using assms(2)[of "63 - j"] by simp
  moreover have "8 * (c + q) + t = 8 * c + j" using jq by simp
  ultimately show ?thesis
    using load_byte_bit[of t s count "c + q"] jq(2) by (auto simp: add.assoc)
qed

lemma skipped_hit:
  assumes "k < 8" "c + k < count" "s ! (c + k) \<noteq> skip_byte bt"
  shows "\<exists>j<64. padded s count (8 * c + j) = bt"
proof -
  obtain j where j: "j < 8" "bit (s ! (c + k)) (7 - j) = bt" using not_skip_byte[OF assms(3)] by blast
  have "padded s count (8 * (c + k) + j) = bt"
    using load_byte_bit[OF j(1), of s count "c + k"] j(2) assms(2) by (simp add: load_byte_def)
  moreover have "8 * (c + k) + j = 8 * c + (8 * k + j)" by simp
  moreover have "8 * k + j < 64" using assms(1) j(1) by linarith
  ultimately show ?thesis by (intro exI[of _ "8 * k + j"]) (simp only: simp_thms)
qed

lemma bitpos_run:
  assumes "count \<le> length s"
  shows "\<exists>word c n. redisBitpos s addr count bt =
      (if bt \<and> word = 0 then Some (- 1) else bitpos_scan word bt 64 (8 * c)) \<and>
    c + n = count \<and> skipped s count bt c \<and> (n < 8 \<or> (\<exists>j<64. padded s count (8 * c + j) = bt)) \<and>
    (\<forall>j<64. bit word (63 - j) = padded s count (8 * c + j))"
proof -
  obtain found c0 n0 c n where b: "bitpos_bytes s addr 0 count (skip_byte bt) 0 = Some (found, c0, n0, 8 * c0)"
    "(if \<not> found then bitpos_words s c0 n0 (skip_byte bt) (8 * c0) else Some (c0, n0, 8 * c0)) = Some (c, n, 8 * c)"
    "c + n = count" "skipped s count bt c" "n < 8 \<or> (\<exists>k<8. k < n \<and> s ! (c + k) \<noteq> skip_byte bt)"
    using bitpos_skip[OF assms] by blast
  have le: "c + n \<le> length s" using b(3) assms by simp
  obtain word where l: "bitpos_load s c n 8 0 = Some word" and
    lb: "\<And>m. m < 64 \<Longrightarrow> bit word m = bit (load_byte s count (c + (7 - m div 8))) (m mod 8)"
    using bitpos_load_ok[OF le, of 8 0] b(3) by auto
  have "n < 8 \<or> (\<exists>j<64. padded s count (8 * c + j) = bt)"
    using b(3,5) skipped_hit[of _ c count s bt] by (metis nat_add_left_cancel_less)
  moreover have "redisBitpos s addr count bt =
      (if bt \<and> word = 0 then Some (- 1) else bitpos_scan word bt 64 (8 * c))"
    using b(1,2) l unfolding redisBitpos_def skip_byte_def[symmetric] Let_def by simp
  ultimately show ?thesis using b(3,4) load_bits[OF _ lb] by blast
qed


lemma bit_word_zero: "(\<And>n. n < 64 \<Longrightarrow> \<not> bit word n) \<Longrightarrow> word = (0 :: u64)"
  by (rule bit_word_eqI) simp

lemma bitpos_exists:
  fixes word :: u64
  assumes "c + n = count" "n < 8 \<or> (\<exists>j<64. padded s count (8 * c + j) = bt)"
    "\<forall>j<64. bit word (63 - j) = padded s count (8 * c + j)" "\<not> (bt \<and> word = 0)"
  shows "\<exists>m<64. bit word m = bt"
proof (cases "\<exists>j<64. padded s count (8 * c + j) = bt")
  case True
  then obtain j where "j < 64" "padded s count (8 * c + j) = bt" by blast
  then show ?thesis using assms(3) by (intro exI[of _ "63 - j"]) simp
next
  case False
  then have n: "n < 8" using assms(2) by blast
  show ?thesis
  proof (cases bt)
    case True
    then have "word \<noteq> 0" using assms(4) by simp
    then show ?thesis using bit_word_zero[of word] True by blast
  next
    case bt: False
    have "\<not> padded s count (8 * c + 8 * n)" using assms(1) by (auto simp: padded_def)
    moreover have "8 * n < 64" using n by simp
    ultimately show ?thesis using False bt by blast
  qed
qed

text \<open>
  (C35) \<open>redisBitpos\<close> finds the first bit: on the first \<open>count\<close> bytes of a bitmap at
  any address it returns the position of the first bit with the wanted value; without one it
  returns -1 when it looks for a one, and the number of bits when it looks for a zero. It never
  reaches its panic and never reads outside the bitmap.
\<close>

theorem redisBitpos_first:
  assumes "count \<le> length s"
  shows "\<exists>r. redisBitpos s addr count bt = Some r \<and>
    (if r < 0 then r = - 1 \<and> bt \<and> (\<forall>i < 8 * count. \<not> bitmap s i)
     else nat r \<le> 8 * count \<and> (\<forall>i < nat r. bitmap s i \<noteq> bt) \<and>
       (if nat r < 8 * count then bitmap s (nat r) = bt else \<not> bt))"
proof -
  obtain word c n where run: "redisBitpos s addr count bt =
      (if bt \<and> word = 0 then Some (- 1) else bitpos_scan word bt 64 (8 * c))"
    and cn: "c + n = count" and sk: "skipped s count bt c"
    and hit: "n < 8 \<or> (\<exists>j<64. padded s count (8 * c + j) = bt)"
    and wb: "\<forall>j<64. bit word (63 - j) = padded s count (8 * c + j)"
    using bitpos_run[OF assms] by blast
  have pre: "bitmap s i \<noteq> bt" if "i < 8 * c" for i using sk that by (simp add: skipped_def)
  show ?thesis
  proof (cases "bt \<and> word = 0")
    case True
    then have z: "\<not> padded s count (8 * c + j)" if "j < 64" for j using wb that by auto
    then have "n < 8" using hit True by blast
    then have "\<not> bitmap s i" if "i < 8 * count" for i
      using pre[of i] z[of "i - 8 * c"] True cn that by (cases "i < 8 * c") (auto simp: padded_def)
    then show ?thesis using run True by (intro exI[of _ "- 1"]) simp
  next
    case False
    obtain m where m: "m < 64" "bit word m = bt" "\<forall>k<64. m < k \<longrightarrow> bit word k \<noteq> bt"
      "bitpos_scan word bt 64 (8 * c) = Some (int (8 * c + (64 - 1 - m)))"
      using bitpos_scan_ok[OF bitpos_exists[OF cn hit wb False] order_refl, of "8 * c"] by blast
    define r where "r = 8 * c + (63 - m)"
    have at: "padded s count r = bt" using spec[OF wb, of "63 - m"] m(1,2) by (simp add: r_def)
    have before: "padded s count i \<noteq> bt" if i: "8 * c \<le> i" "i < r" for i
    proof -
      have a: "i - 8 * c < 64" "m < 63 - (i - 8 * c)" "63 - (i - 8 * c) < 64" "8 * c + (i - 8 * c) = i"
        using i m(1) by (auto simp: r_def)
      show ?thesis using spec[OF wb, of "i - 8 * c"] spec[OF m(3), of "63 - (i - 8 * c)"] a by simp
    qed
    have le_r: "r \<le> 8 * count"
    proof (rule ccontr)
      assume "\<not> r \<le> 8 * count"
      then have "padded s count (8 * count) \<noteq> bt" "padded s count r = padded s count (8 * count)"
        using before[of "8 * count"] cn by (auto simp: padded_def)
      then show False using at by simp
    qed
    have "bitmap s i \<noteq> bt" if "i < r" for i
      using pre[of i] before[of i] that le_r by (cases "i < 8 * c") (auto simp: padded_def)
    moreover have "redisBitpos s addr count bt = Some (int r)" using run False m(4) by (simp add: r_def)
    ultimately show ?thesis using at le_r by (intro exI[of _ "int r"]) (auto simp: padded_def)
  qed
qed

theorem redisBitpos_first_witness:
  "\<exists>r. redisBitpos [0, 0x10] 3 2 True = Some r \<and>
    (if r < 0 then r = - 1 \<and> True \<and> (\<forall>i < 8 * 2. \<not> bitmap [0, 0x10] i)
     else nat r \<le> 8 * 2 \<and> (\<forall>i < nat r. bitmap [0, 0x10] i \<noteq> True) \<and>
       (if nat r < 8 * 2 then bitmap [0, 0x10] (nat r) = True else \<not> True))"
  by (rule redisBitpos_first) simp

end
