(* ===== verification/Siphash.thy ===== *)
theory Siphash
  imports Redis_Prelude Util_Numbers Strl
begin

text \<open>
  The hash function of dictionaries, \<open>siphash.c\<close>: SipHash with one round per word and two
  at the end, and its case insensitive variant; with the hash and comparison callbacks of
  \<open>server.c\<close> that dictionary types are made of. A pointer is a block and an offset. The words
  are read as the portable macro \<open>U8TO64_LE\<close> reads them, which is the little endian load of the
  other branch.
\<close>

section \<open>Reading words\<close>

definition siptlw :: "int \<Rightarrow> int" where
  "siptlw c = (if c \<ge> 65 \<and> c \<le> 90 then c + (97 - 65) else c)"

definition ROTL :: "u64 \<Rightarrow> nat \<Rightarrow> u64" where
  "ROTL x b = push_bit b x OR drop_bit (64 - b) x"

definition U8TO64_LE :: "bytes \<Rightarrow> nat \<Rightarrow> u64 option" where
  "U8TO64_LE m p = do {
     p0 \<leftarrow> mem_byte m p;
     p1 \<leftarrow> mem_byte m (p + 1);
     p2 \<leftarrow> mem_byte m (p + 2);
     p3 \<leftarrow> mem_byte m (p + 3);
     p4 \<leftarrow> mem_byte m (p + 4);
     p5 \<leftarrow> mem_byte m (p + 5);
     p6 \<leftarrow> mem_byte m (p + 6);
     p7 \<leftarrow> mem_byte m (p + 7);
     Some (ucast p0 OR push_bit 8 (ucast p1) OR
       push_bit 16 (ucast p2) OR push_bit 24 (ucast p3) OR
       push_bit 32 (ucast p4) OR push_bit 40 (ucast p5) OR
       push_bit 48 (ucast p6) OR push_bit 56 (ucast p7))
   }"

text \<open>The conversion \<open>(uint64_t)siptlw(c)\<close> of a byte.\<close>

definition u64_tlw :: "byte \<Rightarrow> u64" where
  "u64_tlw c = of_int (siptlw (uint c))"

definition U8TO64_LE_NOCASE :: "bytes \<Rightarrow> nat \<Rightarrow> u64 option" where
  "U8TO64_LE_NOCASE m p = do {
     p0 \<leftarrow> mem_byte m p;
     p1 \<leftarrow> mem_byte m (p + 1);
     p2 \<leftarrow> mem_byte m (p + 2);
     p3 \<leftarrow> mem_byte m (p + 3);
     p4 \<leftarrow> mem_byte m (p + 4);
     p5 \<leftarrow> mem_byte m (p + 5);
     p6 \<leftarrow> mem_byte m (p + 6);
     p7 \<leftarrow> mem_byte m (p + 7);
     Some (u64_tlw p0 OR push_bit 8 (u64_tlw p1) OR
       push_bit 16 (u64_tlw p2) OR push_bit 24 (u64_tlw p3) OR
       push_bit 32 (u64_tlw p4) OR push_bit 40 (u64_tlw p5) OR
       push_bit 48 (u64_tlw p6) OR push_bit 56 (u64_tlw p7))
   }"

section \<open>The hash\<close>

record sip_state =
  v0 :: u64
  v1 :: u64
  v2 :: u64
  v3 :: u64

definition SIPROUND :: "sip_state \<Rightarrow> sip_state" where
  "SIPROUND s =
     (let s = s\<lparr>v0 := v0 s + v1 s\<rparr>;
          s = s\<lparr>v1 := ROTL (v1 s) 13\<rparr>;
          s = s\<lparr>v1 := v1 s XOR v0 s\<rparr>;
          s = s\<lparr>v0 := ROTL (v0 s) 32\<rparr>;
          s = s\<lparr>v2 := v2 s + v3 s\<rparr>;
          s = s\<lparr>v3 := ROTL (v3 s) 16\<rparr>;
          s = s\<lparr>v3 := v3 s XOR v2 s\<rparr>;
          s = s\<lparr>v0 := v0 s + v3 s\<rparr>;
          s = s\<lparr>v3 := ROTL (v3 s) 21\<rparr>;
          s = s\<lparr>v3 := v3 s XOR v0 s\<rparr>;
          s = s\<lparr>v2 := v2 s + v1 s\<rparr>;
          s = s\<lparr>v1 := ROTL (v1 s) 17\<rparr>;
          s = s\<lparr>v1 := v1 s XOR v2 s\<rparr>;
          s = s\<lparr>v2 := ROTL (v2 s) 32\<rparr>
      in s)"

definition sip_init :: "u64 \<Rightarrow> u64 \<Rightarrow> sip_state" where
  "sip_init k0 k1 =
     (let s = \<lparr>v0 = 0x736f6d6570736575, v1 = 0x646f72616e646f6d,
               v2 = 0x6c7967656e657261, v3 = 0x7465646279746573\<rparr>;
          s = s\<lparr>v3 := v3 s XOR k1\<rparr>;
          s = s\<lparr>v2 := v2 s XOR k0\<rparr>;
          s = s\<lparr>v1 := v1 s XOR k1\<rparr>;
          s = s\<lparr>v0 := v0 s XOR k0\<rparr>
      in s)"

text \<open>The body of the loop, which is also what happens to the last word.\<close>

definition sip_mix :: "u64 \<Rightarrow> sip_state \<Rightarrow> sip_state" where
  "sip_mix m s =
     (let s = s\<lparr>v3 := v3 s XOR m\<rparr>;
          s = SIPROUND s
      in s\<lparr>v0 := v0 s XOR m\<rparr>)"

text \<open>
  The loop up to \<open>end\<close>, with the macro that reads a word. It is left with \<open>None\<close> if it
  passes \<open>end\<close>, which does not happen as the distance is a multiple of 8.
\<close>

function sip_loop ::
  "(bytes \<Rightarrow> nat \<Rightarrow> u64 option) \<Rightarrow> bytes \<Rightarrow> nat \<Rightarrow> nat \<Rightarrow> sip_state \<Rightarrow> (nat \<times> sip_state) option" where
  "sip_loop load m p e s =
     (if p = e then Some (p, s)
      else if p > e then None
      else do { w \<leftarrow> load m p; sip_loop load m (p + 8) e (sip_mix w s) })"
  by pat_completeness auto
termination
  by (relation "measure (\<lambda>(_, _, p, e, _). e - p)") auto

declare sip_loop.simps [simp del]

text \<open>The switch over the remaining bytes, whose cases fall through.\<close>

definition or_byte :: "(byte \<Rightarrow> u64) \<Rightarrow> bytes \<Rightarrow> nat \<Rightarrow> nat \<Rightarrow> nat \<Rightarrow> u64 \<Rightarrow> u64 option" where
  "or_byte conv m p left i b =
     (if left > i then do { c \<leftarrow> mem_byte m (p + i); Some (b OR push_bit (8 * i) (conv c)) } else Some b)"

definition sip_tail :: "(byte \<Rightarrow> u64) \<Rightarrow> bytes \<Rightarrow> nat \<Rightarrow> nat \<Rightarrow> u64 \<Rightarrow> u64 option" where
  "sip_tail conv m p left b = do {
     b \<leftarrow> or_byte conv m p left 6 b;
     b \<leftarrow> or_byte conv m p left 5 b;
     b \<leftarrow> or_byte conv m p left 4 b;
     b \<leftarrow> or_byte conv m p left 3 b;
     b \<leftarrow> or_byte conv m p left 2 b;
     b \<leftarrow> or_byte conv m p left 1 b;
     or_byte conv m p left 0 b
   }"

definition sip_final :: "sip_state \<Rightarrow> u64" where
  "sip_final s =
     (let s = s\<lparr>v2 := v2 s XOR 0xff\<rparr>;
          s = SIPROUND s;
          s = SIPROUND s
      in v0 s XOR v1 s XOR v2 s XOR v3 s)"

definition siphash :: "bytes \<Rightarrow> nat \<Rightarrow> nat \<Rightarrow> bytes \<Rightarrow> u64 option" where
  "siphash m inp inlen k = do {
     k0 \<leftarrow> U8TO64_LE k 0;
     k1 \<leftarrow> U8TO64_LE k 8;
     let e = inp + inlen - inlen mod 8;
     let left = inlen AND 7;
     let b = push_bit 56 (of_nat inlen);
     (p, s) \<leftarrow> sip_loop U8TO64_LE m inp e (sip_init k0 k1);
     b \<leftarrow> sip_tail ucast m p left b;
     Some (sip_final (sip_mix b s))
   }"

definition siphash_nocase :: "bytes \<Rightarrow> nat \<Rightarrow> nat \<Rightarrow> bytes \<Rightarrow> u64 option" where
  "siphash_nocase m inp inlen k = do {
     k0 \<leftarrow> U8TO64_LE k 0;
     k1 \<leftarrow> U8TO64_LE k 8;
     let e = inp + inlen - inlen mod 8;
     let left = inlen AND 7;
     let b = push_bit 56 (of_nat inlen);
     (p, s) \<leftarrow> sip_loop U8TO64_LE_NOCASE m inp e (sip_init k0 k1);
     b \<leftarrow> sip_tail u64_tlw m p left b;
     Some (sip_final (sip_mix b s))
   }"

section \<open>Callbacks of dictionary types\<close>

text \<open>
  The seed is the global \<open>dict_hash_function_seed\<close>. An sds string is its contents, which the
  code keeps with a zero byte after them and the length in front of them.
\<close>

definition dictGenHashFunction :: "bytes \<Rightarrow> bytes \<Rightarrow> nat \<Rightarrow> nat \<Rightarrow> u64 option" where
  "dictGenHashFunction seed m p len = siphash m p len seed"

definition dictGenCaseHashFunction :: "bytes \<Rightarrow> bytes \<Rightarrow> nat \<Rightarrow> nat \<Rightarrow> u64 option" where
  "dictGenCaseHashFunction seed m p len = siphash_nocase m p len seed"

definition dictSdsHash :: "bytes \<Rightarrow> bytes \<Rightarrow> u64 option" where
  "dictSdsHash seed key = dictGenHashFunction seed (key @ [0]) 0 (length key)"

definition dictSdsCaseHash :: "bytes \<Rightarrow> bytes \<Rightarrow> u64 option" where
  "dictSdsCaseHash seed key = dictGenCaseHashFunction seed (key @ [0]) 0 (length key)"

definition dictCStrHash :: "bytes \<Rightarrow> bytes \<Rightarrow> nat \<Rightarrow> u64 option" where
  "dictCStrHash seed m p = do { n \<leftarrow> c_strlen m p; dictGenHashFunction seed m p n }"

definition dictCStrCaseHash :: "bytes \<Rightarrow> bytes \<Rightarrow> nat \<Rightarrow> u64 option" where
  "dictCStrCaseHash seed m p = do { n \<leftarrow> c_strlen m p; dictGenCaseHashFunction seed m p n }"

text \<open>A length as an \<open>int\<close>, and \<open>memcmp(a, b, n) == 0\<close> with such an \<open>int\<close>.\<close>

definition int_of_size :: "nat \<Rightarrow> int" where
  "int_of_size n = sint (of_nat n :: u32)"

definition memcmp_eq :: "bytes \<Rightarrow> nat \<Rightarrow> bytes \<Rightarrow> nat \<Rightarrow> int \<Rightarrow> bool option" where
  "memcmp_eq a p b q n = do {
     x \<leftarrow> mem_get a p (nat (n mod 2 ^ 64));
     y \<leftarrow> mem_get b q (nat (n mod 2 ^ 64));
     Some (x = y)
   }"

definition dictSdsKeyCompare :: "bytes \<Rightarrow> bytes \<Rightarrow> bool option" where
  "dictSdsKeyCompare key1 key2 =
     (let l1 = int_of_size (length key1); l2 = int_of_size (length key2)
      in if l1 \<noteq> l2 then Some False else memcmp_eq (key1 @ [0]) 0 (key2 @ [0]) 0 l1)"

definition dictCStrKeyCompare :: "bytes \<Rightarrow> nat \<Rightarrow> bytes \<Rightarrow> nat \<Rightarrow> bool option" where
  "dictCStrKeyCompare m1 p1 m2 p2 = do {
     n1 \<leftarrow> c_strlen m1 p1;
     n2 \<leftarrow> c_strlen m2 p2;
     let l1 = int_of_size n1;
     let l2 = int_of_size n2;
     if l1 \<noteq> l2 then Some False else memcmp_eq m1 p1 m2 p2 l1
   }"

text \<open>\<open>strcasecmp(a, b) == 0\<close>, in the C locale the server runs with.\<close>

function strcasecmp_eq :: "bytes \<Rightarrow> nat \<Rightarrow> bytes \<Rightarrow> nat \<Rightarrow> bool option" where
  "strcasecmp_eq a p b q = do {
     x \<leftarrow> mem_byte a p;
     y \<leftarrow> mem_byte b q;
     if c_tolower x \<noteq> c_tolower y then Some False
     else if x = 0 then Some True
     else strcasecmp_eq a (p + 1) b (q + 1)
   }"
  by pat_completeness auto
termination
  by (relation "measure (\<lambda>(a, p, _, _). length a - p)") (auto simp: mem_byte_def split: if_splits)

declare strcasecmp_eq.simps [simp del]

definition dictSdsKeyCaseCompare :: "bytes \<Rightarrow> bytes \<Rightarrow> bool option" where
  "dictSdsKeyCaseCompare key1 key2 = strcasecmp_eq (key1 @ [0]) 0 (key2 @ [0]) 0"

definition dictCStrKeyCaseCompare :: "bytes \<Rightarrow> nat \<Rightarrow> bytes \<Rightarrow> nat \<Rightarrow> bool option" where
  "dictCStrKeyCaseCompare m1 p1 m2 p2 = strcasecmp_eq m1 p1 m2 p2"

section \<open>Reference definition\<close>

text \<open>
  SipHash-1-2 of a string, on four words without the routines above: the string is padded with zero
  bytes and one byte with its length modulo 256 to whole words, and the words are absorbed one
  after the other. A round is two half rounds, the second with the words \<open>v0\<close> and
  \<open>v2\<close> exchanged; the initial words are the text ``somepseudorandomlygeneratedbytes''.
\<close>

type_synonym sip_words4 = "u64 \<times> u64 \<times> u64 \<times> u64"

fun sip_word :: "bytes \<Rightarrow> u64" where
  "sip_word [] = 0"
| "sip_word (c # cs) = ucast c OR push_bit 8 (sip_word cs)"

function sip_words :: "bytes \<Rightarrow> u64 list" where
  "sip_words cs = (if length cs < 8 then [] else sip_word (take 8 cs) # sip_words (drop 8 cs))"
  by pat_completeness auto
termination
  by (relation "measure length") auto

declare sip_words.simps [simp del]

definition sip_pad :: "bytes \<Rightarrow> bytes" where
  "sip_pad cs = cs @ replicate (7 - length cs mod 8) 0 @ [of_nat (length cs)]"

fun sip_half :: "nat \<Rightarrow> nat \<Rightarrow> sip_words4 \<Rightarrow> sip_words4" where
  "sip_half s t (a, b, c, d) =
     (word_rotl 32 (a + b), word_rotl s b XOR (a + b), c + d, word_rotl t d XOR (c + d))"

fun sip_swap :: "sip_words4 \<Rightarrow> sip_words4" where
  "sip_swap (a, b, c, d) = (c, b, a, d)"

definition sip_round :: "sip_words4 \<Rightarrow> sip_words4" where
  "sip_round = sip_swap \<circ> sip_half 17 21 \<circ> sip_swap \<circ> sip_half 13 16"

fun sip_xor :: "sip_words4 \<Rightarrow> sip_words4 \<Rightarrow> sip_words4" where
  "sip_xor (a, b, c, d) (a', b', c', d') = (a XOR a', b XOR b', c XOR c', d XOR d')"

definition sip_absorb :: "sip_words4 \<Rightarrow> u64 \<Rightarrow> sip_words4" where
  "sip_absorb s w = sip_xor (w, 0, 0, 0) (sip_round (sip_xor (0, 0, 0, w) s))"

fun sip_sum :: "sip_words4 \<Rightarrow> u64" where
  "sip_sum (a, b, c, d) = a XOR b XOR c XOR d"

definition sip_text :: "string \<Rightarrow> u64" where
  "sip_text s = sip_word (rev (map of_char s))"

definition sip12 :: "bytes \<Rightarrow> bytes \<Rightarrow> u64" where
  "sip12 k cs =
     (let k0 = sip_word (take 8 k); k1 = sip_word (take 8 (drop 8 k));
          s = sip_xor (k0, k1, k0, k1)
                (sip_text ''somepseu'', sip_text ''dorandom'', sip_text ''lygenera'', sip_text ''tedbytes'')
      in sip_sum (sip_round (sip_round (sip_xor (0, 0, 0xff, 0)
           (foldl sip_absorb s (sip_words (sip_pad cs)))))))"

section \<open>The rounds\<close>

definition sip_tuple :: "sip_state \<Rightarrow> sip_words4" where
  "sip_tuple s = (v0 s, v1 s, v2 s, v3 s)"

lemma ROTL_rotl:
  assumes "b < 64"
  shows "ROTL x b = word_rotl b x"
proof (rule bit_word_eqI)
  fix n assume "n < LENGTH(64)"
  then have n: "n < 64" by simp
  have m: "(n + (64 - b)) mod 64 = (if b \<le> n then n - b else n + (64 - b))"
  proof (cases "b \<le> n")
    case True
    then have "n + (64 - b) = (n - b) + 64" using assms by simp
    moreover have "n - b < 64" using n by simp
    ultimately show ?thesis using True by (simp only: mod_add_self2 mod_less if_True)
  qed (use assms in simp)
  have "bit (ROTL x b) n \<longleftrightarrow> b \<le> n \<and> bit x (n - b) \<or> bit x (64 - b + n)"
    using n by (simp add: ROTL_def bit_or_iff bit_push_bit_iff bit_drop_bit_eq)
  moreover have "bit (word_rotl b x) n \<longleftrightarrow> bit x ((n + (64 - b)) mod 64)"
    using n assms bit_word_rotl_iff[of b x n] by simp
  moreover have "\<not> bit x (64 - b + n)" if "b \<le> n"
    using bit_imp_le_length[of x "64 - b + n"] that assms by auto
  ultimately show "bit (ROTL x b) n = bit (word_rotl b x) n"
    unfolding m by (auto simp only: add.commute split: if_splits)
qed

lemma SIPROUND_round: "sip_tuple (SIPROUND s) = sip_round (sip_tuple s)"
  by (simp add: sip_tuple_def sip_round_def SIPROUND_def Let_def ROTL_rotl add.commute)

lemma sip_mix_absorb: "sip_tuple (sip_mix w s) = sip_absorb (sip_tuple s) w"
proof -
  have "sip_xor (0, 0, 0, w) (sip_tuple s) = sip_tuple (s\<lparr>v3 := v3 s XOR w\<rparr>)"
    by (simp add: sip_tuple_def xor.commute)
  then have "sip_absorb (sip_tuple s) w = sip_xor (w, 0, 0, 0) (sip_tuple (SIPROUND (s\<lparr>v3 := v3 s XOR w\<rparr>)))"
    by (simp add: sip_absorb_def SIPROUND_round)
  then show ?thesis by (simp add: sip_mix_def Let_def sip_tuple_def xor.commute)
qed

lemma sip_mix_fold: "sip_tuple (foldl (\<lambda>s w. sip_mix w s) s ws) = foldl sip_absorb (sip_tuple s) ws"
  by (induction ws arbitrary: s) (simp_all add: sip_mix_absorb)

lemma sip_texts:
  "sip_text ''somepseu'' = 0x736f6d6570736575" "sip_text ''dorandom'' = 0x646f72616e646f6d"
  "sip_text ''lygenera'' = 0x6c7967656e657261" "sip_text ''tedbytes'' = 0x7465646279746573"
  by code_simp+

lemma sip_init_tuple:
  "sip_tuple (sip_init k0 k1) = sip_xor (k0, k1, k0, k1)
     (sip_text ''somepseu'', sip_text ''dorandom'', sip_text ''lygenera'', sip_text ''tedbytes'')"
  by (simp only: sip_texts) (simp add: sip_init_def sip_tuple_def Let_def xor.commute)

lemma sip_final_sum: "sip_final s = sip_sum (sip_round (sip_round (sip_xor (0, 0, 0xff, 0) (sip_tuple s))))"
proof -
  have "sip_xor (0, 0, 0xff, 0) (sip_tuple s) = sip_tuple (s\<lparr>v2 := v2 s XOR 0xff\<rparr>)"
    by (simp add: sip_tuple_def xor.commute)
  then show ?thesis by (simp only: SIPROUND_round[symmetric]) (simp add: sip_final_def Let_def sip_tuple_def xor.assoc)
qed

lemma sip12_rounds:
  "sip12 k cs =
     sip_final (foldl (\<lambda>s w. sip_mix w s) (sip_init (sip_word (take 8 k)) (sip_word (take 8 (drop 8 k))))
       (sip_words (sip_pad cs)))"
  unfolding sip12_def Let_def sip_final_sum sip_mix_fold sip_init_tuple ..

section \<open>Lemmas\<close>

lemma take_drop_8:
  assumes "p + 8 \<le> length m"
  shows "take 8 (drop p m) = [m ! p, m ! (p + 1), m ! (p + 2), m ! (p + 3), m ! (p + 4), m ! (p + 5), m ! (p + 6), m ! (p + 7)]"
proof -
  have "take 8 (drop p m) = map (\<lambda>i. m ! (p + i)) [0..<8]"
    using assms by (intro nth_equalityI) simp_all
  also have "[0..<8] = [0, 1, 2, 3, 4, 5, 6, 7 :: nat]" by code_simp
  finally show ?thesis by simp
qed

lemma U8TO64_LE_word:
  assumes "p + 8 \<le> length m"
  shows "U8TO64_LE m p = Some (sip_word (take 8 (drop p m)))"
proof -
  have "mem_byte m (p + i) = Some (m ! (p + i))" if "i < 8" for i using that assms by (simp add: mem_byte_def)
  from this[of 0] this[of 1] this[of 2] this[of 3] this[of 4] this[of 5] this[of 6] this[of 7] show ?thesis
    unfolding take_drop_8[OF assms] by (simp add: U8TO64_LE_def push_bit_or)
qed

lemma sip_words_append:
  "length xs mod 8 = 0 \<Longrightarrow> sip_words (xs @ ys) = sip_words xs @ sip_words ys"
proof (induction xs rule: sip_words.induct)
  case (1 xs)
  show ?case
  proof (cases "length xs < 8")
    case True
    then have "xs = []" using 1(2) by simp
    then show ?thesis by (simp add: sip_words.simps)
  next
    case False
    have "length (drop 8 xs) mod 8 = 0" using 1(2) False by (simp add: mod_eq_0_iff_dvd dvd_diff_nat)
    then show ?thesis using 1(1)[OF False] False by (subst sip_words.simps[of xs], subst sip_words.simps) simp
  qed
qed

lemma sip_words_8: "length xs = 8 \<Longrightarrow> sip_words xs = [sip_word xs]"
  by (subst sip_words.simps, subst sip_words.simps) simp

lemma sip_loop_words:
  assumes "e \<le> length m" "p \<le> e" "(e - p) mod 8 = 0"
  shows "sip_loop U8TO64_LE m p e s = Some (e, foldl (\<lambda>s w. sip_mix w s) s (sip_words (take (e - p) (drop p m))))"
  using assms(2,3)
proof (induction "e - p" arbitrary: p s rule: less_induct)
  case less
  show ?case
  proof (cases "p = e")
    case True
    then show ?thesis by (subst sip_loop.simps) (simp add: sip_words.simps)
  next
    case False
    have d: "8 dvd e - p" using less.prems(2) by auto
    have "0 < e - p" using False less.prems(1) by simp
    then have "8 \<le> e - p" by (rule dvd_imp_le[OF d])
    then have p8: "p + 8 \<le> e" by simp
    have d8: "(e - (p + 8)) mod 8 = 0" using d p8 by (metis diff_diff_left dvd_diff_nat dvd_refl mod_0_imp_dvd dvd_imp_mod_0)
    have IH: "sip_loop U8TO64_LE m (p + 8) e s' =
        Some (e, foldl (\<lambda>s w. sip_mix w s) s' (sip_words (take (e - (p + 8)) (drop (p + 8) m))))" for s'
      using less.hyps[OF _ p8 d8] p8 by simp
    have "take 8 (take (e - p) (drop p m)) = take 8 (drop p m)" using p8 by (simp add: min_def)
    moreover have "drop 8 (take (e - p) (drop p m)) = take (e - (p + 8)) (drop (p + 8) m)"
      by (simp add: drop_take add.commute)
    ultimately have w: "sip_words (take (e - p) (drop p m)) =
        sip_word (take 8 (drop p m)) # sip_words (take (e - (p + 8)) (drop (p + 8) m))"
      using p8 assms(1) by (subst sip_words.simps) simp
    show ?thesis using False less.prems(1) p8 assms(1) IH
      by (subst sip_loop.simps) (simp add: U8TO64_LE_word w)
  qed
qed

lemma push_byte_56: "push_bit 56 (of_nat n :: u64) = push_bit 56 (ucast (of_nat n :: byte))"
  by (rule bit_word_eqI) (auto simp: bit_simps)

lemma sip_word_push:
  "sip_word (xs @ ys) = sip_word xs OR push_bit (8 * length xs) (sip_word ys)"
  by (induction xs) (simp_all add: push_bit_or or.assoc)

lemma sip_word_zeros: "sip_word (replicate n 0) = 0"
  by (induction n) simp_all

lemma and_7: "(n :: nat) AND 7 = n mod 8"
proof -
  have "n AND mask 3 = take_bit 3 n" by (rule take_bit_eq_mask[symmetric])
  then show ?thesis by (simp add: mask_eq_exp_minus_1 take_bit_eq_mod)
qed

lemma sip_tail_word:
  assumes "p + left \<le> length m" "left < 8" "cs = take left (drop p m)"
  shows "sip_tail ucast m p left (push_bit 56 (of_nat n)) = Some (sip_word (cs @ replicate (7 - left) 0 @ [of_nat n]))"
proof -
  define c where c: "c = (\<lambda>i. if i < left then m ! (p + i) else 0)"
  have ob: "or_byte ucast m p left i b = Some (b OR push_bit (8 * i) (ucast (c i)))" for i b
    using assms(1) by (simp add: or_byte_def mem_byte_def c)
  have "cs @ replicate (7 - left) 0 = map c [0..<7]"
    using assms by (intro nth_equalityI) (auto simp: nth_append c)
  also have "[0..<7] = [0, 1, 2, 3, 4, 5, 6 :: nat]" by code_simp
  finally have cs: "cs @ replicate (7 - left) 0 @ [of_nat n] = [c 0, c 1, c 2, c 3, c 4, c 5, c 6, of_nat n]"
    by simp
  show ?thesis unfolding cs sip_tail_def ob push_byte_56
    by (simp add: push_bit_or ac_simps del: push_bit_numeral_minus_1)
qed

lemma siphash_sip12:
  assumes "inp + inlen \<le> length m" "16 \<le> length k"
  shows "siphash m inp inlen k = Some (sip12 k (take inlen (drop inp m)))"
proof -
  define cs where cs: "cs = take inlen (drop inp m)"
  define left where left: "left = inlen mod 8"
  define e where e: "e = inp + inlen - left"
  define n where n: "n = 8 * (inlen div 8)"
  define tl where tl: "tl = take left (drop e m)"
  have nl: "n + left = inlen" "left < 8" "n mod 8 = 0" by (simp_all add: n left)
  then have en: "e = inp + n" "n + left = inlen" "left < 8" "n mod 8 = 0" unfolding e by simp_all
  have el: "e \<le> length m" "e + left \<le> length m" using assms(1) en by simp_all
  have len: "length cs = inlen" using assms(1) by (simp add: cs)
  have split: "cs = take n (drop inp m) @ tl"
    unfolding cs tl en(1) en(2)[symmetric] take_add by (simp add: add.commute)
  have keys: "U8TO64_LE k 0 = Some (sip_word (take 8 k))" "U8TO64_LE k 8 = Some (sip_word (take 8 (drop 8 k)))"
    using assms(2) U8TO64_LE_word[of 0 k] U8TO64_LE_word[of 8 k] by simp_all
  have loop: "sip_loop U8TO64_LE m inp e s = Some (e, foldl (\<lambda>s w. sip_mix w s) s (sip_words (take n (drop inp m))))" for s
    using sip_loop_words[of e m inp s] en el by simp
  have tail: "sip_tail ucast m e left (push_bit 56 (of_nat inlen)) =
      Some (sip_word (tl @ replicate (7 - left) 0 @ [of_nat inlen]))"
    using en el by (intro sip_tail_word) (simp_all add: tl)
  have ltl: "length tl = left" using el by (simp add: tl)
  have "sip_pad cs = take n (drop inp m) @ (tl @ replicate (7 - left) 0 @ [of_nat inlen])"
    unfolding sip_pad_def len left[symmetric] by (subst split) simp
  moreover have "length (take n (drop inp m)) mod 8 = 0"
    using en el by (simp add: min_absorb2)
  ultimately have "sip_words (sip_pad cs) = sip_words (take n (drop inp m)) @ [sip_word (tl @ replicate (7 - left) 0 @ [of_nat inlen])]"
    using sip_words_8[of "tl @ replicate (7 - left) 0 @ [of_nat inlen]"] ltl en(3) by (simp only: sip_words_append) simp
  then show ?thesis
    unfolding siphash_def sip12_rounds cs[symmetric] by (simp add: keys and_7 loop tail flip: left e)
qed

section \<open>Ignoring case\<close>

lemma u64_tlw_tolower: "u64_tlw c = ucast (c_tolower c)"
proof (cases "65 \<le> c \<and> c \<le> 90")
  case True
  then have u: "65 \<le> uint c" "uint c \<le> 90" by (simp_all add: word_le_def)
  then have "uint (c + 32) = uint c + 32" by (simp add: uint_word_ariths mod_pos_pos_trivial)
  then have "(ucast (c + 32) :: u64) = of_int (uint c + 32)" by (simp only: ucast_eq)
  then show ?thesis using True u by (simp add: u64_tlw_def siptlw_def c_tolower_def)
next
  case False
  then have "\<not> (65 \<le> uint c \<and> uint c \<le> 90)" by (simp add: word_le_def)
  then show ?thesis using False by (auto simp: u64_tlw_def siptlw_def c_tolower_def)
qed

lemma mem_byte_map: "mem_byte (map f m) p = map_option f (mem_byte m p)"
  by (simp add: mem_byte_def)

lemma U8TO64_LE_NOCASE_map: "U8TO64_LE_NOCASE m p = U8TO64_LE (map c_tolower m) p"
  unfolding U8TO64_LE_NOCASE_def U8TO64_LE_def mem_byte_map u64_tlw_tolower by (simp add: bind_map_option comp_def)

lemma sip_loop_map: "sip_loop U8TO64_LE_NOCASE m p e s = sip_loop U8TO64_LE (map c_tolower m) p e s"
proof (induction "e - p" arbitrary: p s rule: less_induct)
  case less
  have "sip_loop U8TO64_LE_NOCASE m (p + 8) e s' = sip_loop U8TO64_LE (map c_tolower m) (p + 8) e s'" if "p < e" for s'
    using less[of "p + 8"] that by simp
  then show ?case
    by (subst (1 2) sip_loop.simps) (cases "U8TO64_LE (map c_tolower m) p"; simp add: U8TO64_LE_NOCASE_map)
qed

lemma sip_tail_map: "sip_tail u64_tlw m p left b = sip_tail ucast (map c_tolower m) p left b"
proof -
  have "or_byte u64_tlw m p left i = or_byte ucast (map c_tolower m) p left i" for i
    by (rule ext) (cases "mem_byte m (p + i)"; simp add: or_byte_def mem_byte_map u64_tlw_tolower)
  then show ?thesis unfolding sip_tail_def by (simp only:)
qed

lemma siphash_nocase_map: "siphash_nocase m inp inlen k = siphash (map c_tolower m) inp inlen k"
  unfolding siphash_nocase_def siphash_def sip_loop_map sip_tail_map ..

section \<open>Hashes and comparisons agree\<close>

lemma c_tolower_0 [simp]: "c_tolower c = 0 \<longleftrightarrow> c = 0"
proof -
  have "c + 32 \<noteq> 0" if "65 \<le> c" "c \<le> 90"
  proof
    assume "c + 32 = 0"
    then have "c = - 32" by (simp add: add_eq_0_iff2)
    then show False using that by simp
  qed
  then show ?thesis by (auto simp: c_tolower_def)
qed

lemma c_tolower_0_sym [simp]: "c_tolower 0 = 0" "0 = c_tolower c \<longleftrightarrow> c = 0"
  using c_tolower_0[of c] by (simp, metis)

lemma strcasecmp_strings:
  "0 \<notin> set s \<Longrightarrow> 0 \<notin> set t \<Longrightarrow>
    strcasecmp_eq (pre @ s @ 0 # post) (length pre) (pre' @ t @ 0 # post') (length pre') =
    Some (map c_tolower s = map c_tolower t)"
proof (induction s arbitrary: t pre pre')
  case Nil
  then show ?case by (cases t) (subst strcasecmp_eq.simps; auto simp: mem_byte_at)+
next
  case (Cons c s)
  show ?case
  proof (cases t)
    case Nil
    then show ?thesis using Cons.prems by (subst strcasecmp_eq.simps) (auto simp: mem_byte_at)
  next
    case t: (Cons d u)
    have "strcasecmp_eq ((pre @ [c]) @ s @ 0 # post) (length (pre @ [c])) ((pre' @ [d]) @ u @ 0 # post') (length (pre' @ [d])) =
        Some (map c_tolower s = map c_tolower u)"
      using Cons.prems t by (intro Cons.IH) auto
    then show ?thesis using Cons.prems t by (subst strcasecmp_eq.simps) (auto simp: mem_byte_at)
  qed
qed

lemma int_of_size_small: "n < 2 ^ 31 \<Longrightarrow> int_of_size n = int n"
  by (simp add: int_of_size_def signed_of_nat signed_take_bit_int_eq_self)

lemma memcmp_strings:
  "length s = length t \<Longrightarrow> length s < 2 ^ 31 \<Longrightarrow>
    memcmp_eq (pre @ s @ post) (length pre) (pre' @ t @ post') (length pre') (int (length s)) = Some (s = t)"
  by (simp add: memcmp_eq_def mem_get_def mod_pos_pos_trivial)

lemma string_hash:
  assumes "16 \<le> length seed"
  shows "siphash (pre @ s @ post) (length pre) (length s) seed = Some (sip12 seed s)"
    and "siphash_nocase (pre @ s @ post) (length pre) (length s) seed = Some (sip12 seed (map c_tolower s))"
  using assms by (simp_all add: siphash_nocase_map siphash_sip12)

text \<open>The hashes of two concrete strings under the key of zeros, computed round by round.\<close>

lemma ex_hash_1: "sip12 (replicate 16 0) [0x61, 0, 1] = 0xf5d281e147b0fe9c"
proof -
  have "sip_words (sip_pad [0x61, 0, 1]) = [0x300000000010061]" by code_simp
  moreover have "sip_word (take 8 (replicate 16 0)) = 0" "sip_word (take 8 (drop 8 (replicate 16 0))) = 0" by code_simp+
  moreover have "sip_mix 0x300000000010061 (sip_init 0 0) =
      \<lparr>v0 = 0x659487955aa67fbd, v1 = 0xf9651ba6cbcb3cc7, v2 = 0x3b154fe21d71bdd2, v3 = 0x30c4de815877884a\<rparr>" by code_simp
  moreover have "SIPROUND \<lparr>v0 = 0x659487955aa67fbd, v1 = 0xf9651ba6cbcb3cc7, v2 = 0x3b154fe21d71bd2d, v3 = 0x30c4de815877884a\<rparr> =
      \<lparr>v0 = 0xdbcd32995c9d18ef, v1 = 0x9ded2b7a30837205, v2 = 0xb7d2891f6967a8a8, v3 = 0x195286f7eaebb381\<rparr>" by code_simp
  moreover have "SIPROUND \<lparr>v0 = 0xdbcd32995c9d18ef, v1 = 0x9ded2b7a30837205, v2 = 0xb7d2891f6967a8a8, v3 = 0x195286f7eaebb381\<rparr> =
      \<lparr>v0 = 0xe4f385f1618ca38e, v1 = 0x9dfdeedb45202cd8, v2 = 0x37b39572adfa281b, v3 = 0xbb6f7fb9cee659d1\<rparr>" by code_simp
  ultimately show ?thesis by (simp add: sip12_rounds sip_final_def)
qed

lemma ex_hash_2: "sip12 (replicate 16 0) [0x61, 0, 2] = 0x65c97aed1cbd0473"
proof -
  have "sip_words (sip_pad [0x61, 0, 2]) = [0x300000000020061]" by code_simp
  moreover have "sip_word (take 8 (replicate 16 0)) = 0" "sip_word (take 8 (drop 8 (replicate 16 0))) = 0" by code_simp+
  moreover have "sip_mix 0x300000000020061 (sip_init 0 0) =
      \<lparr>v0 = 0x659487945aaa7fbd, v1 = 0xf9651ba6cbc83cc7, v2 = 0x3b164fe21d71bdd2, v3 = 0x30a4dea05878884a\<rparr>" by code_simp
  moreover have "SIPROUND \<lparr>v0 = 0x659487945aaa7fbd, v1 = 0xf9651ba6cbc83cc7, v2 = 0x3b164fe21d71bd2d, v3 = 0x30a4dea05878884a\<rparr> =
      \<lparr>v0 = 0xdb8e337f5c9a190e, v1 = 0x9dcceb1010857205, v2 = 0x97d4891f6948a8c4, v3 = 0x4d18771e6ecba60\<rparr>" by code_simp
  moreover have "SIPROUND \<lparr>v0 = 0xdb8e337f5c9a190e, v1 = 0x9dcceb1010857205, v2 = 0x97d4891f6948a8c4, v3 = 0x4d18771e6ecba60\<rparr> =
      \<lparr>v0 = 0x88f7819163b08684, v1 = 0xb9e0ab8f62c153bc, v2 = 0x13949bce80df2d31, v3 = 0x474acb3d9d13fc7a\<rparr>" by code_simp
  ultimately show ?thesis by (simp add: sip12_rounds sip_final_def)
qed

section \<open>Properties\<close>

text \<open>
  (C36) \<open>siphash\<close> reads the \<open>inlen\<close> bytes of its input and the 16 bytes of the key and
  nothing else, at any alignment, and is SipHash-1-2: the words of the string padded with zeros and
  the byte of its length, absorbed in order.
\<close>

theorem siphash_reference:
  assumes "inp + inlen \<le> length m" "16 \<le> length k"
  shows "siphash m inp inlen k = Some (sip12 k (take inlen (drop inp m)))"
  using assms by (rule siphash_sip12)

theorem siphash_reference_witness:
  "siphash [9, 0x61, 0x62, 0x63, 9] 1 3 (replicate 16 7) = Some (sip12 (replicate 16 7) [0x61, 0x62, 0x63])"
  using siphash_reference[of 1 3 "[9, 0x61, 0x62, 0x63, 9]" "replicate 16 7"] by (simp add: eval_nat_numeral)

text \<open>
  (C37) \<open>siphash_nocase\<close> is \<open>siphash\<close> of the string in lower case, for every input: it
  reads the same bytes and fails where the other fails.
\<close>

theorem siphash_nocase_lower:
  "siphash_nocase m inp inlen k = siphash (map c_tolower m) inp inlen k"
  by (rule siphash_nocase_map)

text \<open>
  (C38) The callbacks of dictionary types: for strings without zero bytes and shorter than 2 to the 31, as
  sds strings and as C strings, the exact comparison decides equality and the other one equality up
  to case, and strings that compare equal have the same hash; no callback reads outside its strings.
\<close>

theorem dict_callbacks_agree:
  assumes "16 \<le> length seed" "0 \<notin> set s" "0 \<notin> set t" "length s < 2 ^ 31" "length t < 2 ^ 31"
    and "m1 = pre @ s @ 0 # post" "m2 = pre' @ t @ 0 # post'"
  shows "dictSdsKeyCompare s t = Some (s = t) \<and> dictCStrKeyCompare m1 (length pre) m2 (length pre') = Some (s = t) \<and>
    dictSdsHash seed s = Some (sip12 seed s) \<and> dictCStrHash seed m1 (length pre) = Some (sip12 seed s) \<and>
    dictSdsKeyCaseCompare s t = Some (map c_tolower s = map c_tolower t) \<and>
    dictCStrKeyCaseCompare m1 (length pre) m2 (length pre') = Some (map c_tolower s = map c_tolower t) \<and>
    dictSdsCaseHash seed s = Some (sip12 seed (map c_tolower s)) \<and>
    dictCStrCaseHash seed m1 (length pre) = Some (sip12 seed (map c_tolower s))"
proof -
  note len = c_strlen_string[OF assms(2), of pre post] c_strlen_string[OF assms(3), of pre' post']
  have "dictCStrKeyCompare m1 (length pre) m2 (length pre') = Some (s = t)"
    using memcmp_strings[of s t pre "0 # post" pre' "0 # post'"] assms(4-7) len
    by (auto simp: dictCStrKeyCompare_def int_of_size_small)
  moreover have "dictSdsKeyCompare s t = Some (s = t)"
    using memcmp_strings[of s t "[]" "[0]" "[]" "[0]"] assms(4,5)
    by (auto simp: dictSdsKeyCompare_def int_of_size_small)
  moreover have "dictSdsKeyCaseCompare s t = Some (map c_tolower s = map c_tolower t)"
    using strcasecmp_strings[OF assms(2,3), of "[]" "[]" "[]" "[]"] by (simp add: dictSdsKeyCaseCompare_def)
  moreover have "dictCStrKeyCaseCompare m1 (length pre) m2 (length pre') = Some (map c_tolower s = map c_tolower t)"
    using strcasecmp_strings[OF assms(2,3)] assms(6,7) by (simp add: dictCStrKeyCaseCompare_def)
  ultimately show ?thesis
    using string_hash[OF assms(1), of pre s "0 # post"] string_hash[OF assms(1), of "[]" s "[0]"] len assms(6,7)
    by (simp add: dictSdsHash_def dictCStrHash_def dictSdsCaseHash_def dictCStrCaseHash_def
        dictGenHashFunction_def dictGenCaseHashFunction_def)
qed

theorem dict_callbacks_agree_witness:
  "dictSdsKeyCaseCompare [0x47, 0x65, 0x54] [0x67, 0x45, 0x74] = Some True \<and>
    dictSdsCaseHash (replicate 16 1) [0x47, 0x65, 0x54] = dictSdsCaseHash (replicate 16 1) [0x67, 0x45, 0x74]"
proof -
  note a = dict_callbacks_agree[of "replicate 16 1" _ _ _ "[]" "[]" _ "[]" "[]"]
  have "map c_tolower [0x47, 0x65, 0x54] = map c_tolower [0x67, 0x45, 0x74]" by code_simp
  then show ?thesis
    using a[of "[0x47, 0x65, 0x54]" "[0x67, 0x45, 0x74]"] a[of "[0x67, 0x45, 0x74]" "[0x47, 0x65, 0x54]"] by simp
qed

text \<open>
  (C39) Without that restriction the case insensitive callbacks for sds strings disagree: whatever follows
  the first zero byte is ignored by the comparison and hashed by the hash function. The witness is
  two keys that compare equal and have different hashes.
\<close>

theorem dict_case_callbacks_zero_byte:
  assumes "16 \<le> length seed" "0 \<notin> set s" "0 \<notin> set t"
  shows "dictSdsKeyCaseCompare (s @ 0 # u) (t @ 0 # v) = Some (map c_tolower s = map c_tolower t) \<and>
    dictSdsCaseHash seed (s @ 0 # u) = Some (sip12 seed (map c_tolower s @ 0 # map c_tolower u))"
  using strcasecmp_strings[OF assms(2,3), of "[]" "u @ [0]" "[]" "v @ [0]"]
    string_hash(2)[OF assms(1), of "[]" "s @ 0 # u" "[0]"]
  by (simp add: dictSdsKeyCaseCompare_def dictSdsCaseHash_def dictGenCaseHashFunction_def)

theorem dict_case_callbacks_zero_byte_witness:
  "dictSdsKeyCaseCompare [0x61, 0, 1] [0x61, 0, 2] = Some True \<and>
    dictSdsCaseHash (replicate 16 0) [0x61, 0, 1] \<noteq> dictSdsCaseHash (replicate 16 0) [0x61, 0, 2]"
proof -
  note z = dict_case_callbacks_zero_byte[of "replicate 16 0" "[0x61]" "[0x61]"]
  have "map c_tolower [0x61] = [0x61]" "map c_tolower [1] = [1]" "map c_tolower [2] = [2]" by code_simp+
  then show ?thesis using z[of "[1]" "[2]"] z[of "[2]" "[1]"] by (simp add: ex_hash_1 ex_hash_2)
qed

end
