(* ===== verification/Spec2Isabelle.thy ===== *)
theory Spec2Isabelle
  imports Intset Util_Glob Dict_Scan Listpack_Seq Endianconv Crc16 Notify Lrand48 Strl Bitops Siphash
begin

text \<open>
  \<^bold>\<open>A model of the data structure layer of the Redis server in src/redis-7.2.4/src.\<close>

  \<^bold>\<open>The program.\<close> The repository holds a web application (src/src, TypeScript) and
  the Redis server it stores its data in (src/redis-7.2.4, C). The server is an event loop that
  reads commands, runs them on a keyspace and writes replies. The keyspace, and every large set
  and hash, is a \<open>dict\<close>; small sets of integers are an \<open>intset\<close>; small lists,
  hashes, sorted sets and stream nodes are a \<open>listpack\<close>. Commands turn strings into
  integers and back (\<open>util.c\<close>), select keys with glob patterns (\<open>util.c\<close>),
  work on strings as bit arrays (\<open>bitops.c\<close>), and choose cluster slots by a checksum of
  the key (\<open>crc16.c\<close>, \<open>cluster.c\<close>). The development models this layer: the
  code whose behaviour is fixed by its arguments and its memory.

  \<^bold>\<open>Conventions\<close> (\<open>Redis_Prelude\<close>). Memory is a list of bytes; a pointer is
  an offset; \<open>mem_get\<close>, \<open>mem_put\<close>, \<open>mem_move\<close> and
  \<open>mem_realloc\<close> are reads, writes, \<open>memmove\<close> and \<open>realloc\<close>. Code that
  may read or write out of bounds, fail an assertion or read an uninitialised field is in the
  option monad, with \<open>None\<close> for such an event, so an equation \<open>f x = Some y\<close>
  also says that the code stays inside its memory and returns. Unsigned integers are words where
  wrap-around or bit operations matter; a signed 64 bit value is an \<open>int\<close> in the range
  \<open>in_sbits 64\<close>. Names are those of the code; a leading underscore becomes
  \<open>u_\<close>. Memory is little endian, as on the machines the server is built for.

  \<^bold>\<open>Theories.\<close>
  \<^item> \<open>Intset\<close> models all of \<open>intset.c\<close>: a record with the fields of the
    structure and its raw contents, and one definition per function. \<open>intset_inv\<close> says
    that the contents are a strictly sorted array in the stated encoding; \<open>intset_list\<close> is
    the abstract list. Adding (with or without an upgrade of the encoding) and removing refine
    insertion into and deletion from the set of members; the binary search gives the rank; deep
    validation of a block below 4 GB accepts exactly the blocks that hold a well-formed set.
    \<open>intset_add_wraps\<close> and \<open>intset_validate_reads_before\<close> are the behaviour beyond
    the size bounds the other theorems assume.
  \<^item> \<open>Util_Numbers\<close> and \<open>Util_Glob\<close> model the conversions and the pattern
    matcher of \<open>util.c\<close>: \<open>string2ll\<close> accepts exactly the canonical decimals,
    \<open>ll2string\<close> prints them, \<open>stringmatchlen\<close> with its early exits accepts a
    string exactly when the elements of the parsed pattern do. That reference shares no code with the
    matcher: the pattern is parsed into stars, single bytes, literals and bracket sets
    (\<open>glob_parse\<close>), which are matched by splitting the string
    (\<open>glob_match\<close>), and every list of elements can be printed as a pattern
    (\<open>glob_print\<close>).
  \<^item> \<open>Dict\<close> models \<open>dict.c\<close>: two tables of chains, the rehashing index, and
    the operations in the order of the file. \<open>Dict_Inv\<close> has the invariant
    \<open>dict_inv\<close> (sizes, counters, every entry in its bucket, the part of the old table below
    the rehashing index empty, keys unique) and that rehashing keeps it and the bag of entries.
    \<open>Keyed_Store\<close> is the interface of a store of values by key: a locale with the laws of
    lookup, insertion and deletion and, proved from them, that any run of operations refines a
    finite map. \<open>Dict_Map\<close> proves the operations correct against the map the two tables
    hold and interprets the locale with the dictionary. \<open>Dict_Scan\<close> models
    \<open>dictScan\<close> with its reversed binary cursor and proves that an iteration misses no
    element that stays in the table, whatever resizing and rehashing happens between the calls,
    and that it ends when nothing changes.
  \<^item> \<open>Listpack\<close> models \<open>listpack.c\<close> on the raw block: the element encodings,
    walking in both directions, seeking, insertion, replacement, deletion, merging and
    validation. \<open>Listpack_Rep\<close> defines when a block represents a list of strings and
    integers (\<open>lp_rep\<close>) and proves that the readers return the elements of that list;
    \<open>Listpack_Ops\<close> proves what creation, \<open>lpInsert\<close>, \<open>lpMerge\<close> and
    \<open>lpDeleteRange\<close> make of it. \<open>Sequence_Store\<close> is the interface of a bounded
    sequence: a locale with the laws of the operations in which any run of commands is shown to
    refine the same run on a list. \<open>Listpack_Seq\<close> interprets it with the listpack, defines
    the blocks reachable from \<open>lpNew\<close> inductively and proves them well-formed and accepted
    by \<open>lpValidateIntegrity\<close>. Of the modelled operations \<open>lpFind\<close>,
    \<open>lpBatchDelete\<close> and \<open>lpRandomPair\<close> have no theorem.
  \<^item> \<open>Endianconv\<close> (\<open>endianconv.c\<close>), \<open>Crc16\<close> (\<open>crc16.c\<close>
    and \<open>keyHashSlot\<close> of \<open>cluster.c\<close>), \<open>Notify\<close> (the event classes of
    \<open>notify.c\<close>), \<open>Lrand48\<close> (\<open>rand.c\<close>), \<open>Strl\<close>
    (\<open>strl.c\<close>) and \<open>Bitops\<close> (bit fields and the search for a bit of
    \<open>bitops.c\<close>) each compare the optimised C routine with a plain definition: bytes
    reversed, polynomial division, a linear congruence modulo 2 to the 48, bounded concatenation,
    the integer a bit field denotes, the first position of a bit. The overflow checks of bit fields
    are compared with \<open>overflow_spec\<close> for an increment of a field's value and for a value
    to be stored.
  \<^item> \<open>Siphash\<close> models \<open>siphash.c\<close> and the callbacks of \<open>server.c\<close> that
    hash and compare the string keys of dictionaries: the hash equals SipHash-1-2 as
    it is specified, by half rounds over the words of the padded string (\<open>sip12\<close>), and on strings without zero bytes the callbacks have the
    property the dictionary asks of its type, that equal keys have equal hashes.

  \<^bold>\<open>Bounds and fuel.\<close> Loops are structural recursion or have a termination proof. The
  one loop with fuel is that of \<open>dictRehashMilliseconds\<close>, which ends by the clock or by
  finishing; the theorem shows that one more round than the old table has buckets is enough,
  whatever the clock says. The size bounds in the theorems (fewer than 2 to the 60 entries in a
  dictionary, contents of an intset below 2 to the 32 bytes, string keys below 2 to the 31) are those below which the
  arithmetic of the code does not wrap.

  \<^bold>\<open>Parameters.\<close> The hash function, key comparison and duplication of a dictionary are
  fields of the record \<open>dictType\<close>, as in the code, with the hypothesis
  \<open>dictType_ok\<close>: equal keys have equal hashes. The allocator is the record \<open>lp_allocator\<close>, which gives the
  contents and the usable size of a block as functions of the request, with the hypothesis \<open>alloc_ok\<close>: the usable size
  is at least the requested one. The clock is a function from the number of the call to
  the time.

  \<^bold>\<open>Not modelled.\<close> The event loop, networking, persistence, replication, the cluster bus,
  sentinel, scripting, modules and the command implementations work on the whole server state
  through sockets, files and forked processes. Other containers (quicklist, ziplist, rax, sds,
  sorted sets, streams) are not modelled. Of the modelled files, random sampling, iterators,
  defragmentation, statistics and self tests are left out, as is floating point. The bundled
  libraries under deps/ and the packages of the web application are third party code.
\<close>

end
